(* ===== verification/Lute_Prelude.thy ===== *)
theory Lute_Prelude
  imports Main "HOL-Library.Word"
begin

text \<open>
  The shared vocabulary of the development: results of fallible C++ code, \<open>size_t\<close> arithmetic
  with its wrap-around, raw memory reads and writes on a byte array, and the generic locales for
  transition systems.  Every \<^verbatim>\<open>assert\<close> of the source is a branch that returns
  \<open>Inl AssertFailed\<close>: the model is the debug build, and a theorem that an operation returns
  \<open>Inr\<close> says that the release build (where \<^verbatim>\<open>NDEBUG\<close> removes the asserts) computes the same.
\<close>

subsection \<open>Results\<close>

datatype error =
    AssertFailed        \<comment> \<open>an \<^verbatim>\<open>assert\<close> of the source is false\<close>
  | OutOfBounds         \<comment> \<open>a read or write outside of an array\<close>
  | LengthError         \<comment> \<open>\<^verbatim>\<open>std::length_error\<close> of a vector that would exceed \<^verbatim>\<open>max_size()\<close>\<close>
  | UseAfterFree        \<comment> \<open>a deleted or never allocated object is dereferenced\<close>
  | Fatal               \<comment> \<open>\<^verbatim>\<open>LOG_FATAL\<close> / \<^verbatim>\<open>LOG_SYSFATAL\<close>: the process aborts\<close>
  | BadFunctionCall     \<comment> \<open>an empty \<^verbatim>\<open>std::function\<close> is called\<close>
  | NullDeref           \<comment> \<open>a null pointer is dereferenced\<close>
  | Diverges            \<comment> \<open>a loop of the source that never ends\<close>

type_synonym 'a result = "error + 'a"

definition bindR :: "'a result \<Rightarrow> ('a \<Rightarrow> 'b result) \<Rightarrow> 'b result" where
  "bindR m f = (case m of Inl e \<Rightarrow> Inl e | Inr x \<Rightarrow> f x)"

definition assertR :: "bool \<Rightarrow> 'a result \<Rightarrow> 'a result" where
  "assertR b m = (if b then m else Inl AssertFailed)"

named_theorems result_simps \<open>inversion of the result combinators\<close>

lemma bindR_simps [simp]:
  "bindR (Inl e) f = Inl e"
  "bindR (Inr x) f = f x"
  by (simp_all add: bindR_def)

lemma assertR_simps [simp]:
  "assertR True m = m"
  "assertR False m = Inl AssertFailed"
  by (simp_all add: assertR_def)

lemma bindR_eq_Inr [result_simps]: "bindR m f = Inr y \<longleftrightarrow> (\<exists>x. m = Inr x \<and> f x = Inr y)"
  by (cases m) auto

lemma bindR_eq_Inl [result_simps]:
  "bindR m f = Inl e \<longleftrightarrow> m = Inl e \<or> (\<exists>x. m = Inr x \<and> f x = Inl e)"
  by (cases m) auto

lemma assertR_eq_Inr [result_simps]: "assertR b m = Inr y \<longleftrightarrow> b \<and> m = Inr y"
  by (cases b) auto

lemma bindR_assoc: "bindR (bindR m f) g = bindR m (\<lambda>x. bindR (f x) g)"
  by (cases m) auto

lemma bindR_Inr_right [simp]: "bindR m Inr = m"
  by (cases m) auto

text \<open>Running a list of commands one after the other, stopping at the first error.\<close>

fun foldR :: "('c \<Rightarrow> 's \<Rightarrow> 's result) \<Rightarrow> 'c list \<Rightarrow> 's \<Rightarrow> 's result" where
  "foldR f [] s = Inr s"
| "foldR f (c # cs) s = bindR (f c s) (foldR f cs)"

lemma foldR_append: "foldR f (xs @ ys) s = bindR (foldR f xs s) (foldR f ys)"
  by (induction xs arbitrary: s) (auto simp: bindR_assoc intro: arg_cong [where f = "bindR _"])

lemma foldR_fun:
  "foldR f [] = Inr"
  "foldR f (x # xs) = (\<lambda>s. bindR (f x s) (foldR f xs))"
  "foldR f (xs @ ys) = (\<lambda>s. bindR (foldR f xs s) (foldR f ys))"
  by (auto simp: fun_eq_iff foldR_append)

subsection \<open>The type \<open>size_t\<close>\<close>

text \<open>
  A \<^verbatim>\<open>size_t\<close> is a natural number below \<open>2 ^ 64\<close>; addition and subtraction wrap around.  A
  vector of chars has at most \<^verbatim>\<open>PTRDIFF_MAX\<close> elements, and a longer one is refused.
\<close>

type_synonym size_t = nat

definition sz_add :: "size_t \<Rightarrow> size_t \<Rightarrow> size_t" where
  "sz_add a b = (a + b) mod 2 ^ 64"

definition sz_sub :: "size_t \<Rightarrow> size_t \<Rightarrow> size_t" where
  "sz_sub a b = (2 ^ 64 + a - b) mod 2 ^ 64"

definition vec_max :: size_t where
  "vec_max = 2 ^ 63 - 1"

lemma sz_add_small [simp]: "a + b < 2 ^ 64 \<Longrightarrow> sz_add a b = a + b"
  by (simp add: sz_add_def)

lemma sz_sub_small [simp]: "b \<le> a \<Longrightarrow> a < 2 ^ 64 \<Longrightarrow> sz_sub a b = a - b"
proof -
  assume "b \<le> a" "a < 2 ^ 64"
  then have "2 ^ 64 + a - b = (a - b) + 2 ^ 64 * 1" and "a - b < 2 ^ 64"
    by simp_all
  then show ?thesis unfolding sz_sub_def by (simp only: mod_mult_self2 mod_less)
qed

lemma vec_max_less: "n \<le> vec_max \<Longrightarrow> n < 2 ^ 63"
  by (simp add: vec_max_def)

subsection \<open>Byte arrays\<close>

text \<open>A C++ \<^verbatim>\<open>char\<close> is one byte; HOL's type \<^typ>\<open>char\<close> has exactly the 256 byte values.\<close>

type_synonym byte = char

text \<open>Timestamps in microseconds, and addresses of objects.\<close>

type_synonym timestamp = int

type_synonym addr = nat

definition mem_read :: "nat \<Rightarrow> nat \<Rightarrow> byte list \<Rightarrow> byte list result" where
  "mem_read i n m = (if i + n \<le> length m then Inr (take n (drop i m)) else Inl OutOfBounds)"

definition mem_write :: "nat \<Rightarrow> byte list \<Rightarrow> byte list \<Rightarrow> byte list result" where
  "mem_write i bs m =
     (if i + length bs \<le> length m then Inr (take i m @ bs @ drop (i + length bs) m)
      else Inl OutOfBounds)"

definition vec_resize :: "nat \<Rightarrow> byte list \<Rightarrow> byte list result" where
  "vec_resize n v =
     (if vec_max < n then Inl LengthError
      else Inr (take n v @ replicate (n - length v) (CHR 0x00)))"

lemma mem_write_length: "mem_write i bs m = Inr m' \<Longrightarrow> length m' = length m"
  by (auto simp: mem_write_def split: if_splits)

lemma take_drop_append_mid:
  "i \<le> j \<Longrightarrow> j \<le> length xs \<Longrightarrow>
   take (j - i + length ys) (drop i (take j xs @ ys @ zs)) = take (j - i) (drop i xs) @ ys"
  by (simp add: take_drop)

lemma map_add_rev_Cons: "m(k \<mapsto> v) ++ map_of (rev hs) = m ++ map_of (rev hs @ [(k, v)])"
proof -
  have "m(k \<mapsto> v) = m ++ [k \<mapsto> v]" by simp
  then show ?thesis by (simp only: map_of_append map_add_assoc map_of.simps fst_conv snd_conv)
qed

subsection \<open>Decimal numbers\<close>

text \<open>What \<^verbatim>\<open>snprintf\<close> prints for a non-negative number, and how a client reads it.\<close>

definition digit :: "nat \<Rightarrow> char" where
  "digit d = char_of (48 + d)"

fun dec :: "nat \<Rightarrow> string" where
  "dec n = (if n < 10 then [digit n] else dec (n div 10) @ [digit (n mod 10)])"

declare dec.simps [simp del]

definition undec :: "string \<Rightarrow> nat" where
  "undec s = foldl (\<lambda>n c. 10 * n + (of_char c - 48)) 0 s"

lemma undec_dec: "undec (dec n) = n"
proof (induction n rule: dec.induct)
  case (1 n)
  then show ?case by (subst dec.simps) (auto simp: undec_def digit_def)
qed

lemma dec_digits: "set (dec n) \<subseteq> digit ` {0..9}"
proof (induction n rule: dec.induct)
  case (1 n)
  have "digit (n mod 10) \<in> digit ` {0..9}" by (rule imageI) simp
  with 1 show ?case by (subst dec.simps) auto
qed

lemma dec_no_cr: "CHR 0x0D \<notin> set (dec n)"
proof
  assume "CHR 0x0D \<in> set (dec n)"
  with dec_digits obtain d where "d \<le> 9" "CHR 0x0D = digit d" by fastforce
  then have "of_char (CHR 0x0D) = (48 + d) mod 256" by (simp add: digit_def)
  with \<open>d \<le> 9\<close> show False by simp
qed

lemma dec_length: "n < 10 ^ k \<Longrightarrow> 0 < k \<Longrightarrow> length (dec n) \<le> k"
proof (induction k arbitrary: n)
  case (Suc k)
  show ?case
  proof (cases "n < 10")
    case False
    then have "k \<noteq> 0" using Suc.prems by (cases k) auto
    moreover have "n div 10 < 10 ^ k" using Suc.prems by (simp add: less_mult_imp_div_less)
    ultimately show ?thesis using Suc.IH [of "n div 10"] False by (subst dec.simps) simp
  qed (simp add: dec.simps)
qed simp

definition show_int :: "int \<Rightarrow> string" where
  "show_int i = (if i < 0 then CHR ''-'' # dec (nat (- i)) else dec (nat i))"

subsection \<open>Transition systems\<close>

text \<open>
  The interface of every state machine of the development: a predicate of start states, a step
  relation and an invariant that holds at the start and is kept by every step.
\<close>

inductive reach :: "('s \<Rightarrow> bool) \<Rightarrow> ('s \<Rightarrow> 's \<Rightarrow> bool) \<Rightarrow> 's \<Rightarrow> bool"
  for init :: "'s \<Rightarrow> bool" and step :: "'s \<Rightarrow> 's \<Rightarrow> bool" where
  reach_init: "init s \<Longrightarrow> reach init step s"
| reach_step: "reach init step s \<Longrightarrow> step s t \<Longrightarrow> reach init step t"

locale invariant_system =
  fixes init :: "'s \<Rightarrow> bool"
    and step :: "'s \<Rightarrow> 's \<Rightarrow> bool"
    and inv :: "'s \<Rightarrow> bool"
  assumes init_inv: "init s \<Longrightarrow> inv s"
    and step_inv: "inv s \<Longrightarrow> step s t \<Longrightarrow> inv t"
begin

lemma reach_inv: "reach init step s \<Longrightarrow> inv s"
  by (induction rule: reach.induct) (auto intro: init_inv step_inv)

lemma run_inv: "inv s \<Longrightarrow> step\<^sup>*\<^sup>* s t \<Longrightarrow> inv t"
  by (rotate_tac, induction rule: rtranclp_induct) (auto intro: step_inv)

end

text \<open>Every command of the list is allowed in the state in which it is run.\<close>

fun allowed :: "('c \<Rightarrow> 's \<Rightarrow> 's result) \<Rightarrow> ('c \<Rightarrow> 's \<Rightarrow> bool) \<Rightarrow> 'c list \<Rightarrow> 's \<Rightarrow> bool" where
  "allowed exec ok [] s = True"
| "allowed exec ok (c # cs) s \<longleftrightarrow>
     ok c s \<and> (case exec c s of Inl e \<Rightarrow> True | Inr s' \<Rightarrow> allowed exec ok cs s')"

text \<open>
  The interface of a deterministic component whose commands may fail: an invariant under which no
  allowed command fails and which every allowed command keeps.  Its client lemma: no sequence of
  allowed commands fails.
\<close>

locale safe_commands =
  fixes exec :: "'c \<Rightarrow> 's \<Rightarrow> 's result"
    and inv :: "'s \<Rightarrow> bool"
    and ok :: "'c \<Rightarrow> 's \<Rightarrow> bool"
  assumes exec_safe: "inv s \<Longrightarrow> ok c s \<Longrightarrow> \<exists>s'. exec c s = Inr s' \<and> inv s'"
begin

lemma foldR_safe: "inv s \<Longrightarrow> allowed exec ok cs s \<Longrightarrow> \<exists>s'. foldR exec cs s = Inr s' \<and> inv s'"
proof (induction cs arbitrary: s)
  case Nil
  then show ?case by simp
next
  case (Cons c cs)
  then obtain s1 where "exec c s = Inr s1" "inv s1"
    using exec_safe [of s c] by auto
  with Cons show ?case by auto
qed

lemma foldR_inv: "inv s \<Longrightarrow> allowed exec ok cs s \<Longrightarrow> foldR exec cs s = Inr s' \<Longrightarrow> inv s'"
  using foldR_safe [of s cs] by auto

end

end
