(* ===== verification/Lute_Endian.thy ===== *)
theory Lute_Endian
  imports Lute_Prelude
begin

text \<open>
  The byte-order functions of \<^verbatim>\<open>polaris/include/polaris/Sockets.h\<close>.  The native memory layout of an
  integer is a parameter (\<open>endian\<close>), so that the theorems hold on both kinds of host: what the
  buffer sends is the big-endian layout whatever the host is.
\<close>

datatype endian = LittleEndian | BigEndian

subsection \<open>Little-endian digits\<close>

primrec le_digits :: "nat \<Rightarrow> nat \<Rightarrow> byte list" where
  "le_digits 0 x = []"
| "le_digits (Suc n) x = char_of x # le_digits n (x div 256)"

definition le_value :: "byte list \<Rightarrow> nat" where
  "le_value bs = horner_sum of_char 256 bs"

lemma le_value_simps [simp]:
  "le_value [] = 0"
  "le_value (b # bs) = of_char b + 256 * le_value bs"
  by (simp_all add: le_value_def)

lemma length_le_digits [simp]: "length (le_digits n x) = n"
  by (induction n arbitrary: x) auto

lemma of_char_less [simp]: "(of_char c :: nat) < 256"
  using nat_of_char_less_256 [of c] by simp

lemma le_value_less: "le_value bs < 256 ^ length bs"
proof (induction bs)
  case (Cons b bs)
  have "of_char b + 256 * le_value bs < 256 + 256 * le_value bs"
    by simp
  also have "\<dots> \<le> 256 * 256 ^ length bs"
    using Cons by (metis Suc_leI mult.commute mult_Suc mult_le_mono2)
  finally show ?case by simp
qed simp

lemma le_value_le_digits: "le_value (le_digits n x) = x mod 256 ^ n"
proof (induction n arbitrary: x)
  case (Suc n)
  have "x mod 256 ^ Suc n = 256 * (x div 256 mod 256 ^ n) + x mod 256"
    by (simp add: mod_mult2_eq)
  with Suc show ?case by simp
qed simp

lemma le_digits_le_value: "le_digits (length bs) (le_value bs) = bs"
proof (induction bs)
  case (Cons b bs)
  have "(of_char b + 256 * le_value bs) div 256 = le_value bs"
    by simp
  moreover have "char_of (of_char b + 256 * le_value bs) = b"
    by (simp add: char_of_eq_iff take_bit_eq_mod)
  ultimately show ?case using Cons by simp
qed simp

subsection \<open>Memory layout of words\<close>

definition mem_of_word :: "endian \<Rightarrow> 'a::len word \<Rightarrow> byte list" where
  "mem_of_word e w =
     (case e of LittleEndian \<Rightarrow> le_digits (LENGTH('a) div 8) (unat w)
              | BigEndian \<Rightarrow> rev (le_digits (LENGTH('a) div 8) (unat w)))"

definition word_of_mem :: "endian \<Rightarrow> byte list \<Rightarrow> 'a::len word" where
  "word_of_mem e bs =
     (case e of LittleEndian \<Rightarrow> word_of_nat (le_value bs)
              | BigEndian \<Rightarrow> word_of_nat (le_value (rev bs)))"

definition bswap :: "'a::len word \<Rightarrow> 'a word" where
  "bswap w = word_of_mem BigEndian (mem_of_word LittleEndian w)"

lemma length_mem_of_word [simp]: "length (mem_of_word e (w :: 'a::len word)) = LENGTH('a) div 8"
  by (cases e) (simp_all add: mem_of_word_def)

lemma two_power_256: "8 dvd n \<Longrightarrow> (2::nat) ^ n = 256 ^ (n div 8)"
  by (auto simp: power_mult elim!: dvdE)

lemma unat_less_256: "8 dvd LENGTH('a) \<Longrightarrow> unat (w :: 'a::len word) < 256 ^ (LENGTH('a) div 8)"
  using unsigned_less [of w, where ?'a = nat] by (simp add: two_power_256)

lemma word_of_mem_of_word:
  "8 dvd LENGTH('a) \<Longrightarrow> word_of_mem e (mem_of_word e (w :: 'a::len word)) = w"
  by (cases e) (simp_all add: mem_of_word_def word_of_mem_def le_value_le_digits unat_less_256)

lemma mem_of_word_of_mem:
  assumes "8 dvd LENGTH('a)" and "length bs = LENGTH('a) div 8"
  shows "mem_of_word e (word_of_mem e bs :: 'a::len word) = bs"
proof -
  have lt: "le_value cs < 2 ^ LENGTH('a)" if "length cs = LENGTH('a) div 8" for cs
    using assms(1) that le_value_less [of cs] by (simp add: two_power_256)
  show ?thesis
    using assms le_digits_le_value [of bs] le_digits_le_value [of "rev bs"]
    by (cases e) (simp_all add: mem_of_word_def word_of_mem_def unat_of_nat lt)
qed

subsection \<open>Network byte order\<close>

text \<open>\<^verbatim>\<open>htobe16/32/64\<close> and \<^verbatim>\<open>be16/32/64toh\<close> of \<^verbatim>\<open>endian.h\<close>: a byte swap on a little-endian host.\<close>

definition htobe :: "endian \<Rightarrow> 'a::len word \<Rightarrow> 'a word" where
  "htobe e w = (case e of LittleEndian \<Rightarrow> bswap w | BigEndian \<Rightarrow> w)"

definition hostToNetwork64 :: "endian \<Rightarrow> 64 word \<Rightarrow> 64 word" where
  "hostToNetwork64 e w = htobe e w"

definition hostToNetwork32 :: "endian \<Rightarrow> 32 word \<Rightarrow> 32 word" where
  "hostToNetwork32 e w = htobe e w"

definition hostToNetwork16 :: "endian \<Rightarrow> 16 word \<Rightarrow> 16 word" where
  "hostToNetwork16 e w = htobe e w"

definition networkToHost64 :: "endian \<Rightarrow> 64 word \<Rightarrow> 64 word" where
  "networkToHost64 e w = htobe e w"

definition networkToHost32 :: "endian \<Rightarrow> 32 word \<Rightarrow> 32 word" where
  "networkToHost32 e w = htobe e w"

definition networkToHost16 :: "endian \<Rightarrow> 16 word \<Rightarrow> 16 word" where
  "networkToHost16 e w = htobe e w"

lemmas network_defs =
  hostToNetwork64_def hostToNetwork32_def hostToNetwork16_def
  networkToHost64_def networkToHost32_def networkToHost16_def

lemma mem_of_bswap:
  "8 dvd LENGTH('a) \<Longrightarrow> mem_of_word LittleEndian (bswap (w :: 'a::len word)) = mem_of_word BigEndian w"
proof -
  assume d: "8 dvd LENGTH('a)"
  have "mem_of_word BigEndian (bswap w) = mem_of_word LittleEndian w"
    unfolding bswap_def using d by (simp add: mem_of_word_of_mem)
  then show ?thesis by (simp add: mem_of_word_def rev_swap)
qed

lemma bswap_bswap: "8 dvd LENGTH('a) \<Longrightarrow> bswap (bswap (w :: 'a::len word)) = w"
  by (metis bswap_def mem_of_bswap word_of_mem_of_word)

lemma mem_of_htobe:
  "8 dvd LENGTH('a) \<Longrightarrow> mem_of_word e (htobe e (w :: 'a::len word)) = mem_of_word BigEndian w"
  by (cases e) (simp_all add: htobe_def mem_of_bswap)

lemma htobe_word_of_mem:
  "8 dvd LENGTH('a) \<Longrightarrow> length bs = LENGTH('a) div 8 \<Longrightarrow>
   htobe e (word_of_mem e bs :: 'a::len word) = word_of_mem BigEndian bs"
  by (cases e) (simp_all add: htobe_def bswap_def mem_of_word_of_mem)

end
