(* ===== verification/Lute_Buffer.thy ===== *)
theory Lute_Buffer
  imports Lute_Endian
begin

text \<open>
  The class \<^verbatim>\<open>Buffer\<close> (\<^verbatim>\<open>polaris/include/polaris/Buffer.h\<close>, \<^verbatim>\<open>polaris/src/Buffer.cc\<close>): a byte vector
  with a reader and a writer index.  A pointer into the buffer is its offset from \<^verbatim>\<open>begin()\<close>.  The
  abstraction \<open>content\<close> is the list of readable bytes; the operations refine a byte queue.  The
  capacity of the vector, which only the allocator sees, is not part of the state.
\<close>

subsection \<open>State and observers\<close>

record buffer =
  vec :: "byte list"
  readerIndex :: size_t
  writerIndex :: size_t

definition kCheapPrepend :: size_t where
  "kCheapPrepend = 8"

definition kInitialSize :: size_t where
  "kInitialSize = 1024"

definition kCRLF :: "byte list" where
  "kCRLF = [CHR 0x0D, CHR 0x0A]"

definition readableBytes :: "buffer \<Rightarrow> size_t" where
  "readableBytes b = sz_sub (writerIndex b) (readerIndex b)"

definition writableBytes :: "buffer \<Rightarrow> size_t" where
  "writableBytes b = sz_sub (length (vec b)) (writerIndex b)"

definition prependableBytes :: "buffer \<Rightarrow> size_t" where
  "prependableBytes b = readerIndex b"

definition Buffer :: "size_t \<Rightarrow> buffer result" where
  "Buffer initialSize =
     bindR (vec_resize (sz_add kCheapPrepend initialSize) []) (\<lambda>v.
       let b = \<lparr>vec = v, readerIndex = kCheapPrepend, writerIndex = kCheapPrepend\<rparr>
       in assertR (readableBytes b = 0)
         (assertR (writableBytes b = initialSize)
           (assertR (prependableBytes b = kCheapPrepend) (Inr b))))"

definition buffer_swap :: "buffer \<Rightarrow> buffer \<Rightarrow> buffer \<times> buffer" where
  "buffer_swap b rhs =
     (\<lparr>vec = vec rhs, readerIndex = readerIndex rhs, writerIndex = writerIndex rhs\<rparr>,
      \<lparr>vec = vec b, readerIndex = readerIndex b, writerIndex = writerIndex b\<rparr>)"

definition peek :: "buffer \<Rightarrow> nat" where
  "peek b = readerIndex b"

definition beginWrite :: "buffer \<Rightarrow> nat" where
  "beginWrite b = writerIndex b"

definition content :: "buffer \<Rightarrow> byte list" where
  "content b = take (writerIndex b - readerIndex b) (drop (readerIndex b) (vec b))"

definition buffer_inv :: "buffer \<Rightarrow> bool" where
  "buffer_inv b \<longleftrightarrow> readerIndex b \<le> writerIndex b \<and> writerIndex b \<le> length (vec b) \<and>
     kCheapPrepend \<le> length (vec b) \<and> length (vec b) \<le> vec_max"

subsection \<open>Searching\<close>

text \<open>\<^verbatim>\<open>memmem\<close> and \<^verbatim>\<open>memchr\<close> of the C library: the offset of the first match.\<close>

fun memmem :: "byte list \<Rightarrow> byte list \<Rightarrow> nat option" where
  "memmem hay needle =
     (if take (length needle) hay = needle then Some 0
      else case hay of [] \<Rightarrow> None | _ # rest \<Rightarrow> map_option Suc (memmem rest needle))"

declare memmem.simps [simp del]

fun memchr :: "byte list \<Rightarrow> byte \<Rightarrow> nat option" where
  "memchr [] c = None"
| "memchr (x # xs) c = (if x = c then Some 0 else map_option Suc (memchr xs c))"

definition findCRLF_from :: "nat \<Rightarrow> buffer \<Rightarrow> nat option result" where
  "findCRLF_from start b =
     assertR (peek b \<le> start) (assertR (start \<le> beginWrite b)
       (bindR (mem_read start (beginWrite b - start) (vec b)) (\<lambda>hay.
         Inr (case memmem hay kCRLF of None \<Rightarrow> None
              | Some i \<Rightarrow> if start + i = beginWrite b then None else Some (start + i)))))"

definition findCRLF :: "buffer \<Rightarrow> nat option result" where
  "findCRLF b =
     bindR (mem_read (peek b) (readableBytes b) (vec b)) (\<lambda>hay.
       Inr (case memmem hay kCRLF of None \<Rightarrow> None
            | Some i \<Rightarrow> if peek b + i = beginWrite b then None else Some (peek b + i)))"

definition findEOL :: "buffer \<Rightarrow> nat option result" where
  "findEOL b =
     bindR (mem_read (peek b) (readableBytes b) (vec b)) (\<lambda>hay.
       Inr (map_option (\<lambda>i. peek b + i) (memchr hay (CHR 0x0A))))"

definition findEOL_from :: "nat \<Rightarrow> buffer \<Rightarrow> nat option result" where
  "findEOL_from start b =
     assertR (peek b \<le> start) (assertR (start \<le> beginWrite b)
       (bindR (mem_read start (beginWrite b - start) (vec b)) (\<lambda>hay.
         Inr (map_option (\<lambda>i. start + i) (memchr hay (CHR 0x0A))))))"

subsection \<open>Consuming\<close>

definition retrieveAll :: "buffer \<Rightarrow> buffer" where
  "retrieveAll b = b\<lparr>readerIndex := kCheapPrepend, writerIndex := kCheapPrepend\<rparr>"

definition retrieve :: "size_t \<Rightarrow> buffer \<Rightarrow> buffer result" where
  "retrieve len b =
     assertR (len \<le> readableBytes b)
       (if len < readableBytes b then Inr (b\<lparr>readerIndex := sz_add (readerIndex b) len\<rparr>)
        else Inr (retrieveAll b))"

definition retrieveUntil :: "nat \<Rightarrow> buffer \<Rightarrow> buffer result" where
  "retrieveUntil end' b =
     assertR (peek b \<le> end') (assertR (end' \<le> beginWrite b) (retrieve (end' - peek b) b))"

definition retrieveAsString :: "size_t \<Rightarrow> buffer \<Rightarrow> (byte list \<times> buffer) result" where
  "retrieveAsString len b =
     assertR (len \<le> readableBytes b)
       (bindR (mem_read (peek b) len (vec b)) (\<lambda>s.
         bindR (retrieve len b) (\<lambda>b'. Inr (s, b'))))"

definition retrieveAllAsString :: "buffer \<Rightarrow> (byte list \<times> buffer) result" where
  "retrieveAllAsString b = retrieveAsString (readableBytes b) b"

definition toStringPiece :: "buffer \<Rightarrow> byte list result" where
  "toStringPiece b = mem_read (peek b) (readableBytes b) (vec b)"

subsection \<open>Producing\<close>

definition makeSpace :: "size_t \<Rightarrow> buffer \<Rightarrow> buffer result" where
  "makeSpace len b =
     (if sz_add (writableBytes b) (prependableBytes b) < sz_add len kCheapPrepend
      then bindR (vec_resize (sz_add (writerIndex b) len) (vec b)) (\<lambda>v. Inr (b\<lparr>vec := v\<rparr>))
      else assertR (kCheapPrepend < readerIndex b)
        (let readable = readableBytes b
         in bindR (mem_read (readerIndex b) readable (vec b)) (\<lambda>bs.
            bindR (mem_write kCheapPrepend bs (vec b)) (\<lambda>v.
              let b' = b\<lparr>vec := v, readerIndex := kCheapPrepend,
                         writerIndex := sz_add kCheapPrepend readable\<rparr>
              in assertR (readable = readableBytes b') (Inr b')))))"

definition ensureWritableBytes :: "size_t \<Rightarrow> buffer \<Rightarrow> buffer result" where
  "ensureWritableBytes len b =
     bindR (if writableBytes b < len then makeSpace len b else Inr b) (\<lambda>b'.
       assertR (len \<le> writableBytes b') (Inr b'))"

definition hasWritten :: "size_t \<Rightarrow> buffer \<Rightarrow> buffer result" where
  "hasWritten len b =
     assertR (len \<le> writableBytes b) (Inr (b\<lparr>writerIndex := sz_add (writerIndex b) len\<rparr>))"

definition unwrite :: "size_t \<Rightarrow> buffer \<Rightarrow> buffer result" where
  "unwrite len b =
     assertR (len \<le> readableBytes b) (Inr (b\<lparr>writerIndex := sz_sub (writerIndex b) len\<rparr>))"

definition append_buf :: "byte list \<Rightarrow> buffer \<Rightarrow> buffer result" where
  "append_buf data b =
     bindR (ensureWritableBytes (length data) b) (\<lambda>b1.
     bindR (mem_write (beginWrite b1) data (vec b1)) (\<lambda>v.
       hasWritten (length data) (b1\<lparr>vec := v\<rparr>)))"

definition prepend :: "byte list \<Rightarrow> buffer \<Rightarrow> buffer result" where
  "prepend data b =
     assertR (length data \<le> prependableBytes b)
       (let b1 = b\<lparr>readerIndex := sz_sub (readerIndex b) (length data)\<rparr>
        in bindR (mem_write (readerIndex b1) data (vec b1)) (\<lambda>v. Inr (b1\<lparr>vec := v\<rparr>)))"

definition shrink :: "size_t \<Rightarrow> buffer \<Rightarrow> buffer result" where
  "shrink reserve b = ensureWritableBytes (sz_add (readableBytes b) reserve) b"

subsection \<open>Reading from a descriptor\<close>

text \<open>
  \<^verbatim>\<open>readv(2)\<close> is a parameter: from the lengths of the two or one buffers to its outcome.  On success it
  fills the buffers in order, so that its outcome is the list of the bytes read.
\<close>

datatype io_result = IoData "byte list" | IoError int

definition extrabuf_size :: size_t where
  "extrabuf_size = 65536"

definition readv_contract :: "(nat list \<Rightarrow> io_result) \<Rightarrow> bool" where
  "readv_contract readv \<longleftrightarrow> (\<forall>lens bs. readv lens = IoData bs \<longrightarrow> length bs \<le> sum_list lens)"

definition iovecs :: "size_t \<Rightarrow> size_t list" where
  "iovecs writeable =
     (if writeable < extrabuf_size then [writeable, extrabuf_size] else [writeable])"

definition readFd :: "(nat list \<Rightarrow> io_result) \<Rightarrow> buffer \<Rightarrow> (buffer \<times> int \<times> int option) result" where
  "readFd readv b =
     (let writeable = writableBytes b
      in case readv (iovecs writeable) of
           IoError savedErrno \<Rightarrow> Inr (b, - 1, Some savedErrno)
         | IoData bs \<Rightarrow>
             bindR (mem_write (writerIndex b) (take writeable bs) (vec b)) (\<lambda>v.
               if length bs \<le> writeable
               then Inr (b\<lparr>vec := v, writerIndex := sz_add (writerIndex b) (length bs)\<rparr>,
                         int (length bs), None)
               else bindR (mem_read 0 (length bs - writeable)
                             (take extrabuf_size (drop writeable bs))) (\<lambda>extra.
                    bindR (append_buf extra (b\<lparr>vec := v, writerIndex := length v\<rparr>)) (\<lambda>b'.
                      Inr (b', int (length bs), None)))))"

section \<open>The buffer refines a byte queue\<close>

named_theorems buffer_simps \<open>the observers of a well-formed buffer, on natural numbers\<close>

lemma readableBytes_eq [buffer_simps]:
  "buffer_inv b \<Longrightarrow> readableBytes b = writerIndex b - readerIndex b"
  by (auto simp: buffer_inv_def readableBytes_def vec_max_def)

lemma writableBytes_eq [buffer_simps]:
  "buffer_inv b \<Longrightarrow> writableBytes b = length (vec b) - writerIndex b"
  by (auto simp: buffer_inv_def writableBytes_def vec_max_def)

lemma length_content [simp]:
  "buffer_inv b \<Longrightarrow> length (content b) = writerIndex b - readerIndex b"
  by (auto simp: buffer_inv_def content_def)

lemma readable_content: "buffer_inv b \<Longrightarrow> readableBytes b = length (content b)"
  by (simp add: buffer_simps)

lemma buffer_inv_bounds:
  assumes "buffer_inv b"
  shows "readerIndex b \<le> writerIndex b" "writerIndex b \<le> length (vec b)"
    "8 \<le> length (vec b)" "length (vec b) < 2 ^ 63"
  using assms by (auto simp: buffer_inv_def kCheapPrepend_def vec_max_def)

lemma index_simps [buffer_simps]:
  "peek b = readerIndex b" "beginWrite b = writerIndex b" "prependableBytes b = readerIndex b"
  by (simp_all add: peek_def beginWrite_def prependableBytes_def)

lemma buffer_invI:
  assumes "readerIndex b \<le> writerIndex b" "writerIndex b \<le> length (vec b)"
    "8 \<le> length (vec b)" "length (vec b) \<le> vec_max"
  shows "buffer_inv b"
  using assms by (simp add: buffer_inv_def kCheapPrepend_def)

lemma mem_read_content:
  assumes "buffer_inv b" "n \<le> readableBytes b"
  shows "mem_read (readerIndex b) n (vec b) = Inr (take n (content b))"
proof -
  have "n \<le> writerIndex b - readerIndex b" using assms by (simp add: buffer_simps)
  moreover have "readerIndex b + n \<le> length (vec b)"
    using calculation buffer_inv_bounds [OF assms(1)] by linarith
  ultimately show ?thesis by (simp add: mem_read_def content_def min_def)
qed

lemma mem_read_all_content:
  "buffer_inv b \<Longrightarrow> mem_read (readerIndex b) (readableBytes b) (vec b) = Inr (content b)"
  by (simp add: mem_read_content) (simp add: buffer_simps)

subsection \<open>Construction\<close>

lemma Buffer_ok:
  assumes "n + 8 \<le> vec_max"
  shows "\<exists>b. Buffer n = Inr b \<and> buffer_inv b \<and> content b = [] \<and> writableBytes b = n \<and>
    writerIndex b = 8"
proof -
  have "sz_add kCheapPrepend n = 8 + n"
    using assms by (simp add: kCheapPrepend_def vec_max_def)
  then show ?thesis
    using assms
    by (simp add: Buffer_def vec_resize_def readableBytes_def writableBytes_def
        prependableBytes_def kCheapPrepend_def buffer_inv_def content_def vec_max_def Let_def)
qed

subsection \<open>Consuming\<close>

lemma retrieveAll_ok [simp]:
  "buffer_inv b \<Longrightarrow> buffer_inv (retrieveAll b)"
  "content (retrieveAll b) = []"
  "vec (retrieveAll b) = vec b"
  by (auto simp: buffer_inv_def retrieveAll_def content_def)

lemma retrieve_ok:
  assumes "buffer_inv b" "len \<le> length (content b)"
  shows "\<exists>b'. retrieve len b = Inr b' \<and> buffer_inv b' \<and> content b' = drop len (content b) \<and>
    vec b' = vec b"
proof -
  note bnd = buffer_inv_bounds [OF assms(1)]
  have len: "len \<le> writerIndex b - readerIndex b" using assms by simp
  show ?thesis
  proof (cases "len < readableBytes b")
    case True
    have "sz_add (readerIndex b) len = readerIndex b + len"
      using len bnd by simp
    with True len bnd assms(1) show ?thesis
      by (auto simp: retrieve_def buffer_simps content_def drop_take buffer_inv_def add.commute)
  next
    case False
    with assms have "len = length (content b)" by (simp add: readable_content)
    with False assms show ?thesis by (simp add: retrieve_def buffer_simps)
  qed
qed

lemma retrieve_too_much:
  "buffer_inv b \<Longrightarrow> length (content b) < len \<Longrightarrow> retrieve len b = Inl AssertFailed"
  by (simp add: retrieve_def readable_content assertR_def)

lemma retrieve_writerIndex:
  "buffer_inv b \<Longrightarrow> retrieve len b = Inr b' \<Longrightarrow> writerIndex b' \<le> max 8 (writerIndex b)"
  by (auto simp: retrieve_def retrieveAll_def kCheapPrepend_def assertR_def split: if_splits)

lemma retrieveUntil_ok:
  assumes "buffer_inv b" "n \<le> length (content b)"
  shows "retrieveUntil (peek b + n) b = retrieve n b"
proof -
  have "readerIndex b + n \<le> writerIndex b"
    using assms buffer_inv_bounds [OF assms(1)] by simp
  then show ?thesis by (simp add: retrieveUntil_def buffer_simps)
qed

lemma retrieveAsString_ok:
  assumes "buffer_inv b" "len \<le> length (content b)"
  shows "\<exists>b'. retrieveAsString len b = Inr (take len (content b), b') \<and> buffer_inv b' \<and>
    content b' = drop len (content b)"
  using retrieve_ok [OF assms] assms
  by (auto simp: retrieveAsString_def readable_content mem_read_content buffer_simps)

lemma retrieveAllAsString_ok:
  assumes "buffer_inv b"
  shows "\<exists>b'. retrieveAllAsString b = Inr (content b, b') \<and> buffer_inv b' \<and> content b' = []"
  using retrieveAsString_ok [OF assms, of "length (content b)"] assms
  by (simp add: retrieveAllAsString_def readable_content)

subsection \<open>Producing\<close>

lemma makeSpace_ok:
  assumes inv: "buffer_inv b" and need: "writableBytes b < len"
    and fits: "writerIndex b + len \<le> vec_max"
  shows "\<exists>b'. makeSpace len b = Inr b' \<and> buffer_inv b' \<and> content b' = content b \<and>
    len \<le> writableBytes b' \<and> writerIndex b' \<le> writerIndex b"
proof -
  note bnd = buffer_inv_bounds [OF inv]
  have len: "len < 2 ^ 63" "writerIndex b + len < 2 ^ 63"
    using fits by (simp_all add: vec_max_def)
  have need': "length (vec b) - writerIndex b < len" using need inv by (simp add: buffer_simps)
  show ?thesis
  proof (cases "sz_add (writableBytes b) (prependableBytes b) < sz_add len kCheapPrepend")
    case True
    let ?v = "vec b @ replicate (writerIndex b + len - length (vec b)) (CHR 0x00)"
    have "makeSpace len b = Inr (b\<lparr>vec := ?v\<rparr>)"
      using True fits need' bnd len by (simp add: makeSpace_def vec_resize_def)
    moreover have inv': "buffer_inv (b\<lparr>vec := ?v\<rparr>)"
      using inv fits need' by (auto simp: buffer_inv_def)
    moreover have "content (b\<lparr>vec := ?v\<rparr>) = content b"
      using bnd by (simp add: content_def)
    moreover have "len \<le> writableBytes (b\<lparr>vec := ?v\<rparr>)"
      using need' bnd writableBytes_eq [OF inv'] by simp
    ultimately show ?thesis by auto
  next
    case False
    have room: "len + 8 \<le> length (vec b) - writerIndex b + readerIndex b"
      using False bnd len inv by (simp add: buffer_simps kCheapPrepend_def)
    let ?n = "writerIndex b - readerIndex b"
    let ?v = "take 8 (vec b) @ content b @ drop (8 + ?n) (vec b)"
    let ?b = "b\<lparr>vec := ?v, readerIndex := 8, writerIndex := 8 + ?n\<rparr>"
    have r8: "8 < readerIndex b" using room need' by linarith
    have lv: "length ?v = length (vec b)" using r8 bnd inv by simp
    have inv': "buffer_inv ?b"
      using r8 bnd lv inv by (intro buffer_invI) (simp_all add: buffer_inv_def)
    have w: "mem_write kCheapPrepend (content b) (vec b) = Inr ?v"
      using r8 bnd inv by (simp add: mem_write_def kCheapPrepend_def)
    have "makeSpace len b = Inr ?b"
      using False r8 bnd inv w readableBytes_eq [OF inv'] readableBytes_eq [OF inv]
      by (simp add: makeSpace_def mem_read_all_content [OF inv, unfolded readableBytes_eq [OF inv]]
          Let_def kCheapPrepend_def)
    moreover have "content ?b = content b"
      using inv bnd by (simp add: content_def)
    moreover have "len \<le> writableBytes ?b"
      using room r8 bnd writableBytes_eq [OF inv'] lv by simp
    moreover have "writerIndex ?b \<le> writerIndex b" using r8 bnd by simp
    ultimately show ?thesis using inv' by auto
  qed
qed

lemma ensureWritableBytes_ok:
  assumes "buffer_inv b" "writerIndex b + len \<le> vec_max"
  shows "\<exists>b'. ensureWritableBytes len b = Inr b' \<and> buffer_inv b' \<and> content b' = content b \<and>
    len \<le> writableBytes b' \<and> writerIndex b' \<le> writerIndex b"
  using makeSpace_ok [OF assms(1) _ assms(2)] assms
  by (cases "writableBytes b < len") (auto simp: ensureWritableBytes_def)

lemma append_buf_ok:
  assumes "buffer_inv b" "writerIndex b + length data \<le> vec_max"
  shows "\<exists>b'. append_buf data b = Inr b' \<and> buffer_inv b' \<and> content b' = content b @ data \<and>
    writerIndex b' \<le> writerIndex b + length data"
proof -
  obtain b1 where b1: "ensureWritableBytes (length data) b = Inr b1" "buffer_inv b1"
      "content b1 = content b" "length data \<le> writableBytes b1" "writerIndex b1 \<le> writerIndex b"
    using ensureWritableBytes_ok [OF assms] by blast
  note bnd = buffer_inv_bounds [OF b1(2)]
  have room: "writerIndex b1 + length data \<le> length (vec b1)"
    using b1(2,4) bnd by (simp add: buffer_simps)
  let ?v = "take (writerIndex b1) (vec b1) @ data @ drop (writerIndex b1 + length data) (vec b1)"
  let ?b = "b1\<lparr>vec := ?v, writerIndex := writerIndex b1 + length data\<rparr>"
  have invv: "buffer_inv (b1\<lparr>vec := ?v\<rparr>)" and inv': "buffer_inv ?b"
    using b1(2) room by (auto simp: buffer_inv_def)
  have "append_buf data b = Inr ?b"
    using b1 room bnd
    by (simp add: append_buf_def hasWritten_def mem_write_def buffer_simps
        writableBytes_eq [OF invv] writableBytes_eq [OF b1(2)])
  moreover have "content ?b = content b @ data"
  proof -
    have "content ?b = take (writerIndex b1 - readerIndex b1 + length data) (drop (readerIndex b1) ?v)"
      using bnd by (simp add: content_def)
    also have "\<dots> = content b1 @ data"
      using bnd by (subst take_drop_append_mid) (simp_all add: content_def)
    finally show ?thesis using b1(3) by simp
  qed
  ultimately show ?thesis using inv' b1(5) by auto
qed

lemma prepend_ok:
  assumes inv: "buffer_inv b" and room: "length data \<le> readerIndex b"
  shows "\<exists>b'. prepend data b = Inr b' \<and> buffer_inv b' \<and> content b' = data @ content b \<and>
    writerIndex b' = writerIndex b"
proof -
  note bnd = buffer_inv_bounds [OF inv]
  let ?r = "readerIndex b - length data"
  let ?v = "take ?r (vec b) @ data @ drop (readerIndex b) (vec b)"
  let ?b = "b\<lparr>readerIndex := ?r, vec := ?v\<rparr>"
  have "prepend data b = Inr ?b"
    using room bnd by (simp add: prepend_def buffer_simps mem_write_def Let_def)
  moreover have "buffer_inv ?b"
    using inv room bnd by (auto simp: buffer_inv_def)
  moreover have "content ?b = data @ content b"
  proof -
    have "writerIndex b - ?r = length data + (writerIndex b - readerIndex b)"
      using room bnd by simp
    then show ?thesis using room bnd by (simp add: content_def)
  qed
  ultimately show ?thesis by auto
qed

lemma prepend_too_much:
  "readerIndex b < length data \<Longrightarrow> prepend data b = Inl AssertFailed"
  by (simp add: prepend_def buffer_simps assertR_def)

lemma take_drop_split:
  assumes "i \<le> j"
  shows "take (j + n - i) (drop i xs) = take (j - i) (drop i xs) @ take n (drop j xs)"
proof -
  have "j + n - i = (j - i) + n" using assms by simp
  then show ?thesis using assms by (simp only: take_add drop_drop) simp
qed

lemma hasWritten_ok:
  assumes "buffer_inv b" "len \<le> writableBytes b"
  shows "\<exists>b'. hasWritten len b = Inr b' \<and> buffer_inv b' \<and>
    content b' = content b @ take len (drop (writerIndex b) (vec b))"
proof -
  note bnd = buffer_inv_bounds [OF assms(1)]
  have len: "writerIndex b + len \<le> length (vec b)" using assms bnd by (simp add: buffer_simps)
  have "take (writerIndex b + len - readerIndex b) (drop (readerIndex b) (vec b)) =
      content b @ take len (drop (writerIndex b) (vec b))"
    using bnd by (simp add: content_def take_drop_split)
  then show ?thesis
    using assms len bnd by (auto simp: hasWritten_def content_def buffer_inv_def)
qed

lemma unwrite_ok:
  assumes "buffer_inv b" "len \<le> length (content b)"
  shows "\<exists>b'. unwrite len b = Inr b' \<and> buffer_inv b' \<and>
    content b' = take (length (content b) - len) (content b)"
proof -
  note bnd = buffer_inv_bounds [OF assms(1)]
  have len: "len \<le> writerIndex b - readerIndex b" using assms by simp
  let ?b = "b\<lparr>writerIndex := writerIndex b - len\<rparr>"
  have eq: "length (content b) - len = writerIndex b - len - readerIndex b"
    using assms by simp
  have "unwrite len b = Inr ?b"
    using assms bnd len by (simp add: unwrite_def readable_content)
  moreover have "buffer_inv ?b"
    using assms(1) len bnd by (auto simp: buffer_inv_def)
  moreover have "content ?b = take (length (content b) - len) (content b)"
    unfolding eq by (simp add: content_def min_def)
  ultimately show ?thesis by blast
qed

subsection \<open>Reading from a descriptor\<close>

lemma content_upd:
  "content (b\<lparr>vec := v, writerIndex := w\<rparr>) = take (w - readerIndex b) (drop (readerIndex b) v)"
  by (simp add: content_def)

text \<open>What arrives fits into the vector, or goes on in the array on the stack and is appended.\<close>

lemma readFd_vec:
  assumes inv: "buffer_inv b" and v: "v = take (writerIndex b) (vec b) @ take (writableBytes b) bs @
      drop (writerIndex b + length (take (writableBytes b) bs)) (vec b)"
  shows "mem_write (writerIndex b) (take (writableBytes b) bs) (vec b) = Inr v" "length v = length (vec b)"
  using inv buffer_inv_bounds [OF inv] by (simp_all add: v mem_write_def buffer_simps)

lemma readFd_within:
  assumes inv: "buffer_inv b" and bs: "readv (iovecs (writableBytes b)) = IoData bs" "length bs \<le> writableBytes b"
  shows "\<exists>b'. readFd readv b = Inr (b', int (length bs), None) \<and> buffer_inv b' \<and> content b' = content b @ bs"
proof -
  let ?w = "writableBytes b"
  let ?v = "take (writerIndex b) (vec b) @ take ?w bs @ drop (writerIndex b + length (take ?w bs)) (vec b)"
  let ?b = "b\<lparr>vec := ?v, writerIndex := writerIndex b + length bs\<rparr>"
  note bnd = buffer_inv_bounds [OF inv] and mw = readFd_vec [OF inv refl, of bs]
  have w: "?w = length (vec b) - writerIndex b" using inv by (simp add: buffer_simps)
  have "readFd readv b = Inr (?b, int (length bs), None)" using bs mw(1) w bnd unfolding readFd_def Let_def by simp
  moreover have "buffer_inv ?b" using bs(2) inv w bnd by (auto simp: buffer_inv_def)
  moreover have "writerIndex b + length bs - readerIndex b = writerIndex b - readerIndex b + length bs" using bnd by simp
  then have "content ?b = content b @ bs" using bs(2) bnd by (simp add: content_def take_drop_append_mid drop_take)
  ultimately show ?thesis by blast
qed

lemma readFd_beyond:
  assumes inv: "buffer_inv b" and fits: "length (vec b) + extrabuf_size \<le> vec_max"
    and bs: "readv (iovecs (writableBytes b)) = IoData bs" "\<not> length bs \<le> writableBytes b" "length bs \<le> writableBytes b + extrabuf_size"
  shows "\<exists>b'. readFd readv b = Inr (b', int (length bs), None) \<and> buffer_inv b' \<and> content b' = content b @ bs"
proof -
  let ?w = "writableBytes b"
  let ?v = "take (writerIndex b) (vec b) @ take ?w bs @ drop (writerIndex b + length (take ?w bs)) (vec b)"
  let ?b1 = "b\<lparr>vec := ?v, writerIndex := length ?v\<rparr>" and ?x = "drop ?w bs"
  note bnd = buffer_inv_bounds [OF inv] and mw = readFd_vec [OF inv refl, of bs]
  have w: "?w = length (vec b) - writerIndex b" using inv by (simp add: buffer_simps)
  have inv1: "buffer_inv ?b1" using inv mw(2) bnd by (simp add: buffer_inv_def)
  have eq: "length ?v - readerIndex b = writerIndex b - readerIndex b + length (take ?w bs)" using bs(2) w bnd by simp
  have c1: "content ?b1 = content b @ take ?w bs"
    unfolding content_upd eq using bnd by (subst take_drop_append_mid) (simp_all add: content_def)
  have x: "length ?x \<le> extrabuf_size" using bs(3) by simp
  have fx: "writerIndex ?b1 + length ?x \<le> vec_max" using fits x mw(2) by simp
  obtain b' where b': "append_buf ?x ?b1 = Inr b'" "buffer_inv b'" "content b' = content ?b1 @ ?x"
    using append_buf_ok [OF inv1 fx] by blast
  have "readFd readv b = Inr (b', int (length bs), None)"
    using bs mw(1) b'(1) x by (simp add: readFd_def Let_def mem_read_def)
  then show ?thesis using b' c1 by simp
qed

lemma readFd_ok:
  assumes inv: "buffer_inv b" and readv: "readv_contract readv"
    and fits: "length (vec b) + extrabuf_size \<le> vec_max"
  shows "\<exists>b' n en. readFd readv b = Inr (b', n, en) \<and> buffer_inv b' \<and>
    (case readv (iovecs (writableBytes b)) of
       IoData bs \<Rightarrow> content b' = content b @ bs \<and> n = int (length bs) \<and> en = None
     | IoError e \<Rightarrow> b' = b \<and> n = - 1 \<and> en = Some e)"
proof (cases "readv (iovecs (writableBytes b))")
  case (IoError en)
  then show ?thesis using inv by (simp add: readFd_def Let_def)
next
  case (IoData bs)
  have "length bs \<le> writableBytes b + extrabuf_size"
    using readv IoData unfolding readv_contract_def by (fastforce simp: iovecs_def split: if_splits)
  then show ?thesis using readFd_within [OF inv, of readv bs] readFd_beyond [OF inv fits, of readv bs] IoData by fastforce
qed

subsection \<open>Searching\<close>

lemma memmem_Cons:
  "memmem (x # xs) p = (if take (length p) (x # xs) = p then Some 0 else map_option Suc (memmem xs p))"
  by (subst memmem.simps) simp

lemma memmem_Nil: "p \<noteq> [] \<Longrightarrow> memmem [] p = None"
  by (subst memmem.simps) auto

lemma memmem_Some_iff:
  assumes "p \<noteq> []"
  shows "memmem h p = Some i \<longleftrightarrow>
    take (length p) (drop i h) = p \<and> (\<forall>j < i. take (length p) (drop j h) \<noteq> p)"
proof (induction h arbitrary: i)
  case Nil
  then show ?case using assms by (auto simp: memmem_Nil)
next
  case (Cons x xs)
  show ?case
  proof (cases i)
    case 0
    then show ?thesis by (auto simp: memmem_Cons)
  next
    case (Suc k)
    then show ?thesis
      using Cons [of k] by (auto simp: memmem_Cons less_Suc_eq_0_disj simp del: take_append)
  qed
qed

lemma memmem_None_iff:
  assumes "p \<noteq> []"
  shows "memmem h p = None \<longleftrightarrow> (\<forall>j. take (length p) (drop j h) \<noteq> p)"
proof -
  have "memmem h p \<noteq> None \<longleftrightarrow> (\<exists>j. take (length p) (drop j h) = p)"
  proof
    assume "\<exists>j. take (length p) (drop j h) = p"
    then have "memmem h p = Some (LEAST j. take (length p) (drop j h) = p)"
      unfolding memmem_Some_iff [OF assms] by (metis (mono_tags, lifting) LeastI not_less_Least)
    then show "memmem h p \<noteq> None" by simp
  qed (auto simp: memmem_Some_iff [OF assms])
  then show ?thesis by blast
qed

lemma memmem_bound: "p \<noteq> [] \<Longrightarrow> memmem h p = Some i \<Longrightarrow> i + length p \<le> length h"
proof -
  assume "p \<noteq> []" "memmem h p = Some i"
  then have "take (length p) (drop i h) = p" by (simp add: memmem_Some_iff)
  then have "length (take (length p) (drop i h)) = length p" by simp
  with \<open>p \<noteq> []\<close> show ?thesis by (cases "i \<le> length h") auto
qed

lemma memmem_append:
  assumes "p \<noteq> []" "memmem h p = Some i"
  shows "memmem (h @ t) p = Some i"
proof -
  have i: "i + length p \<le> length h" using memmem_bound assms by blast
  have "take (length p) (drop j (h @ t)) = take (length p) (drop j h)" if "j \<le> i" for j
    using i that by simp
  then show ?thesis using assms unfolding memmem_Some_iff [OF assms(1)] by (metis less_imp_le order_refl)
qed

lemma memchr_Some_iff:
  "memchr xs c = Some i \<longleftrightarrow> i < length xs \<and> xs ! i = c \<and> (\<forall>j < i. xs ! j \<noteq> c)"
proof (induction xs arbitrary: i)
  case (Cons x xs)
  then show ?case by (cases i) (auto simp: less_Suc_eq_0_disj)
qed simp

lemma memchr_None_iff: "memchr xs c = None \<longleftrightarrow> c \<notin> set xs"
  by (induction xs) auto

lemma memmem_kCRLF_bound: "memmem s kCRLF = Some i \<Longrightarrow> i + 2 \<le> length s"
  using memmem_bound [of kCRLF s i] by (simp add: kCRLF_def)

lemma kCRLF_not_Nil [simp]: "kCRLF \<noteq> []"
  by (simp add: kCRLF_def)

lemma memmem_line: "CHR 0x0D \<notin> set line \<Longrightarrow> memmem (line @ kCRLF @ rest) kCRLF = Some (length line)"
proof (induction line)
  case Nil
  then show ?case by (simp add: memmem.simps kCRLF_def)
next
  case (Cons x xs)
  then have x: "x \<noteq> CHR 0x0D" and IH: "memmem (xs @ kCRLF @ rest) kCRLF = Some (length xs)" by auto
  from x have t: "take (length kCRLF) (x # xs @ kCRLF @ rest) \<noteq> kCRLF" by (simp add: kCRLF_def)
  have "memmem (x # xs @ kCRLF @ rest) kCRLF = map_option Suc (memmem (xs @ kCRLF @ rest) kCRLF)"
    using t by (simp add: memmem_Cons del: take_Suc_Cons)
  with IH show ?case by simp
qed

lemma take_line: "take (length line) (line @ rest) = line"
  by simp

lemma drop_line: "drop (length line + 2) (line @ kCRLF @ rest) = rest"
  by (simp add: kCRLF_def)

lemma findCRLF_ok:
  assumes "buffer_inv b"
  shows "findCRLF b = Inr (map_option (\<lambda>i. peek b + i) (memmem (content b) kCRLF))"
proof -
  have "peek b + i \<noteq> beginWrite b" if "memmem (content b) kCRLF = Some i" for i
    using memmem_bound [OF _ that] assms buffer_inv_bounds [OF assms]
    by (simp add: kCRLF_def buffer_simps)
  then show ?thesis
    using assms by (auto simp: findCRLF_def mem_read_all_content index_simps split: option.split)
qed

lemma findEOL_ok:
  assumes "buffer_inv b"
  shows "findEOL b = Inr (map_option (\<lambda>i. peek b + i) (memchr (content b) (CHR 0x0A)))"
  using assms by (simp add: findEOL_def mem_read_all_content index_simps)

lemma mem_read_from:
  assumes "buffer_inv b" "k \<le> length (content b)"
  shows "mem_read (readerIndex b + k) (writerIndex b - (readerIndex b + k)) (vec b) =
    Inr (drop k (content b))"
  using assms buffer_inv_bounds [OF assms(1)]
  by (simp add: mem_read_def content_def drop_take add.commute)

lemma find_from_range:
  assumes "buffer_inv b" "k \<le> length (content b)"
  shows "readerIndex b + k \<le> writerIndex b"
  using assms buffer_inv_bounds [OF assms(1)] by simp

lemma findCRLF_from_ok:
  assumes "buffer_inv b" "k \<le> length (content b)"
  shows "findCRLF_from (peek b + k) b =
    Inr (map_option (\<lambda>i. peek b + k + i) (memmem (drop k (content b)) kCRLF))"
proof -
  have "readerIndex b + k + i \<noteq> writerIndex b" if "memmem (drop k (content b)) kCRLF = Some i" for i
    using memmem_bound [OF _ that] assms by (auto simp: kCRLF_def)
  then show ?thesis
    using assms find_from_range [OF assms]
    by (auto simp: findCRLF_from_def mem_read_from index_simps split: option.split)
qed

lemma findEOL_from_ok:
  assumes "buffer_inv b" "k \<le> length (content b)"
  shows "findEOL_from (peek b + k) b =
    Inr (map_option (\<lambda>i. peek b + k + i) (memchr (drop k (content b)) (CHR 0x0A)))"
  using assms find_from_range [OF assms]
  by (simp add: findEOL_from_def mem_read_from index_simps)

subsection \<open>The queue interface\<close>

text \<open>
  The commands of a client that only appends and retrieves, over any implementation of the two
  operations, and the byte list as the specification: an append adds at the end, a retrieve takes
  from the front, and taking more than there is fails.
\<close>

datatype queue_op = Put "byte list" | Get nat

fun queue_exec ::
  "(byte list \<Rightarrow> 'b \<Rightarrow> 'b result) \<Rightarrow> (nat \<Rightarrow> 'b \<Rightarrow> 'b result) \<Rightarrow> queue_op \<Rightarrow> 'b \<Rightarrow> 'b result" where
  "queue_exec app ret (Put bs) q = app bs q"
| "queue_exec app ret (Get n) q = ret n q"

fun put_size :: "queue_op \<Rightarrow> nat" where
  "put_size (Put bs) = length bs"
| "put_size (Get n) = 0"

definition list_put :: "byte list \<Rightarrow> byte list \<Rightarrow> byte list result" where
  "list_put bs q = Inr (q @ bs)"

definition list_get :: "nat \<Rightarrow> byte list \<Rightarrow> byte list result" where
  "list_get n q = (if n \<le> length q then Inr (drop n q) else Inl AssertFailed)"

locale byte_queue =
  fixes app :: "byte list \<Rightarrow> 'b \<Rightarrow> 'b result"
    and ret :: "nat \<Rightarrow> 'b \<Rightarrow> 'b result"
    and abs :: "'b \<Rightarrow> byte list"
    and inv :: "'b \<Rightarrow> bool"
    and used :: "'b \<Rightarrow> nat"
    and cap :: nat
  assumes app_spec: "inv b \<Longrightarrow> used b + length bs \<le> cap \<Longrightarrow>
      \<exists>b'. app bs b = Inr b' \<and> inv b' \<and> abs b' = abs b @ bs \<and> used b' \<le> used b + length bs"
    and ret_spec: "inv b \<Longrightarrow> n \<le> length (abs b) \<Longrightarrow>
      \<exists>b'. ret n b = Inr b' \<and> inv b' \<and> abs b' = drop n (abs b) \<and> used b' \<le> used b"
    and ret_error: "inv b \<Longrightarrow> length (abs b) < n \<Longrightarrow> ret n b = Inl AssertFailed"
begin

lemma exec_refines:
  assumes "inv b" "used b + put_size op \<le> cap"
  shows "(\<exists>b'. queue_exec app ret op b = Inr b' \<and> inv b' \<and> used b' \<le> used b + put_size op \<and>
      queue_exec list_put list_get op (abs b) = Inr (abs b')) \<or>
    queue_exec app ret op b = Inl AssertFailed \<and>
      queue_exec list_put list_get op (abs b) = Inl AssertFailed"
proof (cases op)
  case (Put bs)
  then show ?thesis using app_spec [of b bs] assms by (auto simp: list_put_def)
next
  case (Get n)
  then show ?thesis
    using ret_spec [of b n] ret_error [of b n] assms by (cases "n \<le> length (abs b)") (auto simp: list_get_def)
qed

lemma run_refines:
  assumes "inv b" "used b + sum_list (map put_size ops) \<le> cap"
  shows "map_sum id abs (foldR (queue_exec app ret) ops b) =
    foldR (queue_exec list_put list_get) ops (abs b)"
  using assms
proof (induction ops arbitrary: b)
  case (Cons op ops)
  have "used b + put_size op \<le> cap" using Cons.prems by simp
  from exec_refines [OF Cons.prems(1) this] show ?case
  proof (elim disjE exE conjE)
    fix b' assume *: "queue_exec app ret op b = Inr b'" "inv b'" "used b' \<le> used b + put_size op"
      "queue_exec list_put list_get op (abs b) = Inr (abs b')"
    then have "used b' + sum_list (map put_size ops) \<le> cap" using Cons.prems by simp
    with * Cons.IH [of b'] show ?thesis by simp
  qed simp
qed simp

lemma app_all:
  assumes "inv b" "used b + length (concat bss) \<le> cap"
  shows "\<exists>b'. foldR app bss b = Inr b' \<and> inv b' \<and> abs b' = abs b @ concat bss \<and>
    used b' \<le> used b + length (concat bss)"
  using assms
proof (induction bss arbitrary: b)
  case (Cons bs bss)
  then obtain b1 where b1: "app bs b = Inr b1" "inv b1" "abs b1 = abs b @ bs"
      "used b1 \<le> used b + length bs"
    using app_spec [of b bs] by auto
  with Cons.prems have "used b1 + length (concat bss) \<le> cap" by simp
  with Cons.IH [OF b1(2)] obtain b2 where "foldR app bss b1 = Inr b2" "inv b2"
      "abs b2 = abs b1 @ concat bss" "used b2 \<le> used b1 + length (concat bss)"
    by blast
  with b1 show ?case by simp
qed simp

end

text \<open>The buffer implements the interface; what it has used is its writer index.\<close>

definition used_bytes :: "buffer \<Rightarrow> nat" where
  "used_bytes b = max kCheapPrepend (writerIndex b)"

interpretation buffer_queue: byte_queue append_buf retrieve content buffer_inv used_bytes vec_max
proof
  fix b :: buffer and bs :: "byte list" assume a: "buffer_inv b" "used_bytes b + length bs \<le> vec_max"
  then have "writerIndex b + length bs \<le> vec_max" by (simp add: used_bytes_def)
  with append_buf_ok [OF a(1) this] show "\<exists>b'. append_buf bs b = Inr b' \<and> buffer_inv b' \<and>
      content b' = content b @ bs \<and> used_bytes b' \<le> used_bytes b + length bs"
    by (auto simp: used_bytes_def)
next
  fix b n assume "buffer_inv b" "n \<le> length (content b)"
  with retrieve_ok [OF this] retrieve_writerIndex [of b n] show "\<exists>b'. retrieve n b = Inr b' \<and>
      buffer_inv b' \<and> content b' = drop n (content b) \<and> used_bytes b' \<le> used_bytes b"
    by (auto simp: used_bytes_def kCheapPrepend_def)
qed (rule retrieve_too_much)

subsection \<open>Requests near \<open>2 ^ 64\<close>\<close>

lemma sz_add_wrap: "2 ^ 64 \<le> a + b \<Longrightarrow> a + b < 2 * 2 ^ 64 \<Longrightarrow> sz_add a b = a + b - 2 ^ 64"
  by (simp add: sz_add_def mod_if)

lemma makeSpace_overflow:
  assumes inv: "buffer_inv b" and big: "2 ^ 64 \<le> writerIndex b + len" and len: "len + 8 < 2 ^ 64"
  shows "makeSpace len b = Inr (b\<lparr>vec := take (writerIndex b + len - 2 ^ 64) (vec b)\<rparr>)"
proof -
  note bnd = buffer_inv_bounds [OF inv]
  have "writableBytes b + prependableBytes b < len + 8"
    using bnd big inv by (simp add: buffer_simps)
  moreover have "sz_add (writableBytes b) (prependableBytes b) = writableBytes b + prependableBytes b"
    using bnd inv by (simp add: buffer_simps)
  moreover have "sz_add len kCheapPrepend = len + 8" using len by (simp add: kCheapPrepend_def)
  moreover have "sz_add (writerIndex b) len = writerIndex b + len - 2 ^ 64"
    using bnd big len by (intro sz_add_wrap) auto
  moreover have "writerIndex b + len - 2 ^ 64 < writerIndex b" using len big by simp
  ultimately show ?thesis
    using bnd by (simp add: makeSpace_def vec_resize_def vec_max_def)
qed

section \<open>Properties\<close>

text \<open>C14. The buffer refines a byte queue: any sequence of appends and retrieves whose appended bytes
  fit into a vector leaves as readable bytes exactly what the same sequence leaves of a list, and it
  fails exactly where the list does, on a retrieve of more than there is.\<close>

theorem buffer_refines_queue:
  assumes "buffer_inv b" "used_bytes b + sum_list (map put_size ops) \<le> vec_max"
  shows "map_sum id content (foldR (queue_exec append_buf retrieve) ops b) =
    foldR (queue_exec list_put list_get) ops (content b)"
  using assms by (rule buffer_queue.run_refines)

theorem buffer_refines_queue_witness:
  "map_sum id content (foldR (queue_exec append_buf retrieve)
      [Put ''hello '', Get 4, Put ''world'', Get 2, Put ''!'']
      \<lparr>vec = replicate 12 (CHR 0x00), readerIndex = 8, writerIndex = 8\<rparr>) = Inr ''world!''"
  by (subst buffer_refines_queue)
    (simp_all add: buffer_inv_def content_def kCheapPrepend_def vec_max_def used_bytes_def
      list_put_def list_get_def)

text \<open>Reading from a descriptor appends exactly the bytes that \<^verbatim>\<open>readv\<close> delivered to the readable
  bytes, whether or not they spill into the stack buffer, at most 128k - 1 of them when the stack
  buffer is used; a failed read reports the error and changes nothing.\<close>

theorem readFd_appends:
  assumes "buffer_inv b" "readv_contract readv" "length (vec b) + extrabuf_size \<le> vec_max"
  shows "\<exists>b' n en. readFd readv b = Inr (b', n, en) \<and> buffer_inv b' \<and>
    (case readv (iovecs (writableBytes b)) of
       IoData bs \<Rightarrow> content b' = content b @ bs \<and> n = int (length bs) \<and> en = None \<and>
         (writableBytes b < extrabuf_size \<longrightarrow> n < 128 * 1024)
     | IoError e \<Rightarrow> b' = b \<and> n = - 1 \<and> en = Some e)"
proof -
  have "length bs < 128 * 1024"
    if "readv (iovecs (writableBytes b)) = IoData bs" "writableBytes b < extrabuf_size" for bs
  proof -
    have "length bs \<le> sum_list (iovecs (writableBytes b))"
      using assms(2) that(1) by (simp add: readv_contract_def)
    with that(2) show ?thesis by (simp add: iovecs_def extrabuf_size_def)
  qed
  then show ?thesis using readFd_ok [OF assms] by (fastforce split: io_result.splits)
qed

theorem readFd_appends_witness:
  "\<exists>b' n en. readFd (\<lambda>lens. IoData (take (sum_list lens) ''hello''))
      \<lparr>vec = replicate 8 (CHR 0x00) @ ''abc'', readerIndex = 8, writerIndex = 9\<rparr> = Inr (b', n, en) \<and>
    content b' = ''ahello'' \<and> n = 5 \<and> en = None"
proof -
  let ?b = "\<lparr>vec = replicate 8 (CHR 0x00) @ ''abc'', readerIndex = 8, writerIndex = 9\<rparr> :: buffer"
  let ?rv = "\<lambda>lens. IoData (take (sum_list lens) ''hello'')"
  have inv: "buffer_inv ?b" by (simp add: buffer_inv_def kCheapPrepend_def vec_max_def)
  have w: "writableBytes ?b = 2" by (simp add: writableBytes_def)
  have "readv_contract ?rv" by (auto simp: readv_contract_def)
  moreover have "length (vec ?b) + extrabuf_size \<le> vec_max"
    by (simp add: extrabuf_size_def vec_max_def)
  ultimately show ?thesis
    using readFd_appends [OF inv, of ?rv] by (auto simp: w iovecs_def extrabuf_size_def content_def)
qed

text \<open>Making room never loses or moves a readable byte: on a well-formed buffer a request that a
  vector can hold succeeds, both by growing and by moving the bytes to the front (no assert fails),
  leaves the content as it was and at least the requested room behind it.\<close>

theorem ensureWritableBytes_room:
  assumes "buffer_inv b" "writerIndex b + len \<le> vec_max"
  shows "\<exists>b'. ensureWritableBytes len b = Inr b' \<and> buffer_inv b' \<and> content b' = content b \<and>
    len \<le> writableBytes b'"
  using ensureWritableBytes_ok [OF assms] by blast

theorem ensureWritableBytes_room_witness:
  "\<exists>b'. ensureWritableBytes 5 \<lparr>vec = replicate 14 (CHR 0x00) @ ''xyz'', readerIndex = 14, writerIndex = 17\<rparr> = Inr b' \<and>
    content b' = ''xyz''"
  using ensureWritableBytes_room [of "\<lparr>vec = replicate 14 (CHR 0x00) @ ''xyz'', readerIndex = 14, writerIndex = 17\<rparr>" 5]
  by (auto simp: buffer_inv_def kCheapPrepend_def vec_max_def content_def)

text \<open>The sum of the writer index and the requested length is not checked for wrap-around: a request
  just below \<open>2 ^ 64\<close> passes every assert and reports success, but it shrinks the vector below the
  writer index, so that the next write is out of bounds.\<close>

theorem ensureWritableBytes_wraps:
  assumes "buffer_inv b" "2 ^ 64 \<le> writerIndex b + len" "len + kCheapPrepend < 2 ^ 64"
  shows "\<exists>b'. ensureWritableBytes len b = Inr b' \<and> length (vec b') < writerIndex b' \<and>
    \<not> buffer_inv b' \<and> mem_write (beginWrite b') [c] (vec b') = Inl OutOfBounds"
proof -
  note bnd = buffer_inv_bounds [OF assms(1)]
  let ?n = "writerIndex b + len - 2 ^ 64"
  let ?b = "b\<lparr>vec := take ?n (vec b)\<rparr>"
  have len: "len + 8 < 2 ^ 64" using assms(3) by (simp add: kCheapPrepend_def)
  have n: "?n < writerIndex b" using len assms(2) by simp
  have l: "length (vec ?b) = ?n" using n bnd by simp
  have "writableBytes b < len" using assms bnd by (simp add: writableBytes_eq)
  moreover have "writableBytes ?b = len"
  proof -
    have "2 ^ 64 + ?n - writerIndex b = len" using assms(2) len by simp
    then show ?thesis using l len by (simp add: writableBytes_def sz_sub_def)
  qed
  ultimately have "ensureWritableBytes len b = Inr ?b"
    using makeSpace_overflow [OF assms(1,2) len] by (simp add: ensureWritableBytes_def)
  moreover have "length (vec ?b) < writerIndex ?b" using n l by simp
  ultimately show ?thesis
    using n l by (auto simp: buffer_inv_def mem_write_def index_simps)
qed

theorem ensureWritableBytes_wraps_witness:
  "\<exists>b'. ensureWritableBytes (2 ^ 64 - 10) \<lparr>vec = replicate 32 (CHR 0x00), readerIndex = 8, writerIndex = 20\<rparr> = Inr b' \<and>
    length (vec b') < writerIndex b'"
  using ensureWritableBytes_wraps [of "\<lparr>vec = replicate 32 (CHR 0x00), readerIndex = 8, writerIndex = 20\<rparr>" "2 ^ 64 - 10"]
  by (auto simp: buffer_inv_def kCheapPrepend_def vec_max_def)

text \<open>A search for the end of a line returns the first \<^verbatim>\<open>\r\n\<close> of the readable bytes, which lies
  entirely between the reader and the writer index, and nothing exactly if there is none.\<close>

theorem findCRLF_first:
  assumes "buffer_inv b"
  shows "\<exists>r. findCRLF b = Inr r \<and>
    (case r of
       None \<Rightarrow> \<forall>i. take 2 (drop i (content b)) \<noteq> kCRLF
     | Some p \<Rightarrow> peek b \<le> p \<and> p + 2 \<le> beginWrite b \<and>
         take 2 (drop (p - peek b) (content b)) = kCRLF \<and>
         (\<forall>i < p - peek b. take 2 (drop i (content b)) \<noteq> kCRLF))"
proof (cases "memmem (content b) kCRLF")
  case None
  moreover have "kCRLF \<noteq> []" "length kCRLF = 2" by (simp_all add: kCRLF_def)
  ultimately show ?thesis using assms memmem_None_iff [of kCRLF "content b"] by (simp add: findCRLF_ok)
next
  case (Some i)
  have k: "kCRLF \<noteq> []" "length kCRLF = 2" by (simp_all add: kCRLF_def)
  have "i + 2 \<le> writerIndex b - readerIndex b"
    using memmem_bound [OF k(1) Some] k(2) assms by simp
  then show ?thesis
    using Some assms k memmem_Some_iff [of kCRLF "content b" i] by (simp add: findCRLF_ok index_simps)
qed

theorem findCRLF_first_witness:
  "\<exists>r. findCRLF \<lparr>vec = replicate 8 (CHR 0x00) @ ''ab'' @ kCRLF @ ''c'', readerIndex = 8, writerIndex = 13\<rparr> = Inr r \<and>
    r = Some 10"
proof -
  let ?b = "\<lparr>vec = replicate 8 (CHR 0x00) @ ''ab'' @ kCRLF @ ''c'', readerIndex = 8, writerIndex = 13\<rparr> :: buffer"
  have inv: "buffer_inv ?b" by (simp add: buffer_inv_def kCheapPrepend_def vec_max_def kCRLF_def)
  have "findCRLF ?b = Inr (Some 10)"
    by (simp add: findCRLF_def mem_read_def peek_def beginWrite_def readableBytes_def kCRLF_def memmem.simps)
  then show ?thesis using findCRLF_first [OF inv] by auto
qed

end
