(* ===== verification/Lute_Wire.thy ===== *)
theory Lute_Wire
  imports Lute_Buffer
begin

text \<open>
  The integer operations of \<^verbatim>\<open>Buffer.h\<close> (\<^verbatim>\<open>peek\<close>, \<^verbatim>\<open>read\<close>, \<^verbatim>\<open>append\<close> and \<^verbatim>\<open>prepend\<close> of the eight
  integer types, all in network byte order), and the codec interface through which their round
  trips are proved once.
\<close>

subsection \<open>Integers in network byte order\<close>

definition peek_mem :: "nat \<Rightarrow> buffer \<Rightarrow> byte list result" where
  "peek_mem n b = assertR (n \<le> readableBytes b) (mem_read (peek b) n (vec b))"

definition peekUint64 :: "endian \<Rightarrow> buffer \<Rightarrow> 64 word result" where
  "peekUint64 e b = bindR (peek_mem 8 b) (\<lambda>m. Inr (networkToHost64 e (word_of_mem e m)))"

definition peekUint32 :: "endian \<Rightarrow> buffer \<Rightarrow> 32 word result" where
  "peekUint32 e b = bindR (peek_mem 4 b) (\<lambda>m. Inr (networkToHost32 e (word_of_mem e m)))"

definition peekUint16 :: "endian \<Rightarrow> buffer \<Rightarrow> 16 word result" where
  "peekUint16 e b = bindR (peek_mem 2 b) (\<lambda>m. Inr (networkToHost16 e (word_of_mem e m)))"

definition peekUint8 :: "endian \<Rightarrow> buffer \<Rightarrow> 8 word result" where
  "peekUint8 e b = bindR (peek_mem 1 b) (\<lambda>m. Inr (word_of_mem e m))"

definition peekInt64 :: "endian \<Rightarrow> buffer \<Rightarrow> int result" where
  "peekInt64 e b =
     bindR (peek_mem 8 b) (\<lambda>m. Inr (sint (networkToHost64 e (word_of_mem e m))))"

definition peekInt32 :: "endian \<Rightarrow> buffer \<Rightarrow> int result" where
  "peekInt32 e b =
     bindR (peek_mem 4 b) (\<lambda>m. Inr (sint (networkToHost32 e (word_of_mem e m))))"

definition peekInt16 :: "endian \<Rightarrow> buffer \<Rightarrow> int result" where
  "peekInt16 e b =
     bindR (peek_mem 2 b) (\<lambda>m. Inr (sint (networkToHost16 e (word_of_mem e m))))"

definition peekInt8 :: "endian \<Rightarrow> buffer \<Rightarrow> int result" where
  "peekInt8 e b = bindR (peek_mem 1 b) (\<lambda>m. Inr (sint (word_of_mem e m :: 8 word)))"

definition appendUint64 :: "endian \<Rightarrow> 64 word \<Rightarrow> buffer \<Rightarrow> buffer result" where
  "appendUint64 e x b = append_buf (mem_of_word e (hostToNetwork64 e x)) b"

definition appendUint32 :: "endian \<Rightarrow> 32 word \<Rightarrow> buffer \<Rightarrow> buffer result" where
  "appendUint32 e x b = append_buf (mem_of_word e (hostToNetwork32 e x)) b"

definition appendUint16 :: "endian \<Rightarrow> 16 word \<Rightarrow> buffer \<Rightarrow> buffer result" where
  "appendUint16 e x b = append_buf (mem_of_word e (hostToNetwork16 e x)) b"

definition appendUint8 :: "endian \<Rightarrow> 8 word \<Rightarrow> buffer \<Rightarrow> buffer result" where
  "appendUint8 e x b = append_buf (mem_of_word e x) b"

definition appendInt64 :: "endian \<Rightarrow> int \<Rightarrow> buffer \<Rightarrow> buffer result" where
  "appendInt64 e x b = append_buf (mem_of_word e (hostToNetwork64 e (word_of_int x))) b"

definition appendInt32 :: "endian \<Rightarrow> int \<Rightarrow> buffer \<Rightarrow> buffer result" where
  "appendInt32 e x b = append_buf (mem_of_word e (hostToNetwork32 e (word_of_int x))) b"

definition appendInt16 :: "endian \<Rightarrow> int \<Rightarrow> buffer \<Rightarrow> buffer result" where
  "appendInt16 e x b = append_buf (mem_of_word e (hostToNetwork16 e (word_of_int x))) b"

definition appendInt8 :: "endian \<Rightarrow> int \<Rightarrow> buffer \<Rightarrow> buffer result" where
  "appendInt8 e x b = append_buf (mem_of_word e (word_of_int x :: 8 word)) b"

definition prependUint64 :: "endian \<Rightarrow> 64 word \<Rightarrow> buffer \<Rightarrow> buffer result" where
  "prependUint64 e x b = prepend (mem_of_word e (hostToNetwork64 e x)) b"

definition prependUint32 :: "endian \<Rightarrow> 32 word \<Rightarrow> buffer \<Rightarrow> buffer result" where
  "prependUint32 e x b = prepend (mem_of_word e (hostToNetwork32 e x)) b"

definition prependUint16 :: "endian \<Rightarrow> 16 word \<Rightarrow> buffer \<Rightarrow> buffer result" where
  "prependUint16 e x b = prepend (mem_of_word e (hostToNetwork16 e x)) b"

definition prependUint8 :: "endian \<Rightarrow> 8 word \<Rightarrow> buffer \<Rightarrow> buffer result" where
  "prependUint8 e x b = prepend (mem_of_word e x) b"

definition prependInt64 :: "endian \<Rightarrow> int \<Rightarrow> buffer \<Rightarrow> buffer result" where
  "prependInt64 e x b = prepend (mem_of_word e (hostToNetwork64 e (word_of_int x))) b"

definition prependInt32 :: "endian \<Rightarrow> int \<Rightarrow> buffer \<Rightarrow> buffer result" where
  "prependInt32 e x b = prepend (mem_of_word e (hostToNetwork32 e (word_of_int x))) b"

definition prependInt16 :: "endian \<Rightarrow> int \<Rightarrow> buffer \<Rightarrow> buffer result" where
  "prependInt16 e x b = prepend (mem_of_word e (hostToNetwork16 e (word_of_int x))) b"

definition prependInt8 :: "endian \<Rightarrow> int \<Rightarrow> buffer \<Rightarrow> buffer result" where
  "prependInt8 e x b = prepend (mem_of_word e (word_of_int x :: 8 word)) b"

definition retrieveInt64 :: "buffer \<Rightarrow> buffer result" where
  "retrieveInt64 b = retrieve 8 b"

definition retrieveUint64 :: "buffer \<Rightarrow> buffer result" where
  "retrieveUint64 b = retrieve 8 b"

definition retrieveInt32 :: "buffer \<Rightarrow> buffer result" where
  "retrieveInt32 b = retrieve 4 b"

definition retrieveUint32 :: "buffer \<Rightarrow> buffer result" where
  "retrieveUint32 b = retrieve 4 b"

definition retrieveInt16 :: "buffer \<Rightarrow> buffer result" where
  "retrieveInt16 b = retrieve 2 b"

definition retrieveUint16 :: "buffer \<Rightarrow> buffer result" where
  "retrieveUint16 b = retrieve 2 b"

definition retrieveInt8 :: "buffer \<Rightarrow> buffer result" where
  "retrieveInt8 b = retrieve 1 b"

definition retrieveUint8 :: "buffer \<Rightarrow> buffer result" where
  "retrieveUint8 b = retrieve 1 b"

definition read_then ::
  "(buffer \<Rightarrow> 'v result) \<Rightarrow> (buffer \<Rightarrow> buffer result) \<Rightarrow> buffer \<Rightarrow> ('v \<times> buffer) result" where
  "read_then peek_op retrieve_op b =
     bindR (peek_op b) (\<lambda>x. bindR (retrieve_op b) (\<lambda>b'. Inr (x, b')))"

definition readInt64 :: "endian \<Rightarrow> buffer \<Rightarrow> (int \<times> buffer) result" where
  "readInt64 e b = read_then (peekInt64 e) retrieveInt64 b"

definition readUint64 :: "endian \<Rightarrow> buffer \<Rightarrow> (64 word \<times> buffer) result" where
  "readUint64 e b = read_then (peekUint64 e) retrieveUint64 b"

definition readInt32 :: "endian \<Rightarrow> buffer \<Rightarrow> (int \<times> buffer) result" where
  "readInt32 e b = read_then (peekInt32 e) retrieveInt32 b"

definition readUint32 :: "endian \<Rightarrow> buffer \<Rightarrow> (32 word \<times> buffer) result" where
  "readUint32 e b = read_then (peekUint32 e) retrieveUint32 b"

definition readInt16 :: "endian \<Rightarrow> buffer \<Rightarrow> (int \<times> buffer) result" where
  "readInt16 e b = read_then (peekInt16 e) retrieveInt16 b"

definition readUint16 :: "endian \<Rightarrow> buffer \<Rightarrow> (16 word \<times> buffer) result" where
  "readUint16 e b = read_then (peekUint16 e) retrieveUint16 b"

definition readInt8 :: "endian \<Rightarrow> buffer \<Rightarrow> (int \<times> buffer) result" where
  "readInt8 e b = read_then (peekInt8 e) retrieveInt8 b"

definition readUint8 :: "endian \<Rightarrow> buffer \<Rightarrow> (8 word \<times> buffer) result" where
  "readUint8 e b = read_then (peekUint8 e) retrieveInt8 b"

subsection \<open>The codec interface\<close>

text \<open>
  An integer type as the buffer sees it: an encoding of fixed width and its inverse.  Once the
  encoding stands at the front of the content, peeking decodes it and reading consumes it.
\<close>

lemma peek_mem_ok:
  assumes "buffer_inv b" "n \<le> length (content b)"
  shows "peek_mem n b = Inr (take n (content b))"
  using assms by (simp add: peek_mem_def readable_content mem_read_content index_simps)

locale wire_codec =
  fixes enc :: "'v \<Rightarrow> byte list"
    and dec :: "byte list \<Rightarrow> 'v"
    and width :: nat
    and valid :: "'v \<Rightarrow> bool"
  assumes enc_width: "length (enc v) = width"
    and dec_enc: "valid v \<Longrightarrow> dec (enc v) = v"
begin

lemma peek_front:
  assumes "buffer_inv b" "valid v" "content b = enc v @ rest"
  shows "bindR (peek_mem width b) (\<lambda>m. Inr (dec m)) = Inr v"
  using assms by (simp add: peek_mem_ok enc_width dec_enc)

lemma read_front:
  assumes "buffer_inv b" "valid v" "content b = enc v @ rest"
  shows "\<exists>b'. read_then (\<lambda>b. bindR (peek_mem width b) (\<lambda>m. Inr (dec m))) (retrieve width) b = Inr (v, b') \<and>
    buffer_inv b' \<and> content b' = rest"
  using retrieve_ok [OF assms(1), of width] peek_front [OF assms] assms
  by (auto simp: read_then_def enc_width)

lemma peek_short:
  assumes "buffer_inv b" "length (content b) < width"
  shows "bindR (peek_mem width b) (\<lambda>m. Inr (dec m)) = Inl AssertFailed"
  using assms by (simp add: peek_mem_def readable_content assertR_def)

end

text \<open>The eight integer types of the class implement it, on both kinds of host.\<close>

definition in_signed :: "nat \<Rightarrow> int \<Rightarrow> bool" where
  "in_signed n x \<longleftrightarrow> - (2 ^ (n - 1)) \<le> x \<and> x < 2 ^ (n - 1)"

lemma sint_word_of_int: "in_signed LENGTH('a) x \<Longrightarrow> sint (word_of_int x :: 'a::len word) = x"
  by (simp add: in_signed_def sint_sbintrunc' signed_take_bit_int_eq_self)

lemma host_net:
  "word_of_mem e (mem_of_word e (htobe e w)) = htobe e (w :: 'a::len word)" if "8 dvd LENGTH('a)"
  using that by (simp add: word_of_mem_of_word)

lemma htobe_htobe: "8 dvd LENGTH('a) \<Longrightarrow> htobe e (htobe e w) = (w :: 'a::len word)"
  by (cases e) (simp_all add: htobe_def bswap_bswap)

interpretation u64: wire_codec "\<lambda>x. mem_of_word e (hostToNetwork64 e x)"
  "\<lambda>m. networkToHost64 e (word_of_mem e m)" 8 "\<lambda>_. True" for e
  by unfold_locales (simp_all add: network_defs host_net htobe_htobe)

interpretation u32: wire_codec "\<lambda>x. mem_of_word e (hostToNetwork32 e x)"
  "\<lambda>m. networkToHost32 e (word_of_mem e m)" 4 "\<lambda>_. True" for e
  by unfold_locales (simp_all add: network_defs host_net htobe_htobe)

interpretation u16: wire_codec "\<lambda>x. mem_of_word e (hostToNetwork16 e x)"
  "\<lambda>m. networkToHost16 e (word_of_mem e m)" 2 "\<lambda>_. True" for e
  by unfold_locales (simp_all add: network_defs host_net htobe_htobe)

interpretation u8: wire_codec "\<lambda>x :: 8 word. mem_of_word e x" "word_of_mem e" 1 "\<lambda>_. True" for e
  by unfold_locales (simp_all add: word_of_mem_of_word)

interpretation i64: wire_codec "\<lambda>x. mem_of_word e (hostToNetwork64 e (word_of_int x))"
  "\<lambda>m. sint (networkToHost64 e (word_of_mem e m))" 8 "in_signed 64" for e
  by unfold_locales (simp_all add: network_defs host_net htobe_htobe sint_word_of_int)

interpretation i32: wire_codec "\<lambda>x. mem_of_word e (hostToNetwork32 e (word_of_int x))"
  "\<lambda>m. sint (networkToHost32 e (word_of_mem e m))" 4 "in_signed 32" for e
  by unfold_locales (simp_all add: network_defs host_net htobe_htobe sint_word_of_int)

interpretation i16: wire_codec "\<lambda>x. mem_of_word e (hostToNetwork16 e (word_of_int x))"
  "\<lambda>m. sint (networkToHost16 e (word_of_mem e m))" 2 "in_signed 16" for e
  by unfold_locales (simp_all add: network_defs host_net htobe_htobe sint_word_of_int)

interpretation i8: wire_codec "\<lambda>x. mem_of_word e (word_of_int x :: 8 word)"
  "\<lambda>m. sint (word_of_mem e m :: 8 word)" 1 "in_signed 8" for e
  by unfold_locales (simp_all add: word_of_mem_of_word sint_word_of_int)


subsection \<open>Messages of several integers\<close>

datatype wire =
    U64 "64 word" | U32 "32 word" | U16 "16 word" | U8 "8 word"
  | I64 int | I32 int | I16 int | I8 int

fun wire_valid :: "wire \<Rightarrow> bool" where
  "wire_valid (I64 x) = in_signed 64 x"
| "wire_valid (I32 x) = in_signed 32 x"
| "wire_valid (I16 x) = in_signed 16 x"
| "wire_valid (I8 x) = in_signed 8 x"
| "wire_valid _ = True"

fun wire_append :: "endian \<Rightarrow> wire \<Rightarrow> buffer \<Rightarrow> buffer result" where
  "wire_append e (U64 x) b = appendUint64 e x b"
| "wire_append e (U32 x) b = appendUint32 e x b"
| "wire_append e (U16 x) b = appendUint16 e x b"
| "wire_append e (U8 x) b = appendUint8 e x b"
| "wire_append e (I64 x) b = appendInt64 e x b"
| "wire_append e (I32 x) b = appendInt32 e x b"
| "wire_append e (I16 x) b = appendInt16 e x b"
| "wire_append e (I8 x) b = appendInt8 e x b"

fun wire_prepend :: "endian \<Rightarrow> wire \<Rightarrow> buffer \<Rightarrow> buffer result" where
  "wire_prepend e (U64 x) b = prependUint64 e x b"
| "wire_prepend e (U32 x) b = prependUint32 e x b"
| "wire_prepend e (U16 x) b = prependUint16 e x b"
| "wire_prepend e (U8 x) b = prependUint8 e x b"
| "wire_prepend e (I64 x) b = prependInt64 e x b"
| "wire_prepend e (I32 x) b = prependInt32 e x b"
| "wire_prepend e (I16 x) b = prependInt16 e x b"
| "wire_prepend e (I8 x) b = prependInt8 e x b"

definition map_fst :: "('a \<Rightarrow> 'c) \<Rightarrow> ('a \<times> 'b) result \<Rightarrow> ('c \<times> 'b) result" where
  "map_fst f m = bindR m (\<lambda>(x, y). Inr (f x, y))"

text \<open>Reading an integer of the type of the first argument, whose value is not used.\<close>

fun wire_read :: "endian \<Rightarrow> wire \<Rightarrow> buffer \<Rightarrow> (wire \<times> buffer) result" where
  "wire_read e (U64 _) b = map_fst U64 (readUint64 e b)"
| "wire_read e (U32 _) b = map_fst U32 (readUint32 e b)"
| "wire_read e (U16 _) b = map_fst U16 (readUint16 e b)"
| "wire_read e (U8 _) b = map_fst U8 (readUint8 e b)"
| "wire_read e (I64 _) b = map_fst I64 (readInt64 e b)"
| "wire_read e (I32 _) b = map_fst I32 (readInt32 e b)"
| "wire_read e (I16 _) b = map_fst I16 (readInt16 e b)"
| "wire_read e (I8 _) b = map_fst I8 (readInt8 e b)"

fun wires_read :: "endian \<Rightarrow> wire list \<Rightarrow> buffer \<Rightarrow> (wire list \<times> buffer) result" where
  "wires_read e [] b = Inr ([], b)"
| "wires_read e (t # ts) b =
     bindR (wire_read e t b) (\<lambda>(v, b1).
     bindR (wires_read e ts b1) (\<lambda>(vs, b2). Inr (v # vs, b2)))"

text \<open>The bytes on the wire: big-endian, whatever the host.\<close>

fun wire_bytes :: "wire \<Rightarrow> byte list" where
  "wire_bytes (U64 x) = mem_of_word BigEndian x"
| "wire_bytes (U32 x) = mem_of_word BigEndian x"
| "wire_bytes (U16 x) = mem_of_word BigEndian x"
| "wire_bytes (U8 x) = mem_of_word BigEndian x"
| "wire_bytes (I64 x) = mem_of_word BigEndian (word_of_int x :: 64 word)"
| "wire_bytes (I32 x) = mem_of_word BigEndian (word_of_int x :: 32 word)"
| "wire_bytes (I16 x) = mem_of_word BigEndian (word_of_int x :: 16 word)"
| "wire_bytes (I8 x) = mem_of_word BigEndian (word_of_int x :: 8 word)"

lemmas append_int_defs =
  appendUint64_def appendUint32_def appendUint16_def appendUint8_def
  appendInt64_def appendInt32_def appendInt16_def appendInt8_def

lemmas prepend_int_defs =
  prependUint64_def prependUint32_def prependUint16_def prependUint8_def
  prependInt64_def prependInt32_def prependInt16_def prependInt8_def

lemma mem_of_byte: "mem_of_word e (w :: 8 word) = mem_of_word BigEndian w"
  by (cases e) (simp_all add: mem_of_word_def)

lemma wire_append_eq: "wire_append e v = append_buf (wire_bytes v)"
  by (rule ext, cases v)
    (simp_all add: append_int_defs network_defs mem_of_htobe mem_of_byte [of e])

lemma wire_prepend_eq: "wire_prepend e v = prepend (wire_bytes v)"
  by (rule ext, cases v)
    (simp_all add: prepend_int_defs network_defs mem_of_htobe mem_of_byte [of e])

lemma foldR_wire_append: "foldR (wire_append e) vs = foldR append_buf (map wire_bytes vs)"
  by (induction vs) (auto simp: wire_append_eq intro!: ext)

lemmas read_int_defs =
  readUint64_def readUint32_def readUint16_def readUint8_def
  readInt64_def readInt32_def readInt16_def readInt8_def

lemmas peek_int_defs =
  peekUint64_def peekUint32_def peekUint16_def peekUint8_def
  peekInt64_def peekInt32_def peekInt16_def peekInt8_def

lemmas retrieve_int_defs =
  retrieveUint64_def retrieveUint32_def retrieveUint16_def retrieveUint8_def
  retrieveInt64_def retrieveInt32_def retrieveInt16_def retrieveInt8_def

lemmas wire_read_simps =
  network_defs mem_of_htobe map_fst_def read_int_defs peek_int_defs retrieve_int_defs read_then_def

lemma wire_read_front:
  assumes "buffer_inv b" "wire_valid v" "content b = wire_bytes v @ rest"
  shows "\<exists>b'. wire_read e v b = Inr (v, b') \<and> buffer_inv b' \<and> content b' = rest"
proof (cases v)
  case (U64 x)
  then show ?thesis using u64.read_front [OF assms(1), where v = x and rest = rest and e = e] assms(3)
    by (auto simp: wire_read_simps)
next
  case (U32 x)
  then show ?thesis using u32.read_front [OF assms(1), where v = x and rest = rest and e = e] assms(3)
    by (auto simp: wire_read_simps)
next
  case (U16 x)
  then show ?thesis using u16.read_front [OF assms(1), where v = x and rest = rest and e = e] assms(3)
    by (auto simp: wire_read_simps)
next
  case (U8 x)
  then show ?thesis using u8.read_front [OF assms(1), where v = x and rest = rest and e = e] assms(3)
    by (auto simp: mem_of_byte [of e] wire_read_simps)
next
  case (I64 x)
  then show ?thesis using i64.read_front [OF assms(1), where v = x and rest = rest and e = e] assms(2,3)
    by (auto simp: wire_read_simps)
next
  case (I32 x)
  then show ?thesis using i32.read_front [OF assms(1), where v = x and rest = rest and e = e] assms(2,3)
    by (auto simp: wire_read_simps)
next
  case (I16 x)
  then show ?thesis using i16.read_front [OF assms(1), where v = x and rest = rest and e = e] assms(2,3)
    by (auto simp: wire_read_simps)
next
  case (I8 x)
  then show ?thesis using i8.read_front [OF assms(1), where v = x and rest = rest and e = e] assms(2,3)
    by (auto simp: mem_of_byte [of e] wire_read_simps)
qed

lemma wires_read_all:
  assumes "buffer_inv b" "list_all wire_valid vs" "content b = concat (map wire_bytes vs) @ rest"
  shows "\<exists>b'. wires_read e vs b = Inr (vs, b') \<and> buffer_inv b' \<and> content b' = rest"
  using assms
proof (induction vs arbitrary: b)
  case (Cons v vs)
  then obtain b1 where "wire_read e v b = Inr (v, b1)" "buffer_inv b1"
      "content b1 = concat (map wire_bytes vs) @ rest"
    using wire_read_front [of b v "concat (map wire_bytes vs) @ rest" e] by auto
  with Cons.IH [of b1] Cons.prems show ?case by auto
qed simp

section \<open>Properties\<close>

text \<open>C28. Integers of all eight types that one host appends to an empty buffer are read back by any
  other host, of either byte order, unchanged and in the same order; the buffer is then empty.\<close>

theorem wire_roundtrip:
  assumes "buffer_inv b" "content b = []" "list_all wire_valid vs"
    and "used_bytes b + length (concat (map wire_bytes vs)) \<le> vec_max"
  shows "\<exists>b1 b2. foldR (wire_append e) vs b = Inr b1 \<and> buffer_inv b1 \<and>
    wires_read e' vs b1 = Inr (vs, b2) \<and> buffer_inv b2 \<and> content b2 = []"
proof -
  obtain b1 where b1: "foldR append_buf (map wire_bytes vs) b = Inr b1" "buffer_inv b1"
      "content b1 = concat (map wire_bytes vs) @ []"
    using buffer_queue.app_all [OF assms(1,4)] assms(2) by auto
  then show ?thesis
    using wires_read_all [OF b1(2) assms(3) b1(3), of e'] by (auto simp: foldR_wire_append)
qed

theorem wire_roundtrip_witness:
  "\<exists>b1 b2. foldR (wire_append LittleEndian) [I8 (- 1), U16 13, I32 (- 3), U64 15]
      \<lparr>vec = replicate 10 (CHR 0x00), readerIndex = 8, writerIndex = 8\<rparr> = Inr b1 \<and> buffer_inv b1 \<and>
    wires_read BigEndian [I8 (- 1), U16 13, I32 (- 3), U64 15] b1 =
      Inr ([I8 (- 1), U16 13, I32 (- 3), U64 15], b2) \<and> buffer_inv b2 \<and> content b2 = []"
  by (rule wire_roundtrip)
    (simp_all add: buffer_inv_def content_def kCheapPrepend_def vec_max_def in_signed_def used_bytes_def)

text \<open>An integer put in front of the readable bytes is what the next read returns, and the bytes
  behind it are untouched; there is always room for one integer of any type while the reader index
  is at or behind \<^verbatim>\<open>kCheapPrepend\<close>, and a prepend that does not fit is refused.\<close>

theorem prepend_roundtrip:
  assumes "buffer_inv b" "wire_valid v"
  shows "if length (wire_bytes v) \<le> prependableBytes b
    then \<exists>b1 b2. wire_prepend e v b = Inr b1 \<and> buffer_inv b1 \<and>
      content b1 = wire_bytes v @ content b \<and>
      wire_read e' v b1 = Inr (v, b2) \<and> buffer_inv b2 \<and> content b2 = content b
    else wire_prepend e v b = Inl AssertFailed"
proof (cases "length (wire_bytes v) \<le> prependableBytes b")
  case True
  then obtain b1 where b1: "prepend (wire_bytes v) b = Inr b1" "buffer_inv b1"
      "content b1 = wire_bytes v @ content b"
    using prepend_ok [OF assms(1), of "wire_bytes v"] by (auto simp: index_simps)
  then show ?thesis
    using True wire_read_front [OF b1(2) assms(2) b1(3), of e'] by (simp add: wire_prepend_eq)
next
  case False
  then show ?thesis by (simp add: wire_prepend_eq prepend_too_much index_simps)
qed

theorem prepend_roundtrip_witness:
  "\<exists>b1 b2. wire_prepend LittleEndian (I32 7)
      \<lparr>vec = replicate 8 (CHR 0x00) @ ''ab'', readerIndex = 8, writerIndex = 10\<rparr> = Inr b1 \<and>
    wire_read BigEndian (I32 7) b1 = Inr (I32 7, b2) \<and> content b2 = ''ab''"
  using prepend_roundtrip [of "\<lparr>vec = replicate 8 (CHR 0x00) @ ''ab'', readerIndex = 8, writerIndex = 10\<rparr>"
      "I32 7" LittleEndian BigEndian]
  by (auto simp: buffer_inv_def kCheapPrepend_def vec_max_def in_signed_def index_simps content_def)

end
