(* ===== verification/Lute_Channel.thy ===== *)
theory Lute_Channel
  imports Lute_Prelude
begin

text \<open>
  Channels, \<^verbatim>\<open>polaris/include/polaris/Channel.h\<close> and \<^verbatim>\<open>polaris/src/Channel.cc\<close>: the event masks, the
  dispatch of a poll result to the callbacks, and the text of a mask.  The operations that reach the
  poller through the loop are in the theory of the poller.  Callbacks are code of other components:
  functions on the state of the world, passed as arguments.
\<close>

unbundle bit_operations_syntax

type_synonym events = "32 word"

definition POLLIN :: events where "POLLIN = 1"
definition POLLPRI :: events where "POLLPRI = 2"
definition POLLOUT :: events where "POLLOUT = 4"
definition POLLERR :: events where "POLLERR = 8"
definition POLLHUP :: events where "POLLHUP = 16"
definition POLLNVAL :: events where "POLLNVAL = 32"
definition POLLRDHUP :: events where "POLLRDHUP = 0x2000"

definition kNoneEvent :: events where
  "kNoneEvent = 0"

definition kReadEvent :: events where
  "kReadEvent = POLLIN OR POLLPRI"

definition kWriteEvent :: events where
  "kWriteEvent = POLLOUT"

lemmas poll_bits = POLLIN_def POLLPRI_def POLLOUT_def POLLERR_def POLLHUP_def POLLNVAL_def POLLRDHUP_def

record channel =
  ch_fd :: int
  ch_events :: events
  ch_revents :: events
  ch_index :: int
  ch_logHup :: bool
  ch_tie :: "nat option"
  ch_tied :: bool
  ch_eventHandling :: bool
  ch_addedToLoop :: bool

definition Channel :: "int \<Rightarrow> channel" where
  "Channel fd = \<lparr>ch_fd = fd, ch_events = 0, ch_revents = 0, ch_index = -1, ch_logHup = True, ch_tie = None,
     ch_tied = False, ch_eventHandling = False, ch_addedToLoop = False\<rparr>"

definition set_revents :: "events \<Rightarrow> channel \<Rightarrow> channel" where
  "set_revents revt c = c\<lparr>ch_revents := revt\<rparr>"

definition isNoneEvent :: "channel \<Rightarrow> bool" where
  "isNoneEvent c \<longleftrightarrow> ch_events c = kNoneEvent"

definition isWriting :: "channel \<Rightarrow> bool" where
  "isWriting c \<longleftrightarrow> ch_events c AND kWriteEvent \<noteq> 0"

definition isReading :: "channel \<Rightarrow> bool" where
  "isReading c \<longleftrightarrow> ch_events c AND kReadEvent \<noteq> 0"

definition set_index :: "int \<Rightarrow> channel \<Rightarrow> channel" where
  "set_index idx c = c\<lparr>ch_index := idx\<rparr>"

definition doNotLogHup :: "channel \<Rightarrow> channel" where
  "doNotLogHup c = c\<lparr>ch_logHup := False\<rparr>"

definition tie :: "nat \<Rightarrow> channel \<Rightarrow> channel" where
  "tie obj c = c\<lparr>ch_tie := Some obj, ch_tied := True\<rparr>"

text \<open>The event masks that the four switches and \<^verbatim>\<open>disableAll\<close> leave, before \<^verbatim>\<open>update\<close>.\<close>

definition reading_on :: "channel \<Rightarrow> channel" where
  "reading_on c = c\<lparr>ch_events := ch_events c OR kReadEvent\<rparr>"

definition reading_off :: "channel \<Rightarrow> channel" where
  "reading_off c = c\<lparr>ch_events := ch_events c AND NOT kReadEvent\<rparr>"

definition writing_on :: "channel \<Rightarrow> channel" where
  "writing_on c = c\<lparr>ch_events := ch_events c OR kWriteEvent\<rparr>"

definition writing_off :: "channel \<Rightarrow> channel" where
  "writing_off c = c\<lparr>ch_events := ch_events c AND NOT kWriteEvent\<rparr>"

definition all_off :: "channel \<Rightarrow> channel" where
  "all_off c = c\<lparr>ch_events := kNoneEvent\<rparr>"

text \<open>The text of a mask, for the log.\<close>

definition eventsToString :: "int \<Rightarrow> events \<Rightarrow> string" where
  "eventsToString fd ev =
     show_int fd @ '': '' @
     (if ev AND POLLIN \<noteq> 0 then ''IN '' else '''') @
     (if ev AND POLLPRI \<noteq> 0 then ''PRI '' else '''') @
     (if ev AND POLLOUT \<noteq> 0 then ''OUT '' else '''') @
     (if ev AND POLLHUP \<noteq> 0 then ''HUP '' else '''') @
     (if ev AND POLLRDHUP \<noteq> 0 then ''RDHUP '' else '''') @
     (if ev AND POLLERR \<noteq> 0 then ''ERR '' else '''') @
     (if ev AND POLLNVAL \<noteq> 0 then ''NVAL '' else '''')"

section \<open>Dispatch\<close>

record ('t, 'w) callbacks =
  readCallback :: "('t \<Rightarrow> 'w \<Rightarrow> 'w result) option"
  writeCallback :: "('w \<Rightarrow> 'w result) option"
  closeCallback :: "('w \<Rightarrow> 'w result) option"
  errorCallback :: "('w \<Rightarrow> 'w result) option"

definition call_if :: "bool \<Rightarrow> ('w \<Rightarrow> 'w result) option \<Rightarrow> 'w \<Rightarrow> 'w result" where
  "call_if b cb w = (if b then case cb of None \<Rightarrow> Inr w | Some f \<Rightarrow> f w else Inr w)"

text \<open>
  \<^verbatim>\<open>handleEventWithGuard\<close> on the world \<open>w\<close>: \<open>setHandling\<close> writes the flag \<^verbatim>\<open>eventHandling_\<close> of the
  channel, and \<open>revents\<close> is what the poll stored, which no callback changes.
\<close>

definition handleEventWithGuard ::
  "(bool \<Rightarrow> 'w \<Rightarrow> 'w result) \<Rightarrow> events \<Rightarrow> ('t, 'w) callbacks \<Rightarrow> 't \<Rightarrow> 'w \<Rightarrow> 'w result" where
  "handleEventWithGuard setHandling revents cbs receiveTime w =
     bindR (setHandling True w) (\<lambda>w0.
     bindR (call_if (revents AND POLLHUP \<noteq> 0 \<and> \<not> revents AND POLLIN \<noteq> 0) (closeCallback cbs) w0) (\<lambda>w1.
     bindR (call_if (revents AND (POLLERR OR POLLNVAL) \<noteq> 0) (errorCallback cbs) w1) (\<lambda>w2.
     bindR (call_if (revents AND (POLLIN OR POLLPRI OR POLLRDHUP) \<noteq> 0)
              (map_option (\<lambda>f. f receiveTime) (readCallback cbs)) w2) (\<lambda>w3.
     bindR (call_if (revents AND POLLOUT \<noteq> 0) (writeCallback cbs) w3) (\<lambda>w4.
       setHandling False w4)))))"

section \<open>Masks\<close>

text \<open>Each flag is one bit of the mask, so that the switches do not interfere.\<close>

lemma poll_exps:
  "POLLIN = 2 ^ 0" "POLLPRI = 2 ^ 1" "POLLOUT = 2 ^ 2" "POLLERR = 2 ^ 3" "POLLHUP = 2 ^ 4" "POLLNVAL = 2 ^ 5"
  "POLLRDHUP = 2 ^ 13"
  by (simp_all add: poll_bits)

lemma and_or_zero: "(a :: events) AND (x OR y) = 0 \<longleftrightarrow> a AND x = 0 \<and> a AND y = 0"
  by (simp add: bit.conj_disj_distrib or_eq_0_iff)

lemmas mask_iff = and_or_zero poll_exps and_exp_eq_0_iff_not_bit

lemma isReading_bits: "isReading c \<longleftrightarrow> bit (ch_events c) 0 \<or> bit (ch_events c) 1"
  unfolding isReading_def kReadEvent_def mask_iff by blast

lemma isWriting_bit: "isWriting c \<longleftrightarrow> bit (ch_events c) 2"
  unfolding isWriting_def kWriteEvent_def mask_iff by blast

lemma event_masks_bits:
  "bit kReadEvent n \<longleftrightarrow> n = 0 \<or> n = 1" "bit kWriteEvent n \<longleftrightarrow> n = 2" "\<not> bit kNoneEvent n"
  unfolding kReadEvent_def kWriteEvent_def kNoneEvent_def poll_exps
  unfolding bit_or_iff bit_exp_iff by auto

lemma switch_flags [simp]:
  "isReading (reading_on c)" "isWriting (reading_on c) = isWriting c"
  "\<not> isReading (reading_off c)" "isWriting (reading_off c) = isWriting c"
  "isWriting (writing_on c)" "isReading (writing_on c) = isReading c"
  "\<not> isWriting (writing_off c)" "isReading (writing_off c) = isReading c"
  "\<not> isReading (all_off c)" "\<not> isWriting (all_off c)" "isNoneEvent (all_off c)"
  by (simp_all add: isReading_bits isWriting_bit isNoneEvent_def reading_on_def reading_off_def
      writing_on_def writing_off_def all_off_def bit_or_iff bit_and_iff bit_not_iff event_masks_bits)

text \<open>The masks that a channel of this library can have.\<close>

definition lib_mask :: "events \<Rightarrow> bool" where
  "lib_mask ev \<longleftrightarrow> ev \<in> {0, kReadEvent, kWriteEvent, kReadEvent OR kWriteEvent}"

lemma isNoneEvent_iff: "lib_mask (ch_events c) \<Longrightarrow> isNoneEvent c \<longleftrightarrow> \<not> isReading c \<and> \<not> isWriting c"
  by (auto simp: lib_mask_def isNoneEvent_def kNoneEvent_def isReading_def isWriting_def kReadEvent_def
      kWriteEvent_def poll_bits)

lemma switch_mask [simp]:
  assumes "lib_mask (ch_events c)"
  shows "lib_mask (ch_events (reading_on c))" "lib_mask (ch_events (reading_off c))"
    "lib_mask (ch_events (writing_on c))" "lib_mask (ch_events (writing_off c))"
    "lib_mask (ch_events (all_off c))"
  using assms
  by (auto simp: lib_mask_def reading_on_def reading_off_def writing_on_def writing_off_def all_off_def
      kNoneEvent_def kReadEvent_def kWriteEvent_def poll_bits)

end
