(* ===== verification/Lute_Poller.thy ===== *)
theory Lute_Poller
  imports Lute_Channel
begin

text \<open>
  The poller, \<^verbatim>\<open>polaris/src/EPollPoller.cc\<close> and \<^verbatim>\<open>Poller.cc\<close>, with the operations of a channel that
  reach it through the loop (\<^verbatim>\<open>Channel::update\<close>, \<^verbatim>\<open>remove\<close>, \<^verbatim>\<open>EventLoop::updateChannel\<close>,
  \<^verbatim>\<open>removeChannel\<close>).  Channels are objects on a heap, so that a dangling pointer is an error
  value.  The kernel is a parameter: \<open>ctl\<close> is \<^verbatim>\<open>epoll_ctl\<close> on a kernel state of any type, and
  \<open>epoll_contract\<close> says what its manual page promises of the interest list.
\<close>

datatype epoll_op = EPOLL_CTL_ADD | EPOLL_CTL_MOD | EPOLL_CTL_DEL

type_synonym epoll_event = "events \<times> addr"

type_synonym 'k epoll_ctl = "'k \<Rightarrow> epoll_op \<Rightarrow> int \<Rightarrow> epoll_event \<Rightarrow> 'k \<times> bool"

definition epoll_contract :: "'k epoll_ctl \<Rightarrow> ('k \<Rightarrow> int \<Rightarrow> epoll_event option) \<Rightarrow> bool" where
  "epoll_contract ctl interest \<longleftrightarrow>
     (\<forall>k fd e.
       (interest k fd = None \<longrightarrow> snd (ctl k EPOLL_CTL_ADD fd e) \<and>
          interest (fst (ctl k EPOLL_CTL_ADD fd e)) = (interest k)(fd \<mapsto> e)) \<and>
       (interest k fd \<noteq> None \<longrightarrow> snd (ctl k EPOLL_CTL_MOD fd e) \<and>
          interest (fst (ctl k EPOLL_CTL_MOD fd e)) = (interest k)(fd \<mapsto> e)) \<and>
       (interest k fd \<noteq> None \<longrightarrow> snd (ctl k EPOLL_CTL_DEL fd e) \<and>
          interest (fst (ctl k EPOLL_CTL_DEL fd e)) = (interest k)(fd := None)))"

definition kNew :: int where "kNew = -1"
definition kAdded :: int where "kAdded = 1"
definition kDeleted :: int where "kDeleted = 2"

definition kInitEventListSize :: nat where
  "kInitEventListSize = 16"

lemmas index_defs = kNew_def kAdded_def kDeleted_def

text \<open>
  The part of an \<^verbatim>\<open>EventLoop\<close> and its poller that deals with channels: the heap of channels, the map
  \<^verbatim>\<open>channels_\<close>, the size of \<^verbatim>\<open>events_\<close>, the kernel, whether the calling thread is that of the loop, and
  the scratch variables of \<^verbatim>\<open>EventLoop::loop\<close>.
\<close>

record 'k reactor =
  heap :: "addr \<rightharpoonup> channel"
  channels :: "int \<rightharpoonup> addr"
  events_size :: nat
  kern :: 'k
  inLoopThread :: bool
  eventHandling :: bool
  activeChannels :: "addr list"
  currentActiveChannel :: "addr option"

definition EPollPoller :: "'k \<Rightarrow> 'k reactor" where
  "EPollPoller k = \<lparr>heap = Map.empty, channels = Map.empty, events_size = kInitEventListSize, kern = k,
     inLoopThread = True, eventHandling = False, activeChannels = [], currentActiveChannel = None\<rparr>"

section \<open>Operations\<close>

definition deref :: "addr \<Rightarrow> ('k, 'z) reactor_scheme \<Rightarrow> (channel \<Rightarrow> 'a result) \<Rightarrow> 'a result" where
  "deref p w f = (case heap w p of None \<Rightarrow> Inl UseAfterFree | Some c \<Rightarrow> f c)"

definition set_chan :: "addr \<Rightarrow> channel \<Rightarrow> ('k, 'z) reactor_scheme \<Rightarrow> ('k, 'z) reactor_scheme" where
  "set_chan p c w = w\<lparr>heap := (heap w)(p \<mapsto> c)\<rparr>"

definition assertInLoopThread :: "('k, 'z) reactor_scheme \<Rightarrow> 'a result \<Rightarrow> 'a result" where
  "assertInLoopThread w m = (if inLoopThread w then m else Inl Fatal)"

definition operationToString :: "epoll_op \<Rightarrow> string" where
  "operationToString op =
     (case op of EPOLL_CTL_ADD \<Rightarrow> ''ADD'' | EPOLL_CTL_DEL \<Rightarrow> ''DEL'' | EPOLL_CTL_MOD \<Rightarrow> ''MOD'')"

definition epoll_update ::
  "'k epoll_ctl \<Rightarrow> epoll_op \<Rightarrow> addr \<Rightarrow> ('k, 'z) reactor_scheme \<Rightarrow> ('k, 'z) reactor_scheme result" where
  "epoll_update ctl operation p w =
     deref p w (\<lambda>c.
       let (k', succeeded) = ctl (kern w) operation (ch_fd c) (ch_events c, p); w' = w\<lparr>kern := k'\<rparr>
       in if succeeded then Inr w'
          else if operation = EPOLL_CTL_DEL then Inr w'
          else Inl Fatal)"

definition updateChannel ::
  "'k epoll_ctl \<Rightarrow> addr \<Rightarrow> ('k, 'z) reactor_scheme \<Rightarrow> ('k, 'z) reactor_scheme result" where
  "updateChannel ctl p w =
     assertInLoopThread w (deref p w (\<lambda>c.
       let index = ch_index c; fd = ch_fd c
       in if index = kNew \<or> index = kDeleted
          then bindR
            (if index = kNew
             then assertR (channels w fd = None) (Inr (w\<lparr>channels := (channels w)(fd \<mapsto> p)\<rparr>))
             else assertR (channels w fd \<noteq> None) (assertR (channels w fd = Some p) (Inr w)))
            (\<lambda>w1. epoll_update ctl EPOLL_CTL_ADD p (set_chan p (set_index kAdded c) w1))
          else
            assertR (channels w fd \<noteq> None) (assertR (channels w fd = Some p) (assertR (index = kAdded)
              (if isNoneEvent c
               then bindR (epoll_update ctl EPOLL_CTL_DEL p w) (\<lambda>w1.
                      Inr (set_chan p (set_index kDeleted c) w1))
               else epoll_update ctl EPOLL_CTL_MOD p w)))))"

definition removeChannel ::
  "'k epoll_ctl \<Rightarrow> addr \<Rightarrow> ('k, 'z) reactor_scheme \<Rightarrow> ('k, 'z) reactor_scheme result" where
  "removeChannel ctl p w =
     assertInLoopThread w (deref p w (\<lambda>c.
       let fd = ch_fd c; index = ch_index c
       in assertR (channels w fd \<noteq> None) (assertR (channels w fd = Some p) (assertR (isNoneEvent c)
          (assertR (index = kAdded \<or> index = kDeleted)
            (let w1 = w\<lparr>channels := (channels w)(fd := None)\<rparr>
             in bindR (if index = kAdded then epoll_update ctl EPOLL_CTL_DEL p w1 else Inr w1) (\<lambda>w2.
                  Inr (set_chan p (set_index kNew c) w2))))))))"

definition hasChannel :: "addr \<Rightarrow> ('k, 'z) reactor_scheme \<Rightarrow> bool result" where
  "hasChannel p w = assertInLoopThread w (deref p w (\<lambda>c. Inr (channels w (ch_fd c) = Some p)))"

text \<open>The assert that a channel belongs to this loop holds of every channel of this heap.\<close>

definition loop_updateChannel ::
  "'k epoll_ctl \<Rightarrow> addr \<Rightarrow> ('k, 'z) reactor_scheme \<Rightarrow> ('k, 'z) reactor_scheme result" where
  "loop_updateChannel ctl p w = assertInLoopThread w (updateChannel ctl p w)"

definition loop_removeChannel ::
  "'k epoll_ctl \<Rightarrow> addr \<Rightarrow> ('k, 'z) reactor_scheme \<Rightarrow> ('k, 'z) reactor_scheme result" where
  "loop_removeChannel ctl p w =
     assertInLoopThread w
       (assertR (eventHandling w \<longrightarrow> currentActiveChannel w = Some p \<or> p \<notin> set (activeChannels w))
         (removeChannel ctl p w))"

definition chan_update ::
  "'k epoll_ctl \<Rightarrow> addr \<Rightarrow> ('k, 'z) reactor_scheme \<Rightarrow> ('k, 'z) reactor_scheme result" where
  "chan_update ctl p w =
     deref p w (\<lambda>c. loop_updateChannel ctl p (set_chan p (c\<lparr>ch_addedToLoop := True\<rparr>) w))"

definition enableReading ::
  "'k epoll_ctl \<Rightarrow> addr \<Rightarrow> ('k, 'z) reactor_scheme \<Rightarrow> ('k, 'z) reactor_scheme result" where
  "enableReading ctl p w = deref p w (\<lambda>c. chan_update ctl p (set_chan p (reading_on c) w))"

definition disableReading ::
  "'k epoll_ctl \<Rightarrow> addr \<Rightarrow> ('k, 'z) reactor_scheme \<Rightarrow> ('k, 'z) reactor_scheme result" where
  "disableReading ctl p w = deref p w (\<lambda>c. chan_update ctl p (set_chan p (reading_off c) w))"

definition enableWriting ::
  "'k epoll_ctl \<Rightarrow> addr \<Rightarrow> ('k, 'z) reactor_scheme \<Rightarrow> ('k, 'z) reactor_scheme result" where
  "enableWriting ctl p w = deref p w (\<lambda>c. chan_update ctl p (set_chan p (writing_on c) w))"

definition disableWriting ::
  "'k epoll_ctl \<Rightarrow> addr \<Rightarrow> ('k, 'z) reactor_scheme \<Rightarrow> ('k, 'z) reactor_scheme result" where
  "disableWriting ctl p w = deref p w (\<lambda>c. chan_update ctl p (set_chan p (writing_off c) w))"

definition disableAll ::
  "'k epoll_ctl \<Rightarrow> addr \<Rightarrow> ('k, 'z) reactor_scheme \<Rightarrow> ('k, 'z) reactor_scheme result" where
  "disableAll ctl p w = deref p w (\<lambda>c. chan_update ctl p (set_chan p (all_off c) w))"

definition chan_remove ::
  "'k epoll_ctl \<Rightarrow> addr \<Rightarrow> ('k, 'z) reactor_scheme \<Rightarrow> ('k, 'z) reactor_scheme result" where
  "chan_remove ctl p w =
     deref p w (\<lambda>c. assertR (isNoneEvent c)
       (loop_removeChannel ctl p (set_chan p (c\<lparr>ch_addedToLoop := False\<rparr>) w)))"

definition new_channel :: "addr \<Rightarrow> int \<Rightarrow> ('k, 'z) reactor_scheme \<Rightarrow> ('k, 'z) reactor_scheme result" where
  "new_channel p fd w = Inr (set_chan p (Channel fd) w)"

definition Channel_dtor :: "addr \<Rightarrow> ('k, 'z) reactor_scheme \<Rightarrow> ('k, 'z) reactor_scheme result" where
  "Channel_dtor p w =
     deref p w (\<lambda>c. assertR (\<not> ch_eventHandling c) (assertR (\<not> ch_addedToLoop c)
       (bindR (if inLoopThread w then bindR (hasChannel p w) (\<lambda>b. assertR (\<not> b) (Inr ())) else Inr ()) (\<lambda>_.
          Inr (w\<lparr>heap := (heap w)(p := None)\<rparr>)))))"

text \<open>The answer of \<^verbatim>\<open>epoll_wait\<close>: the ready events, none on a timeout, or an error.\<close>

datatype epoll_reply = Ready "epoll_event list" | EpollError

fun fill_channels :: "epoll_event list \<Rightarrow> ('k, 'z) reactor_scheme \<Rightarrow> ('k, 'z) reactor_scheme result" where
  "fill_channels [] w = Inr w"
| "fill_channels ((ev, p) # es) w =
     deref p w (\<lambda>c.
       assertR (channels w (ch_fd c) \<noteq> None) (assertR (channels w (ch_fd c) = Some p)
         (fill_channels es
           ((set_chan p (set_revents ev c) w)\<lparr>activeChannels := activeChannels w @ [p]\<rparr>))))"

definition fillActiveChannels ::
  "epoll_event list \<Rightarrow> ('k, 'z) reactor_scheme \<Rightarrow> ('k, 'z) reactor_scheme result" where
  "fillActiveChannels es w = assertR (length es \<le> events_size w) (fill_channels es w)"

definition poll :: "epoll_reply \<Rightarrow> ('k, 'z) reactor_scheme \<Rightarrow> ('k, 'z) reactor_scheme result" where
  "poll reply w =
     (case reply of
        Ready es \<Rightarrow>
          if 0 < length es
          then bindR (fillActiveChannels es w) (\<lambda>w1.
                 Inr (if length es = events_size w1 then w1\<lparr>events_size := events_size w1 * 2\<rparr> else w1))
          else Inr w
      | EpollError \<Rightarrow> Inr w)"

text \<open>\<^verbatim>\<open>handleEvent\<close>: a tied channel is handled only while the object it is tied to is alive.\<close>

definition set_handling :: "addr \<Rightarrow> bool \<Rightarrow> ('k, 'z) reactor_scheme \<Rightarrow> ('k, 'z) reactor_scheme result" where
  "set_handling p b w = deref p w (\<lambda>c. Inr (set_chan p (c\<lparr>ch_eventHandling := b\<rparr>) w))"

definition handleEvent ::
  "(('k, 'z) reactor_scheme \<Rightarrow> nat \<Rightarrow> bool) \<Rightarrow> (addr \<Rightarrow> ('t, ('k, 'z) reactor_scheme) callbacks) \<Rightarrow>
   't \<Rightarrow> addr \<Rightarrow> ('k, 'z) reactor_scheme \<Rightarrow> ('k, 'z) reactor_scheme result" where
  "handleEvent alive cbs receiveTime p w =
     deref p w (\<lambda>c.
       if ch_tied c
       then (case ch_tie c of
               None \<Rightarrow> Inr w
             | Some obj \<Rightarrow>
                 if alive w obj
                 then handleEventWithGuard (set_handling p) (ch_revents c) (cbs p) receiveTime w
                 else Inr w)
       else handleEventWithGuard (set_handling p) (ch_revents c) (cbs p) receiveTime w)"

section \<open>The interest list\<close>

text \<open>
  Of every channel on the heap, the index says how the poller and the kernel see it: not at all, in the
  map only, or in the map and with exactly its current mask in the interest list of the kernel.
\<close>

definition watched :: "('k, 'z) reactor_scheme \<Rightarrow> int \<Rightarrow> epoll_event option" where
  "watched w fd =
     (case channels w fd of None \<Rightarrow> None
      | Some p \<Rightarrow> (case heap w p of None \<Rightarrow> None
                  | Some c \<Rightarrow> if ch_index c = kAdded then Some (ch_events c, p) else None))"

definition chan_inv :: "('k, 'z) reactor_scheme \<Rightarrow> addr \<Rightarrow> channel \<Rightarrow> bool" where
  "chan_inv w p c \<longleftrightarrow>
     (ch_index c = kNew \<and> isNoneEvent c \<and> \<not> ch_addedToLoop c \<and> channels w (ch_fd c) \<noteq> Some p) \<or>
     (ch_index c = kAdded \<and> channels w (ch_fd c) = Some p \<and> ch_addedToLoop c) \<or>
     (ch_index c = kDeleted \<and> channels w (ch_fd c) = Some p \<and> ch_addedToLoop c \<and> isNoneEvent c)"

definition reactor_inv :: "('k \<Rightarrow> int \<Rightarrow> epoll_event option) \<Rightarrow> ('k, 'z) reactor_scheme \<Rightarrow> bool" where
  "reactor_inv interest w \<longleftrightarrow>
     inLoopThread w \<and>
     (\<forall>p c. heap w p = Some c \<longrightarrow> chan_inv w p c) \<and>
     (\<forall>fd p. channels w fd = Some p \<longrightarrow> (\<exists>c. heap w p = Some c \<and> ch_fd c = fd)) \<and>
     interest (kern w) = watched w"


lemma reactor_invD:
  assumes "reactor_inv interest w"
  shows "inLoopThread w" "heap w p = Some c \<Longrightarrow> chan_inv w p c"
    "channels w fd = Some p \<Longrightarrow> \<exists>c. heap w p = Some c \<and> ch_fd c = fd"
    "interest (kern w) = watched w"
  using assms unfolding reactor_inv_def by blast+

lemma epoll_contractD:
  assumes "epoll_contract ctl interest"
  shows "interest k fd = None \<Longrightarrow> \<exists>k'. ctl k EPOLL_CTL_ADD fd e = (k', True) \<and> interest k' = (interest k)(fd \<mapsto> e)"
    "interest k fd \<noteq> None \<Longrightarrow> \<exists>k'. ctl k EPOLL_CTL_MOD fd e = (k', True) \<and> interest k' = (interest k)(fd \<mapsto> e)"
    "interest k fd \<noteq> None \<Longrightarrow> \<exists>k'. ctl k EPOLL_CTL_DEL fd e = (k', True) \<and> interest k' = (interest k)(fd := None)"
  using assms unfolding epoll_contract_def by (metis (full_types) prod.collapse)+

lemma reactor_sel [simp]:
  "heap (set_chan p c w) = (heap w)(p \<mapsto> c)" "channels (set_chan p c w) = channels w"
  "kern (set_chan p c w) = kern w" "inLoopThread (set_chan p c w) = inLoopThread w"
  by (simp_all add: set_chan_def)

lemma reactor_inv_cong:
  assumes "heap v = heap w" "channels v = channels w" "kern v = kern w" "inLoopThread v = inLoopThread w"
  shows "reactor_inv interest v \<longleftrightarrow> reactor_inv interest w"
proof -
  have "watched v = watched w" by (rule ext) (simp add: watched_def assms cong: option.case_cong)
  moreover have "chan_inv v = chan_inv w" by (intro ext) (simp add: chan_inv_def assms)
  ultimately show ?thesis using assms by (simp add: reactor_inv_def)
qed

text \<open>The index after \<^verbatim>\<open>update\<close>: a channel with an empty mask leaves the kernel if it was there.\<close>

definition next_index :: "channel \<Rightarrow> int" where
  "next_index c = (if ch_index c = kAdded \<and> isNoneEvent c then kDeleted else kAdded)"

definition updated :: "addr \<Rightarrow> channel \<Rightarrow> 'k \<Rightarrow> ('k, 'z) reactor_scheme \<Rightarrow> ('k, 'z) reactor_scheme" where
  "updated p c k w = w\<lparr>heap := (heap w)(p \<mapsto> c\<lparr>ch_addedToLoop := True, ch_index := next_index c\<rparr>),
     channels := (channels w)(ch_fd c \<mapsto> p), kern := k\<rparr>"

lemma watched_updated:
  assumes "reactor_inv interest w" "heap w p = Some c0" "ch_fd c = ch_fd c0"
  shows "watched (updated p c k w) =
    (watched w)(ch_fd c := (if next_index c = kAdded then Some (ch_events c, p) else None))"
proof
  fix fd
  show "watched (updated p c k w) fd =
    ((watched w)(ch_fd c := (if next_index c = kAdded then Some (ch_events c, p) else None))) fd"
  proof (cases "fd = ch_fd c")
    case True
    then show ?thesis by (simp add: watched_def updated_def)
  next
    case False
    have "channels w fd \<noteq> Some p"
      using reactor_invD(3) [OF assms(1), of fd p] assms(2,3) False by auto
    with False show ?thesis by (simp add: watched_def updated_def split: option.splits)
  qed
qed

lemmas op_defs = chan_update_def loop_updateChannel_def updateChannel_def assertInLoopThread_def deref_def
  epoll_update_def set_chan_def set_index_def

lemma chan_update_ok:
  assumes k: "epoll_contract ctl interest" and inv: "reactor_inv interest w" and c: "heap w p = Some c"
    and free: "ch_index c = kNew \<Longrightarrow> channels w (ch_fd c) = None"
  shows "\<exists>k'. chan_update ctl p (set_chan p (c\<lparr>ch_events := e\<rparr>) w) = Inr (updated p (c\<lparr>ch_events := e\<rparr>) k' w) \<and>
    interest k' = watched (updated p (c\<lparr>ch_events := e\<rparr>) k' w)"
proof -
  note invD = reactor_invD [OF inv]
  let ?c = "c\<lparr>ch_events := e\<rparr>"
  have w: "watched (updated p ?c k' w) =
      (watched w)(ch_fd c := (if next_index ?c = kAdded then Some (e, p) else None))" for k'
    using watched_updated [OF inv c, of ?c] by simp
  from invD(2) [OF c] consider (new) "ch_index c = kNew" | (added) "ch_index c = kAdded" "channels w (ch_fd c) = Some p"
    | (deleted) "ch_index c = kDeleted" "channels w (ch_fd c) = Some p"
    by (auto simp: chan_inv_def)
  then show ?thesis
  proof cases
    case new
    then have "interest (kern w) (ch_fd c) = None" using free invD(4) by (simp add: watched_def)
    then obtain k' where "ctl (kern w) EPOLL_CTL_ADD (ch_fd c) (e, p) = (k', True)"
      "interest k' = (interest (kern w))(ch_fd c \<mapsto> (e, p))"
      using epoll_contractD(1) [OF k] by blast
    moreover have "next_index ?c = kAdded" using new by (simp add: next_index_def index_defs)
    ultimately show ?thesis using new free c invD(1,4) w
      by (intro exI [of _ k']) (simp add: op_defs updated_def index_defs)
  next
    case deleted
    then have "interest (kern w) (ch_fd c) = None" using c invD(4) by (simp add: watched_def index_defs)
    then obtain k' where "ctl (kern w) EPOLL_CTL_ADD (ch_fd c) (e, p) = (k', True)"
      "interest k' = (interest (kern w))(ch_fd c \<mapsto> (e, p))"
      using epoll_contractD(1) [OF k] by blast
    moreover have "next_index ?c = kAdded" using deleted by (simp add: next_index_def index_defs)
    ultimately show ?thesis using deleted c invD(1,4) w
      by (intro exI [of _ k']) (simp add: op_defs updated_def index_defs map_upd_triv)
  next
    case added
    then have reg: "interest (kern w) (ch_fd c) \<noteq> None" using c invD(4) by (simp add: watched_def)
    show ?thesis
    proof (cases "isNoneEvent ?c")
      case True
      then have none: "next_index ?c = kDeleted" using added by (simp add: next_index_def)
      obtain k' where "ctl (kern w) EPOLL_CTL_DEL (ch_fd c) (e, p) = (k', True)"
        "interest k' = (interest (kern w))(ch_fd c := None)"
        using epoll_contractD(3) [OF k reg] by blast
      with none True added c invD(1,4) w show ?thesis
        by (intro exI [of _ k']) (simp add: op_defs updated_def index_defs map_upd_triv isNoneEvent_def)
    next
      case False
      then have some: "next_index ?c = kAdded" by (simp add: next_index_def)
      obtain k' where "ctl (kern w) EPOLL_CTL_MOD (ch_fd c) (e, p) = (k', True)"
        "interest k' = (interest (kern w))(ch_fd c \<mapsto> (e, p))"
        using epoll_contractD(2) [OF k reg] by blast
      with some False added c invD(1,4) w show ?thesis
        by (intro exI [of _ k'], cases c) (simp add: op_defs updated_def index_defs map_upd_triv isNoneEvent_def)
    qed
  qed
qed

lemma reactor_inv_updated:
  assumes inv: "reactor_inv interest w" and c: "heap w p = Some c"
    and free: "ch_index c = kNew \<Longrightarrow> channels w (ch_fd c) = None"
    and w: "interest k' = watched (updated p (c\<lparr>ch_events := e\<rparr>) k' w)"
  shows "reactor_inv interest (updated p (c\<lparr>ch_events := e\<rparr>) k' w)"
proof -
  let ?w = "updated p (c\<lparr>ch_events := e\<rparr>) k' w"
  note invD = reactor_invD [OF inv]
  have own: "channels w (ch_fd c) = None \<or> channels w (ch_fd c) = Some p"
    using invD(2) [OF c] free by (auto simp: chan_inv_def)
  have "chan_inv ?w q d" if q: "heap ?w q = Some d" for q d
  proof (cases "q = p")
    case True
    with q show ?thesis by (auto simp: updated_def chan_inv_def next_index_def isNoneEvent_def split: if_splits)
  next
    case False
    with q have "chan_inv w q d" using invD(2) by (simp add: updated_def)
    moreover have "channels ?w (ch_fd d) = Some q \<longleftrightarrow> channels w (ch_fd d) = Some q"
      using own False by (auto simp: updated_def)
    ultimately show ?thesis by (simp add: chan_inv_def)
  qed
  moreover have "\<exists>d. heap ?w q = Some d \<and> ch_fd d = fd" if "channels ?w fd = Some q" for fd q
    using that invD(3) [of fd q] c by (auto simp: updated_def split: if_splits)
  moreover have "interest (kern ?w) = watched ?w" using w by (simp add: updated_def)
  ultimately show ?thesis using invD(1) by (simp add: reactor_inv_def) (simp add: updated_def)
qed

text \<open>The five switches, in one lemma: whatever mask \<open>f\<close> leaves is what the kernel watches.\<close>

definition switch :: "(channel \<Rightarrow> channel) \<Rightarrow> bool" where
  "switch f \<longleftrightarrow> (\<forall>c. \<exists>e. f c = c\<lparr>ch_events := e\<rparr>)"

lemma switches: "switch reading_on" "switch reading_off" "switch writing_on" "switch writing_off" "switch all_off"
  by (auto simp: switch_def reading_on_def reading_off_def writing_on_def writing_off_def all_off_def)

lemma switch_ok:
  assumes "epoll_contract ctl interest" "reactor_inv interest w" "heap w p = Some c"
    "ch_index c = kNew \<Longrightarrow> channels w (ch_fd c) = None" "switch f"
  shows "\<exists>k'. deref p w (\<lambda>c. chan_update ctl p (set_chan p (f c) w)) = Inr (updated p (f c) k' w) \<and>
    reactor_inv interest (updated p (f c) k' w)"
proof -
  obtain e where e: "f c = c\<lparr>ch_events := e\<rparr>" using assms(5) by (auto simp: switch_def)
  from chan_update_ok [OF assms(1-4), of e] obtain k' where
    "chan_update ctl p (set_chan p (f c) w) = Inr (updated p (f c) k' w)"
    "interest k' = watched (updated p (f c) k' w)"
    by (auto simp: e)
  moreover from this(2) have "reactor_inv interest (updated p (f c) k' w)"
    using reactor_inv_updated [OF assms(2-4), of k' e] by (simp add: e)
  ultimately show ?thesis using assms(3) by (auto simp: deref_def)
qed

lemmas switch_defs = enableReading_def disableReading_def enableWriting_def disableWriting_def disableAll_def

text \<open>Removing a channel.\<close>

definition removed :: "addr \<Rightarrow> channel \<Rightarrow> 'k \<Rightarrow> ('k, 'z) reactor_scheme \<Rightarrow> ('k, 'z) reactor_scheme" where
  "removed p c k w = w\<lparr>heap := (heap w)(p \<mapsto> c\<lparr>ch_addedToLoop := False, ch_index := kNew\<rparr>),
     channels := (channels w)(ch_fd c := None), kern := k\<rparr>"

lemma watched_removed:
  assumes "reactor_inv interest w" "heap w p = Some c"
  shows "watched (removed p c k w) = (watched w)(ch_fd c := None)"
proof
  fix fd
  have "fd \<noteq> ch_fd c \<Longrightarrow> channels w fd \<noteq> Some p"
    using reactor_invD(3) [OF assms(1), of fd p] assms(2) by auto
  then show "watched (removed p c k w) fd = ((watched w)(ch_fd c := None)) fd"
    by (auto simp: watched_def removed_def split: option.splits)
qed

lemma chan_remove_ok:
  assumes k: "epoll_contract ctl interest" and inv: "reactor_inv interest w" and c: "heap w p = Some c"
    and ok: "ch_index c \<noteq> kNew" "isNoneEvent c"
      "eventHandling w \<longrightarrow> currentActiveChannel w = Some p \<or> p \<notin> set (activeChannels w)"
  shows "\<exists>k'. chan_remove ctl p w = Inr (removed p c k' w) \<and> reactor_inv interest (removed p c k' w)"
proof -
  note invD = reactor_invD [OF inv]
  from invD(2) [OF c] ok(1) have ch: "channels w (ch_fd c) = Some p" "ch_index c = kAdded \<or> ch_index c = kDeleted"
    by (auto simp: chan_inv_def)
  have w: "watched (removed p c k' w) = (watched w)(ch_fd c := None)" for k' by (rule watched_removed [OF inv c])
  have "\<exists>k'. chan_remove ctl p w = Inr (removed p c k' w) \<and> interest k' = watched (removed p c k' w)"
  proof (cases "ch_index c = kAdded")
    case True
    then have "interest (kern w) (ch_fd c) \<noteq> None" using c ch invD(4) by (simp add: watched_def)
    then obtain k' where "ctl (kern w) EPOLL_CTL_DEL (ch_fd c) (ch_events c, p) = (k', True)"
      "interest k' = (interest (kern w))(ch_fd c := None)"
      using epoll_contractD(3) [OF k] by blast
    then show ?thesis using True c ch ok invD(1,4) w
      by (intro exI [of _ k']) (simp add: chan_remove_def loop_removeChannel_def removeChannel_def op_defs
          removed_def index_defs isNoneEvent_def)
  next
    case False
    then have "interest (kern w) (ch_fd c) = None" using c ch invD(4) by (simp add: watched_def index_defs)
    then have "interest (kern w) = watched (removed p c (kern w) w)" using w invD(4) by (simp add: fun_upd_idem)
    moreover have "chan_remove ctl p w = Inr (removed p c (kern w) w)"
      using False c ch ok invD(1) by (simp add: chan_remove_def loop_removeChannel_def removeChannel_def op_defs
          removed_def index_defs isNoneEvent_def)
    ultimately show ?thesis by blast
  qed
  then obtain k' where k': "chan_remove ctl p w = Inr (removed p c k' w)" "interest k' = watched (removed p c k' w)"
    by blast
  have "chan_inv (removed p c k' w) q d" if "heap (removed p c k' w) q = Some d" for q d
  proof (cases "q = p")
    case True
    with that ok show ?thesis by (auto simp: removed_def chan_inv_def isNoneEvent_def)
  next
    case False
    with that have "chan_inv w q d" using invD(2) by (simp add: removed_def)
    with False ch show ?thesis by (auto simp: chan_inv_def removed_def)
  qed
  moreover have "\<exists>d. heap (removed p c k' w) q = Some d \<and> ch_fd d = fd" if "channels (removed p c k' w) fd = Some q" for fd q
    using that invD(3) [of fd q] c by (auto simp: removed_def split: if_splits)
  moreover have "interest (kern (removed p c k' w)) = watched (removed p c k' w)"
    using k'(2) by (simp add: removed_def)
  ultimately have "reactor_inv interest (removed p c k' w)"
    using invD(1) by (simp add: reactor_inv_def) (simp add: removed_def)
  with k'(1) show ?thesis by blast
qed

lemma new_channel_inv:
  assumes "reactor_inv interest w" "heap w p = None"
  shows "reactor_inv interest (set_chan p (Channel fd) w)"
proof -
  note invD = reactor_invD [OF assms(1)]
  have no: "channels w x \<noteq> Some p" for x using invD(3) [of x p] assms(2) by auto
  have "watched (set_chan p (Channel fd) w) = watched w"
    using no by (auto simp: watched_def fun_eq_iff split: option.splits)
  moreover have "chan_inv (set_chan p (Channel fd) w) q d" if "heap (set_chan p (Channel fd) w) q = Some d" for q d
    using that no invD(2) [of q d] by (auto simp: chan_inv_def Channel_def isNoneEvent_def kNoneEvent_def index_defs split: if_splits)
  moreover have "\<exists>d. heap (set_chan p (Channel fd) w) q = Some d \<and> ch_fd d = x"
    if "channels (set_chan p (Channel fd) w) x = Some q" for x q
    using that invD(3) [of x q] no by auto
  ultimately show ?thesis using invD(1,4) by (simp add: reactor_inv_def)
qed

lemma Channel_dtor_ok:
  assumes "reactor_inv interest w" "heap w p = Some c" "ch_index c = kNew" "\<not> ch_eventHandling c"
  shows "Channel_dtor p w = Inr (w\<lparr>heap := (heap w)(p := None)\<rparr>) \<and>
    reactor_inv interest (w\<lparr>heap := (heap w)(p := None)\<rparr>)"
proof -
  note invD = reactor_invD [OF assms(1)]
  have un: "channels w (ch_fd c) \<noteq> Some p" "\<not> ch_addedToLoop c"
    using invD(2) [OF assms(2)] assms(3) by (auto simp: chan_inv_def index_defs)
  then have no: "channels w x \<noteq> Some p" for x using invD(3) [of x p] assms(2) by auto
  let ?w = "w\<lparr>heap := (heap w)(p := None)\<rparr>"
  have "watched ?w = watched w" using no by (auto simp: watched_def fun_eq_iff split: option.splits)
  moreover have "chan_inv ?w q d" if "heap ?w q = Some d" for q d
    using that invD(2) [of q d] by (auto simp: chan_inv_def split: if_splits)
  moreover have "\<exists>d. heap ?w q = Some d \<and> ch_fd d = fd" if "channels ?w fd = Some q" for fd q
    using that invD(3) [of fd q] no by auto
  ultimately have "reactor_inv interest ?w" using invD(1,4) by (simp add: reactor_inv_def)
  then show ?thesis using assms un invD(1) by (simp add: Channel_dtor_def hasChannel_def assertInLoopThread_def deref_def)
qed

section \<open>Sequences of channel operations\<close>

datatype chan_cmd =
    NewChannel addr int | EnableReading addr | DisableReading addr | EnableWriting addr | DisableWriting addr
  | DisableAll addr | Remove addr | Delete addr

fun chan_exec :: "'k epoll_ctl \<Rightarrow> chan_cmd \<Rightarrow> ('k, 'z) reactor_scheme \<Rightarrow> ('k, 'z) reactor_scheme result" where
  "chan_exec ctl (NewChannel p fd) w = new_channel p fd w"
| "chan_exec ctl (EnableReading p) w = enableReading ctl p w"
| "chan_exec ctl (DisableReading p) w = disableReading ctl p w"
| "chan_exec ctl (EnableWriting p) w = enableWriting ctl p w"
| "chan_exec ctl (DisableWriting p) w = disableWriting ctl p w"
| "chan_exec ctl (DisableAll p) w = disableAll ctl p w"
| "chan_exec ctl (Remove p) w = chan_remove ctl p w"
| "chan_exec ctl (Delete p) w = Channel_dtor p w"

text \<open>
  What the owner of a channel has to respect: it uses live channels only, registers no second channel
  for a descriptor, removes a channel that is registered and watches nothing (and, while events are
  handled, only the current one or one that is not about to be handled), and deletes removed channels.
\<close>

definition may_update :: "addr \<Rightarrow> ('k, 'z) reactor_scheme \<Rightarrow> bool" where
  "may_update p w =
     (case heap w p of None \<Rightarrow> False | Some c \<Rightarrow> ch_index c = kNew \<longrightarrow> channels w (ch_fd c) = None)"

fun chan_ok :: "chan_cmd \<Rightarrow> ('k, 'z) reactor_scheme \<Rightarrow> bool" where
  "chan_ok (NewChannel p fd) w = (heap w p = None)"
| "chan_ok (Remove p) w =
     (case heap w p of None \<Rightarrow> False
      | Some c \<Rightarrow> ch_index c \<noteq> kNew \<and> isNoneEvent c \<and>
          (eventHandling w \<longrightarrow> currentActiveChannel w = Some p \<or> p \<notin> set (activeChannels w)))"
| "chan_ok (Delete p) w =
     (case heap w p of None \<Rightarrow> False | Some c \<Rightarrow> ch_index c = kNew \<and> \<not> ch_eventHandling c)"
| "chan_ok (EnableReading p) w = may_update p w"
| "chan_ok (DisableReading p) w = may_update p w"
| "chan_ok (EnableWriting p) w = may_update p w"
| "chan_ok (DisableWriting p) w = may_update p w"
| "chan_ok (DisableAll p) w = may_update p w"

lemma chan_switch_safe:
  assumes "epoll_contract ctl interest" "reactor_inv interest w" "may_update p w" "switch f"
  shows "\<exists>w'. deref p w (\<lambda>c. chan_update ctl p (set_chan p (f c) w)) = Inr w' \<and> reactor_inv interest w'"
proof -
  from assms(3) obtain c where "heap w p = Some c" "ch_index c = kNew \<Longrightarrow> channels w (ch_fd c) = None"
    by (auto simp: may_update_def split: option.splits)
  from switch_ok [OF assms(1,2) this assms(4)] show ?thesis by blast
qed

interpretation reactor: safe_commands "chan_exec ctl"
  "\<lambda>w. epoll_contract ctl interest \<and> reactor_inv interest w" chan_ok
  for ctl interest
proof
  fix w c
  assume "epoll_contract ctl interest \<and> reactor_inv interest w" and ok: "chan_ok c w"
  then have k: "epoll_contract ctl interest" and inv: "reactor_inv interest w" by simp_all
  note sw = chan_switch_safe [OF k inv]
  have "\<exists>w'. chan_exec ctl c w = Inr w' \<and> reactor_inv interest w'"
  proof (cases c)
    case (NewChannel p fd)
    with ok inv show ?thesis using new_channel_inv by (auto simp: new_channel_def)
  next
    case (Remove p)
    with ok show ?thesis using chan_remove_ok [OF k inv] by (fastforce split: option.splits)
  next
    case (Delete p)
    with ok show ?thesis using Channel_dtor_ok [OF inv] by (fastforce split: option.splits)
  qed (use ok sw switches in \<open>simp_all add: switch_defs\<close>)
  with k show "\<exists>w'. chan_exec ctl c w = Inr w' \<and> epoll_contract ctl interest \<and> reactor_inv interest w'" by blast
qed

lemma EPollPoller_inv: "interest k = Map.empty \<Longrightarrow> reactor_inv interest (EPollPoller k)"
  by (auto simp: reactor_inv_def EPollPoller_def watched_def)

section \<open>Polling\<close>

text \<open>What \<^verbatim>\<open>epoll_wait\<close> may report: registered channels, each once, and no more than fit the array.\<close>

definition reply_ok :: "('k \<Rightarrow> int \<Rightarrow> epoll_event option) \<Rightarrow> epoll_event list \<Rightarrow> ('k, 'z) reactor_scheme \<Rightarrow> bool" where
  "reply_ok interest es w \<longleftrightarrow> length es \<le> events_size w \<and> distinct (map snd es) \<and>
     (\<forall>(ev, p) \<in> set es. \<exists>fd e. interest (kern w) fd = Some (e, p))"

lemma watched_live:
  assumes "reactor_inv interest w" "interest (kern w) fd = Some (e, p)"
  shows "\<exists>c. heap w p = Some c \<and> ch_fd c = fd \<and> ch_events c = e \<and> channels w fd = Some p"
  using assms reactor_invD(3) [OF assms(1), of fd p]
  by (auto simp: reactor_invD(4) watched_def split: option.splits if_splits)

lemma set_revents_inv:
  assumes inv: "reactor_inv interest w" and c: "heap w p = Some c"
  shows "reactor_inv interest ((set_chan p (set_revents ev c) w)\<lparr>activeChannels := as\<rparr>)"
proof -
  let ?w = "(set_chan p (set_revents ev c) w)\<lparr>activeChannels := as\<rparr>"
  note invD = reactor_invD [OF inv]
  have "watched ?w = watched w"
    using c by (auto simp: watched_def set_revents_def fun_eq_iff split: option.splits)
  moreover have "chan_inv ?w q d" if "heap ?w q = Some d" for q d
    using that invD(2) [of q] invD(2) [OF c] by (auto simp: chan_inv_def set_revents_def isNoneEvent_def split: if_splits)
  moreover have "\<exists>d. heap ?w q = Some d \<and> ch_fd d = fd" if "channels ?w fd = Some q" for fd q
    using that invD(3) [of fd q] c by (auto simp: set_revents_def)
  ultimately show ?thesis using invD(1,4) by (simp add: reactor_inv_def)
qed

lemma fill_channels_ok:
  assumes "reactor_inv interest w" "distinct (map snd es)"
    "\<forall>(ev, p) \<in> set es. \<exists>fd e. interest (kern w) fd = Some (e, p)"
  shows "\<exists>w'. fill_channels es w = Inr w' \<and> reactor_inv interest w' \<and> events_size w' = events_size w \<and>
    activeChannels w' = activeChannels w @ map snd es \<and> kern w' = kern w \<and>
    (\<forall>p. p \<notin> snd ` set es \<longrightarrow> heap w' p = heap w p) \<and>
    (\<forall>(ev, p) \<in> set es. \<exists>c. heap w' p = Some c \<and> ch_revents c = ev)"
  using assms
proof (induction es arbitrary: w)
  case (Cons x es)
  obtain ev p where x: "x = (ev, p)" by (cases x)
  with Cons.prems(3) obtain fd e where "interest (kern w) fd = Some (e, p)" by auto
  then obtain c where c: "heap w p = Some c" "channels w (ch_fd c) = Some p"
    using watched_live [OF Cons.prems(1)] by blast
  let ?w = "(set_chan p (set_revents ev c) w)\<lparr>activeChannels := activeChannels w @ [p]\<rparr>"
  have k: "kern ?w = kern w" by simp
  have "reactor_inv interest ?w" using set_revents_inv [OF Cons.prems(1) c(1)] by simp
  from Cons.IH [OF this] Cons.prems(2,3) k obtain w' where
    w': "fill_channels es ?w = Inr w'" "reactor_inv interest w'" "events_size w' = events_size ?w"
      "activeChannels w' = activeChannels ?w @ map snd es" "kern w' = kern ?w"
      "\<forall>p. p \<notin> snd ` set es \<longrightarrow> heap w' p = heap ?w p"
      "\<forall>(ev, p) \<in> set es. \<exists>c. heap w' p = Some c \<and> ch_revents c = ev"
    by auto
  moreover have "heap w' p = Some (set_revents ev c)" using w'(6) Cons.prems(2) x by auto
  ultimately show ?case using c x
    by (auto simp: deref_def set_revents_def set_chan_def)
qed simp

lemma poll_ok:
  assumes "reactor_inv interest w" "reply_ok interest es w" "activeChannels w = []"
  shows "\<exists>w'. poll (Ready es) w = Inr w' \<and> reactor_inv interest w' \<and> activeChannels w' = map snd es \<and>
    (\<forall>(ev, p) \<in> set es. \<exists>c. heap w' p = Some c \<and> ch_revents c = ev) \<and> kern w' = kern w \<and>
    (\<forall>p. p \<notin> snd ` set es \<longrightarrow> heap w' p = heap w p) \<and>
    events_size w' = (if es \<noteq> [] \<and> length es = events_size w then 2 * events_size w else events_size w)"
proof -
  from assms(2) have es: "length es \<le> events_size w" "distinct (map snd es)"
    "\<forall>(ev, p) \<in> set es. \<exists>fd e. interest (kern w) fd = Some (e, p)" by (auto simp: reply_ok_def)
  from fill_channels_ok [OF assms(1) es(2,3)] obtain w1 where w1: "fill_channels es w = Inr w1"
      "reactor_inv interest w1" "events_size w1 = events_size w" "activeChannels w1 = map snd es" "kern w1 = kern w"
      "\<forall>p. p \<notin> snd ` set es \<longrightarrow> heap w1 p = heap w p"
      "\<forall>(ev, p) \<in> set es. \<exists>c. heap w1 p = Some c \<and> ch_revents c = ev"
    using assms(3) by auto
  let ?w = "if es \<noteq> [] \<and> length es = events_size w1 then w1\<lparr>events_size := events_size w1 * 2\<rparr> else w1"
  have "poll (Ready es) w = Inr ?w"
    using w1(1,3) es(1) by (auto simp: poll_def fillActiveChannels_def)
  moreover have "reactor_inv interest ?w"
    by (rule reactor_inv_cong [THEN iffD2, OF _ _ _ _ w1(2)]) simp_all
  ultimately show ?thesis using w1 by auto
qed

section \<open>Dispatch, as a table\<close>

datatype cb_kind = CloseCb | ErrorCb | ReadCb | WriteCb

definition dispatch :: "events \<Rightarrow> cb_kind list" where
  "dispatch ev =
     (if bit ev 4 \<and> \<not> bit ev 0 then [CloseCb] else []) @
     (if bit ev 3 \<or> bit ev 5 then [ErrorCb] else []) @
     (if bit ev 0 \<or> bit ev 1 \<or> bit ev 13 then [ReadCb] else []) @
     (if bit ev 2 then [WriteCb] else [])"

fun run_cb :: "('t, 'w) callbacks \<Rightarrow> 't \<Rightarrow> cb_kind \<Rightarrow> 'w \<Rightarrow> 'w result" where
  "run_cb cbs t CloseCb w = (case closeCallback cbs of None \<Rightarrow> Inr w | Some f \<Rightarrow> f w)"
| "run_cb cbs t ErrorCb w = (case errorCallback cbs of None \<Rightarrow> Inr w | Some f \<Rightarrow> f w)"
| "run_cb cbs t ReadCb w = (case readCallback cbs of None \<Rightarrow> Inr w | Some f \<Rightarrow> f t w)"
| "run_cb cbs t WriteCb w = (case writeCallback cbs of None \<Rightarrow> Inr w | Some f \<Rightarrow> f w)"

lemma call_if_run:
  "call_if b (closeCallback cbs) = foldR (run_cb cbs t) (if b then [CloseCb] else [])"
  "call_if b (errorCallback cbs) = foldR (run_cb cbs t) (if b then [ErrorCb] else [])"
  "call_if b (map_option (\<lambda>f. f t) (readCallback cbs)) = foldR (run_cb cbs t) (if b then [ReadCb] else [])"
  "call_if b (writeCallback cbs) = foldR (run_cb cbs t) (if b then [WriteCb] else [])"
  by (auto simp: call_if_def fun_eq_iff foldR_fun split: option.splits)

lemma mask_tests:
  "(ev :: events) AND POLLHUP \<noteq> 0 \<longleftrightarrow> bit ev 4" "ev AND POLLIN \<noteq> 0 \<longleftrightarrow> bit ev 0" "ev AND POLLOUT \<noteq> 0 \<longleftrightarrow> bit ev 2"
  "ev AND (POLLERR OR POLLNVAL) \<noteq> 0 \<longleftrightarrow> bit ev 3 \<or> bit ev 5"
  "ev AND (POLLIN OR POLLPRI OR POLLRDHUP) \<noteq> 0 \<longleftrightarrow> bit ev 0 \<or> bit ev 1 \<or> bit ev 13"
  unfolding mask_iff by blast+

lemma handleEventWithGuard_dispatch:
  "handleEventWithGuard setHandling revents cbs t w =
     bindR (setHandling True w) (\<lambda>w1. bindR (foldR (run_cb cbs t) (dispatch revents) w1) (setHandling False))"
  unfolding handleEventWithGuard_def dispatch_def mask_tests
  by (simp only: call_if_run [where t = t] foldR_append bindR_assoc)

section \<open>Properties of the poller\<close>

text \<open>C6. Whatever sequence of operations the owners of channels perform within their rules, no assert fails, no
  pointer dangles and no call of \<^verbatim>\<open>epoll_ctl\<close> is refused; and afterwards the kernel watches exactly
  what the channels ask for: every channel with a non-empty mask is registered with this mask, and every
  entry of the interest list points to a live channel of that descriptor and carries its current mask.\<close>

theorem interest_list_exact:
  assumes "epoll_contract ctl interest" "interest k = Map.empty" "allowed (chan_exec ctl) chan_ok cmds (EPollPoller k)"
  shows "\<exists>w. foldR (chan_exec ctl) cmds (EPollPoller k) = Inr w \<and>
    (\<forall>p c. heap w p = Some c \<longrightarrow> \<not> isNoneEvent c \<longrightarrow> interest (kern w) (ch_fd c) = Some (ch_events c, p)) \<and>
    (\<forall>fd e p. interest (kern w) fd = Some (e, p) \<longrightarrow> (\<exists>c. heap w p = Some c \<and> ch_fd c = fd \<and> ch_events c = e))"
proof -
  obtain w where w: "foldR (chan_exec ctl) cmds (EPollPoller k) = Inr w" "reactor_inv interest w"
    using reactor.foldR_safe [OF conjI [OF assms(1) EPollPoller_inv [of interest, OF assms(2)]] assms(3)] by auto
  have "interest (kern w) (ch_fd c) = Some (ch_events c, p)" if "heap w p = Some c" "\<not> isNoneEvent c" for p c
    using reactor_invD(2) [OF w(2) that(1)] that
    by (auto simp: chan_inv_def reactor_invD(4) [OF w(2)] watched_def)
  with w watched_live [OF w(2)] show ?thesis by blast
qed

text \<open>A kernel whose state is its interest list.\<close>

fun map_ctl :: "(int \<Rightarrow> epoll_event option) epoll_ctl" where
  "map_ctl k EPOLL_CTL_ADD fd e = (if k fd = None then (k(fd \<mapsto> e), True) else (k, False))"
| "map_ctl k EPOLL_CTL_MOD fd e = (if k fd = None then (k, False) else (k(fd \<mapsto> e), True))"
| "map_ctl k EPOLL_CTL_DEL fd e = (if k fd = None then (k, False) else (k(fd := None), True))"

lemma map_ctl_contract: "epoll_contract map_ctl (\<lambda>k. k)"
  by (auto simp: epoll_contract_def)

lemmas exec_defs = EPollPoller_def new_channel_def set_chan_def Channel_def switch_defs deref_def chan_update_def
  loop_updateChannel_def updateChannel_def assertInLoopThread_def epoll_update_def set_index_def index_defs
  reading_on_def reading_off_def writing_on_def writing_off_def all_off_def isNoneEvent_def kNoneEvent_def
  kReadEvent_def kWriteEvent_def poll_bits may_update_def

theorem interest_list_exact_witness:
  "\<exists>w. foldR (chan_exec map_ctl) [NewChannel 1 5, EnableReading 1, EnableWriting 1, DisableReading 1]
      (EPollPoller Map.empty) = Inr w \<and>
    (\<forall>p c. heap w p = Some c \<longrightarrow> \<not> isNoneEvent c \<longrightarrow> kern w (ch_fd c) = Some (ch_events c, p))"
proof -
  let ?cmds = "[NewChannel 1 5, EnableReading 1, EnableWriting 1, DisableReading 1]"
  have "allowed (chan_exec map_ctl) chan_ok ?cmds (EPollPoller Map.empty)" by (simp add: exec_defs)
  from interest_list_exact [OF map_ctl_contract refl this] show ?thesis by blast
qed

text \<open>A poll whose answer the kernel can give fails no assert: the active channels are those of the answer in
  their order, each holds the events reported for it, the interest list is untouched, and the array of events
  doubles exactly when the answer filled it.\<close>

theorem poll_active:
  assumes "reactor_inv interest w" "reply_ok interest es w" "activeChannels w = []" "es \<noteq> []"
  shows "\<exists>w'. poll (Ready es) w = Inr w' \<and> reactor_inv interest w' \<and> activeChannels w' = map snd es \<and>
    (\<forall>(ev, p) \<in> set es. \<exists>c. heap w' p = Some c \<and> ch_revents c = ev) \<and> kern w' = kern w \<and>
    events_size w' = (if length es = events_size w then 2 * events_size w else events_size w)"
  using poll_ok [OF assms(1-3)] assms(4) by auto

theorem poll_active_witness:
  "\<exists>w'. poll (Ready [(1, 7)]) \<lparr>heap = [7 \<mapsto> (Channel 5)\<lparr>ch_events := 3, ch_index := 1, ch_addedToLoop := True\<rparr>],
      channels = [5 \<mapsto> 7], events_size = 1,
      kern = [5 \<mapsto> (3, 7)] :: int \<Rightarrow> epoll_event option, inLoopThread = True, eventHandling = False,
      activeChannels = [], currentActiveChannel = None\<rparr> = Inr w' \<and> activeChannels w' = [7] \<and> events_size w' = 2"
proof -
  let ?w = "\<lparr>heap = [7 \<mapsto> (Channel 5)\<lparr>ch_events := 3, ch_index := 1, ch_addedToLoop := True\<rparr>],
      channels = [5 \<mapsto> 7], events_size = 1, kern = [5 \<mapsto> (3, 7)], inLoopThread = True, eventHandling = False,
      activeChannels = [], currentActiveChannel = None\<rparr> :: (int \<Rightarrow> epoll_event option) reactor"
  have "watched ?w = [5 \<mapsto> (3, 7)]"
    by (auto simp: watched_def Channel_def index_defs fun_eq_iff split: option.splits if_splits)
  then have "reactor_inv (\<lambda>k. k) ?w"
    by (auto simp: reactor_inv_def chan_inv_def Channel_def index_defs split: if_splits)
  moreover have "reply_ok (\<lambda>k. k) [(1, 7)] ?w" by (auto simp: reply_ok_def)
  ultimately have "\<exists>w'. poll (Ready [(1, 7)]) ?w = Inr w' \<and> activeChannels w' = map snd [(1 :: events, 7)] \<and>
      events_size w' = (if length [(1 :: events, 7 :: addr)] = events_size ?w then 2 * events_size ?w else events_size ?w)"
    using poll_active [of "\<lambda>k. k" ?w "[(1, 7)]"] by fastforce
  then show ?thesis by simp
qed

text \<open>Handling the reported events calls the callbacks that the events ask for, each at most once and always
  in the order close, error, read, write; a hang-up with no data to read closes, one with data reads first.\<close>

theorem handleEvent_dispatch:
  "handleEventWithGuard setHandling revents cbs t w =
     bindR (setHandling True w) (\<lambda>w1. bindR (foldR (run_cb cbs t) (dispatch revents) w1) (setHandling False))"
  by (rule handleEventWithGuard_dispatch)

end
