(* ===== verification/Lute_EventLoop.thy ===== *)
theory Lute_EventLoop
  imports Lute_Poller
begin

text \<open>
  The event loop, \<^verbatim>\<open>polaris/src/EventLoop.cc\<close>.  Two views: one iteration of \<^verbatim>\<open>loop\<close> on the channels, as
  a function; and the interplay of the loop thread with other threads that queue functors and call
  \<^verbatim>\<open>quit\<close>, as a step relation whose steps are the accesses to shared state.  Functors are opaque values of
  type \<open>'f\<close>; what they do to the loop (queue more functors, quit) are steps of the loop thread.
\<close>

section \<open>One iteration on the channels\<close>

fun handle_active ::
  "(('k, 'z) reactor_scheme \<Rightarrow> nat \<Rightarrow> bool) \<Rightarrow> (addr \<Rightarrow> ('t, ('k, 'z) reactor_scheme) callbacks) \<Rightarrow> 't \<Rightarrow>
   addr list \<Rightarrow> ('k, 'z) reactor_scheme \<Rightarrow> ('k, 'z) reactor_scheme result" where
  "handle_active alive cbs t [] w = Inr w"
| "handle_active alive cbs t (p # ps) w =
     bindR (handleEvent alive cbs t p (w\<lparr>currentActiveChannel := Some p\<rparr>)) (handle_active alive cbs t ps)"

definition loop_iteration ::
  "(('k, 'z) reactor_scheme \<Rightarrow> nat \<Rightarrow> bool) \<Rightarrow> (addr \<Rightarrow> ('t, ('k, 'z) reactor_scheme) callbacks) \<Rightarrow> 't \<Rightarrow>
   epoll_reply \<Rightarrow> (('k, 'z) reactor_scheme \<Rightarrow> ('k, 'z) reactor_scheme result) \<Rightarrow>
   ('k, 'z) reactor_scheme \<Rightarrow> ('k, 'z) reactor_scheme result" where
  "loop_iteration alive cbs now reply doPending w =
     bindR (poll reply (w\<lparr>activeChannels := []\<rparr>)) (\<lambda>w1.
     bindR (handle_active alive cbs now (activeChannels w1) (w1\<lparr>eventHandling := True\<rparr>)) (\<lambda>w2.
       doPending (w2\<lparr>currentActiveChannel := None, eventHandling := False\<rparr>)))"

section \<open>The shared state\<close>

datatype 'f loop_pc =
    Outside         \<comment> \<open>before or after \<^verbatim>\<open>loop()\<close>\<close>
  | Started         \<comment> \<open>\<^verbatim>\<open>looping_\<close> is set, \<^verbatim>\<open>quit_\<close> not cleared yet\<close>
  | Test            \<comment> \<open>at the test of \<^verbatim>\<open>while (!quit_)\<close>\<close>
  | Poll            \<comment> \<open>in \<^verbatim>\<open>poller_->poll\<close>\<close>
  | Handle          \<comment> \<open>handling the active channels\<close>
  | Swap            \<comment> \<open>in \<^verbatim>\<open>doPendingFunctors\<close>, before the swap\<close>
  | Run "'f list"   \<comment> \<open>running the functors that were swapped out\<close>

text \<open>
  \<open>wakeupCount\<close> is the counter of the eventfd; \<open>waking\<close> counts the threads that are about to call \<^verbatim>\<open>wakeup\<close>;
  \<open>queued\<close> and \<open>executed\<close> record, for the specification, the functors in the order of these events.
\<close>

record 'f eloop =
  looping :: bool
  quit_flag :: bool
  callingPendingFunctors :: bool
  pendingFunctors :: "'f list"
  wakeupCount :: nat
  waking :: nat
  pc :: "'f loop_pc"
  queued :: "'f list"
  executed :: "'f list"

definition EventLoop :: "'f eloop" where
  "EventLoop = \<lparr>looping = False, quit_flag = False, callingPendingFunctors = False, pendingFunctors = [],
     wakeupCount = 0, waking = 0, pc = Outside, queued = [], executed = []\<rparr>"

definition wakeup :: "'f eloop \<Rightarrow> 'f eloop" where
  "wakeup s = s\<lparr>wakeupCount := wakeupCount s + 1\<rparr>"

definition handleRead_loop :: "'f eloop \<Rightarrow> 'f eloop" where
  "handleRead_loop s = s\<lparr>wakeupCount := 0\<rparr>"

text \<open>\<^verbatim>\<open>queueInLoop\<close>: the push under the mutex, then the wakeup if the caller needs one.\<close>

definition push_functor :: "'f \<Rightarrow> 'f eloop \<Rightarrow> 'f eloop" where
  "push_functor cb s = s\<lparr>pendingFunctors := pendingFunctors s @ [cb], queued := queued s @ [cb]\<rparr>"

definition queueInLoop_self :: "'f \<Rightarrow> 'f eloop \<Rightarrow> 'f eloop" where
  "queueInLoop_self cb s =
     (let s1 = push_functor cb s in if callingPendingFunctors s1 then wakeup s1 else s1)"

definition queueInLoop_other :: "'f \<Rightarrow> 'f eloop \<Rightarrow> 'f eloop" where
  "queueInLoop_other cb s = (push_functor cb s)\<lparr>waking := waking s + 1\<rparr>"

definition wakeup_other :: "'f eloop \<Rightarrow> 'f eloop" where
  "wakeup_other s = (wakeup s)\<lparr>waking := waking s - 1\<rparr>"

text \<open>\<^verbatim>\<open>runInLoop\<close>: in the loop thread the functor runs at once, otherwise it is queued.\<close>

definition runInLoop :: "('f \<Rightarrow> 'f eloop \<Rightarrow> 'f eloop) \<Rightarrow> bool \<Rightarrow> 'f \<Rightarrow> 'f eloop \<Rightarrow> 'f eloop" where
  "runInLoop call inLoop cb s = (if inLoop then call cb s else queueInLoop_other cb s)"

definition quit_loop :: "bool \<Rightarrow> 'f eloop \<Rightarrow> 'f eloop" where
  "quit_loop inLoop s =
     (if \<not> looping s then s\<lparr>quit_flag := False\<rparr>
      else let s1 = s\<lparr>quit_flag := True\<rparr> in if \<not> inLoop then s1\<lparr>waking := waking s1 + 1\<rparr> else s1)"

text \<open>\<^verbatim>\<open>doPendingFunctors\<close>: its swap under the mutex, the call of one functor, and its end.\<close>

definition swap_pending :: "'f eloop \<Rightarrow> 'f eloop" where
  "swap_pending s = s\<lparr>callingPendingFunctors := True, pendingFunctors := [], pc := Run (pendingFunctors s)\<rparr>"

definition call_functor :: "'f \<Rightarrow> 'f list \<Rightarrow> 'f eloop \<Rightarrow> 'f eloop" where
  "call_functor f fs s = s\<lparr>executed := executed s @ [f], pc := Run fs\<rparr>"

definition end_pending :: "'f eloop \<Rightarrow> 'f eloop" where
  "end_pending s = s\<lparr>callingPendingFunctors := False, pc := Test\<rparr>"

section \<open>Interleavings\<close>

text \<open>
  The rules \<open>start\<close> to \<open>finish\<close> are the statements of \<^verbatim>\<open>loop\<close>; \<open>read\<close> is the read callback of the wakeup
  channel; \<open>self_queue\<close> and \<open>self_quit\<close> are calls from a callback or functor in the loop thread; the
  \<open>other\<close> rules are calls from other threads.  With the flag \<open>early\<close> the loop thread may also queue before it
  calls \<^verbatim>\<open>loop\<close>.
\<close>

inductive loop_step :: "bool \<Rightarrow> 'f eloop \<Rightarrow> 'f eloop \<Rightarrow> bool" for early :: bool where
  start: "pc s = Outside \<Longrightarrow> \<not> looping s \<Longrightarrow> loop_step early s (s\<lparr>looping := True, pc := Started\<rparr>)"
| clear: "pc s = Started \<Longrightarrow> loop_step early s (s\<lparr>quit_flag := False, pc := Test\<rparr>)"
| stop: "pc s = Test \<Longrightarrow> quit_flag s \<Longrightarrow> loop_step early s (s\<lparr>looping := False, pc := Outside\<rparr>)"
| enter: "pc s = Test \<Longrightarrow> \<not> quit_flag s \<Longrightarrow> loop_step early s (s\<lparr>pc := Poll\<rparr>)"
| polled: "pc s = Poll \<Longrightarrow> loop_step early s (s\<lparr>pc := Handle\<rparr>)"
| read: "pc s = Handle \<Longrightarrow> 0 < wakeupCount s \<Longrightarrow> loop_step early s (handleRead_loop s)"
| handled: "pc s = Handle \<Longrightarrow> loop_step early s (s\<lparr>pc := Swap\<rparr>)"
| swap: "pc s = Swap \<Longrightarrow> loop_step early s (swap_pending s)"
| run: "pc s = Run (f # fs) \<Longrightarrow> loop_step early s (call_functor f fs s)"
| finish: "pc s = Run [] \<Longrightarrow> loop_step early s (end_pending s)"
| self_queue: "pc s = Handle \<or> (\<exists>fs. pc s = Run fs) \<or> early \<and> pc s = Outside \<Longrightarrow>
    loop_step early s (queueInLoop_self f s)"
| self_quit: "pc s = Handle \<or> (\<exists>fs. pc s = Run fs) \<Longrightarrow> loop_step early s (quit_loop True s)"
| other_queue: "loop_step early s (queueInLoop_other f s)"
| other_quit: "loop_step early s (quit_loop False s)"
| other_wake: "0 < waking s \<Longrightarrow> loop_step early s (wakeup_other s)"

inductive_cases loop_stepE: "loop_step early s t"

lemmas loop_ops = wakeup_def handleRead_loop_def push_functor_def queueInLoop_self_def queueInLoop_other_def
  wakeup_other_def quit_loop_def swap_pending_def call_functor_def end_pending_def Let_def

text \<open>The functors that the loop thread has taken and not run yet.\<close>

definition running :: "'f eloop \<Rightarrow> 'f list" where
  "running s = (case pc s of Run fs \<Rightarrow> fs | _ \<Rightarrow> [])"

definition signalled :: "'f eloop \<Rightarrow> bool" where
  "signalled s \<longleftrightarrow> 0 < wakeupCount s \<or> 0 < waking s"

text \<open>
  Wherever the thread is headed for the poll, a pending functor is signalled; a poll that \<^verbatim>\<open>quit\<close> has to end is
  signalled too; the wakeup is never skipped while functors run; and nothing queued is lost, duplicated or
  reordered.
\<close>

definition loop_inv :: "'f eloop \<Rightarrow> bool" where
  "loop_inv s \<longleftrightarrow>
     (pc s \<noteq> Handle \<longrightarrow> pc s \<noteq> Swap \<longrightarrow> pendingFunctors s \<noteq> [] \<longrightarrow> signalled s) \<and>
     (pc s = Poll \<longrightarrow> quit_flag s \<longrightarrow> signalled s) \<and>
     (callingPendingFunctors s \<longleftrightarrow> (\<exists>fs. pc s = Run fs)) \<and>
     (looping s \<longleftrightarrow> pc s \<noteq> Outside) \<and>
     executed s @ running s @ pendingFunctors s = queued s"

lemma loop_step_inv:
  assumes "loop_inv s" "loop_step False s t"
  shows "loop_inv t"
  using assms(2)
proof cases
  case (self_queue f)
  then show ?thesis using assms(1)
    by (auto simp: loop_inv_def loop_ops signalled_def running_def split: loop_pc.splits)
next
  case (run f fs)
  then show ?thesis using assms(1) by (auto simp: loop_inv_def loop_ops signalled_def running_def)
qed (use assms(1) in \<open>auto simp: loop_inv_def loop_ops signalled_def running_def split: loop_pc.splits if_splits\<close>)

interpretation event_loop: invariant_system "\<lambda>s. s = EventLoop" "loop_step False" loop_inv
proof
  show "s = EventLoop \<Longrightarrow> loop_inv s" for s :: "'a eloop"
    by (simp add: loop_inv_def EventLoop_def running_def)
qed (rule loop_step_inv)

section \<open>An iteration is safe\<close>

text \<open>What the loop asks of callbacks: they succeed, keep the poller consistent and delete no channel (channels are
  deleted by functors, which run when no event is handled).\<close>

definition live_inv :: "('k \<Rightarrow> int \<Rightarrow> epoll_event option) \<Rightarrow> addr set \<Rightarrow> ('k, 'z) reactor_scheme \<Rightarrow> bool" where
  "live_inv interest S w \<longleftrightarrow> reactor_inv interest w \<and> S \<subseteq> dom (heap w)"

definition cb_keeps :: "('w \<Rightarrow> bool) \<Rightarrow> ('w \<Rightarrow> 'w result) \<Rightarrow> bool" where
  "cb_keeps I f \<longleftrightarrow> (\<forall>w. I w \<longrightarrow> (\<exists>w'. f w = Inr w' \<and> I w'))"

definition callbacks_keep :: "('w \<Rightarrow> bool) \<Rightarrow> ('t, 'w) callbacks \<Rightarrow> bool" where
  "callbacks_keep I cbs \<longleftrightarrow>
     (\<forall>f t. readCallback cbs = Some f \<longrightarrow> cb_keeps I (f t)) \<and> (\<forall>f. writeCallback cbs = Some f \<longrightarrow> cb_keeps I f) \<and>
     (\<forall>f. closeCallback cbs = Some f \<longrightarrow> cb_keeps I f) \<and> (\<forall>f. errorCallback cbs = Some f \<longrightarrow> cb_keeps I f)"

lemma run_cb_keeps: "callbacks_keep I cbs \<Longrightarrow> cb_keeps I (run_cb cbs t k)"
  by (cases k) (auto simp: callbacks_keep_def cb_keeps_def split: option.splits)

lemma foldR_keeps: "(\<And>c. cb_keeps I (f c)) \<Longrightarrow> I w \<Longrightarrow> \<exists>w'. foldR f cs w = Inr w' \<and> I w'"
proof (induction cs arbitrary: w)
  case (Cons c cs)
  then obtain w1 where "f c w = Inr w1" "I w1" unfolding cb_keeps_def by blast
  with Cons show ?case by simp
qed simp

text \<open>
  The interface between the loop and what its callbacks rely on: an invariant \<open>I x\<close> of the world while the channel \<open>x\<close>
  is handled (\<open>I None\<close> between two of them) under which the channels of \<open>S\<close> are alive, and which the loop's own writes
  (the flag of the channel, the current channel) keep.  The client lemma: handling any list of these channels, with
  callbacks that keep the invariant, succeeds and keeps it.
\<close>

locale handled_world =
  fixes I :: "addr option \<Rightarrow> ('k, 'z) reactor_scheme \<Rightarrow> bool"
    and S :: "addr set"
  assumes live: "I x w \<Longrightarrow> p \<in> S \<Longrightarrow> \<exists>c. heap w p = Some c"
    and mark: "I None w \<Longrightarrow> heap w p = Some c \<Longrightarrow> I (Some p) (set_chan p (c\<lparr>ch_eventHandling := True\<rparr>) w)"
    and unmark: "I (Some p) w \<Longrightarrow> heap w p = Some c \<Longrightarrow> I None (set_chan p (c\<lparr>ch_eventHandling := False\<rparr>) w)"
    and current: "I None w \<Longrightarrow> I None (w\<lparr>currentActiveChannel := y\<rparr>)"
begin

lemma handleEvent_keeps:
  assumes "I None w" "p \<in> S" "callbacks_keep (I (Some p)) (cbs p)"
  shows "\<exists>w'. handleEvent alive cbs t p w = Inr w' \<and> I None w'"
proof -
  obtain c where c: "heap w p = Some c" using live [OF assms(1,2)] by blast
  have "\<exists>w'. handleEventWithGuard (set_handling p) ev (cbs p) t w = Inr w' \<and> I None w'" for ev
  proof -
    let ?w = "set_chan p (c\<lparr>ch_eventHandling := True\<rparr>) w"
    obtain w2 where w2: "foldR (run_cb (cbs p) t) (dispatch ev) ?w = Inr w2" "I (Some p) w2"
      using foldR_keeps [of "I (Some p)" "run_cb (cbs p) t" ?w] run_cb_keeps [OF assms(3)] mark [OF assms(1) c] by blast
    moreover obtain c2 where c2: "heap w2 p = Some c2" using live [OF w2(2) assms(2)] by blast
    ultimately show ?thesis using c unmark [OF w2(2) c2]
      by (simp add: handleEventWithGuard_dispatch set_handling_def deref_def)
  qed
  then show ?thesis using c assms(1) by (auto simp: handleEvent_def deref_def split: option.splits)
qed

lemma handle_active_keeps:
  assumes "I None w" "set ps \<subseteq> S" "\<And>p. callbacks_keep (I (Some p)) (cbs p)"
  shows "\<exists>w'. handle_active alive cbs t ps w = Inr w' \<and> I None w'"
  using assms(1,2)
proof (induction ps arbitrary: w)
  case (Cons p ps)
  from handleEvent_keeps [of _ p cbs alive t, OF current [OF Cons.prems(1)] _ assms(3)] Cons.prems(2) obtain w1 where
    "handleEvent alive cbs t p (w\<lparr>currentActiveChannel := Some p\<rparr>) = Inr w1" "I None w1" by auto
  with Cons.IH [of w1] Cons.prems(2) show ?case by simp
qed simp

end

lemma handling_reactor_inv:
  assumes inv: "reactor_inv interest w" and c: "heap w p = Some c"
  shows "reactor_inv interest (set_chan p (c\<lparr>ch_eventHandling := b\<rparr>) w)"
proof -
  let ?w = "set_chan p (c\<lparr>ch_eventHandling := b\<rparr>) w"
  note invD = reactor_invD [OF inv]
  have "watched ?w = watched w"
    using c by (auto simp: watched_def fun_eq_iff split: option.splits)
  moreover have "chan_inv ?w q d" if "heap ?w q = Some d" for q d
    using that invD(2) [of q] invD(2) [OF c] by (auto simp: chan_inv_def isNoneEvent_def split: if_splits)
  moreover have "\<exists>d. heap ?w q = Some d \<and> ch_fd d = fd" if "channels ?w fd = Some q" for fd q
    using that invD(3) [of fd q] c by auto
  ultimately show ?thesis using invD(1,4) by (simp add: reactor_inv_def)
qed

lemma live_inv_cong:
  assumes "heap v = heap w" "channels v = channels w" "kern v = kern w" "inLoopThread v = inLoopThread w"
  shows "live_inv interest S v \<longleftrightarrow> live_inv interest S w"
  using reactor_inv_cong [OF assms] assms(1) by (simp add: live_inv_def)

interpretation live: handled_world "\<lambda>x. live_inv interest S" S for interest S
proof
  fix w :: "('a, 'b) reactor_scheme" and p c y
  assume w: "live_inv interest S w"
  show "\<exists>c. heap w p = Some c" if "p \<in> S" using w that by (auto simp: live_inv_def)
  show "live_inv interest S (set_chan p (c\<lparr>ch_eventHandling := b\<rparr>) w)" if "heap w p = Some c" for b
    using w that handling_reactor_inv [OF _ that] by (auto simp: live_inv_def)
  then show "live_inv interest S (set_chan p (c\<lparr>ch_eventHandling := False\<rparr>) w)" if "heap w p = Some c" using that .
  show "live_inv interest S (w\<lparr>currentActiveChannel := y\<rparr>)" using w by (subst live_inv_cong [of _ w]) simp_all
qed

section \<open>Properties of the event loop\<close>


lemma reach_EventLoop: "reach (\<lambda>s. s = EventLoop) (loop_step early) EventLoop"
  by (rule reach_init) simp

lemma reach_started: "reach (\<lambda>s. s = EventLoop) (loop_step early) (EventLoop\<lparr>looping := True, pc := Started\<rparr>)"
  by (rule reach_step [OF reach_EventLoop start]) (simp_all add: EventLoop_def)

lemma reach_poll: "reach (\<lambda>s. s = EventLoop) (loop_step early)
  (EventLoop\<lparr>looping := True, pc := Poll\<rparr>)"
proof -
  let ?R = "reach (\<lambda>s. s = EventLoop) (loop_step early)"
  from reach_step [OF reach_started clear] have "?R (EventLoop\<lparr>looping := True, pc := Test\<rparr>)" by (simp add: EventLoop_def)
  from reach_step [OF this enter] show ?thesis by (simp add: EventLoop_def)
qed




text \<open>A \<^verbatim>\<open>quit\<close> that another thread calls while the loop is starting is lost: the flag is set after \<^verbatim>\<open>looping_\<close> and
  before \<^verbatim>\<open>quit_ = false\<close>, so the call takes effect, its wakeup is consumed, and the loop blocks in the poll again.\<close>

theorem quit_lost:
  "\<exists>s t :: 'f eloop. reach (\<lambda>s. s = EventLoop) (loop_step False) s \<and> looping s \<and>
     (loop_step False)\<^sup>*\<^sup>* (quit_loop False s) t \<and> pc t = Poll \<and> \<not> quit_flag t \<and> wakeupCount t = 0 \<and> waking t = 0"
proof -
  let ?s = "EventLoop\<lparr>looping := True, pc := Started\<rparr> :: 'f eloop"
  let ?R = "(loop_step False)\<^sup>*\<^sup>*" and ?S = "\<lambda>n w p. EventLoop\<lparr>looping := True, wakeupCount := n, waking := w, pc := p\<rparr> :: 'f eloop"
  have s: "reach (\<lambda>s. s = EventLoop) (loop_step False) ?s"
    by (rule reach_started)
  have "loop_step False (quit_loop False ?s) (?S 0 1 Test)"
    using clear [of "quit_loop False ?s" False] by (simp add: loop_ops EventLoop_def)
  moreover have "loop_step False (?S 0 1 Test) (?S 1 0 Test)"
    using other_wake [of "?S 0 1 Test" False] by (simp add: loop_ops EventLoop_def)
  moreover have "loop_step False (?S 1 0 Test) (?S 1 0 Poll)"
    using enter [of "?S 1 0 Test" False] by (simp add: EventLoop_def)
  moreover have "loop_step False (?S 1 0 Poll) (?S 1 0 Handle)"
    using polled [of "?S 1 0 Poll" False] by (simp add: EventLoop_def)
  moreover have "loop_step False (?S 1 0 Handle) (?S 0 0 Handle)"
    using read [of "?S 1 0 Handle" False] by (simp add: loop_ops EventLoop_def)
  moreover have "loop_step False (?S 0 0 Handle) (?S 0 0 Swap)"
    using handled [of "?S 0 0 Handle" False] by (simp add: EventLoop_def)
  moreover have "loop_step False (?S 0 0 Swap) ((?S 0 0 (Run []))\<lparr>callingPendingFunctors := True\<rparr>)"
    using swap [of "?S 0 0 Swap" False] by (simp add: loop_ops EventLoop_def)
  moreover have "loop_step False ((?S 0 0 (Run []))\<lparr>callingPendingFunctors := True\<rparr>) (?S 0 0 Test)"
    using finish [of "(?S 0 0 (Run []))\<lparr>callingPendingFunctors := True\<rparr>" False] by (simp add: loop_ops EventLoop_def)
  moreover have "loop_step False (?S 0 0 Test) (?S 0 0 Poll)"
    using enter [of "?S 0 0 Test" False] by (simp add: EventLoop_def)
  ultimately have "?R (quit_loop False ?s) (?S 0 0 Poll)" by (meson converse_rtranclp_into_rtranclp rtranclp.rtrancl_refl)
  with s show ?thesis by (intro exI [of _ ?s] exI [of _ "?S 0 0 Poll"]) (simp add: EventLoop_def)
qed

text \<open>A functor that the loop thread itself queues before it calls \<^verbatim>\<open>loop\<close> is not signalled: the loop can block in
  its first poll with the functor pending, until some event or the poll timeout.\<close>

theorem early_functor_waits:
  "\<exists>s :: nat eloop. reach (\<lambda>s. s = EventLoop) (loop_step True) s \<and> pc s = Poll \<and> pendingFunctors s \<noteq> [] \<and>
     wakeupCount s = 0 \<and> waking s = 0"
proof -
  let ?S = "\<lambda>p l. EventLoop\<lparr>looping := l, pendingFunctors := [7], queued := [7], pc := p\<rparr> :: nat eloop"
  let ?R = "reach (\<lambda>s. s = EventLoop) (loop_step True)"
  have "?R (?S Outside False)"
    using reach_step [OF reach_EventLoop self_queue [of "EventLoop :: nat eloop" True 7]]
    by (simp add: loop_ops EventLoop_def)
  note r0 = this
  have "?R (?S Started True)"
    using reach_step [OF r0 start] by (simp add: EventLoop_def)
  note r1 = this
  have "?R (?S Test True)" using reach_step [OF r1 clear] by (simp add: EventLoop_def)
  note r2 = this
  have "?R (?S Poll True)" using reach_step [OF r2 enter] by (simp add: EventLoop_def)
  then show ?thesis by (intro exI [of _ "?S Poll True"]) (simp add: EventLoop_def)
qed

text \<open>Once \<^verbatim>\<open>quit_\<close> is set in a loop that has started, the loop thread does not enter the poll again: from every
  state outside of the poll each step leaves the flag set until the loop is left.\<close>

theorem quit_no_more_polls:
  assumes "quit_flag s" "pc s \<notin> {Outside, Started, Poll}" "looping s" "loop_step early s t"
  shows "quit_flag t \<and> looping t \<and> pc t \<notin> {Outside, Started, Poll} \<or> pc t = Outside \<and> pc s = Test"
  using assms(4,1,2,3) by cases (auto simp: loop_ops)

theorem quit_no_more_polls_witness:
  "quit_flag (EventLoop\<lparr>looping := True, quit_flag := True, pc := Swap\<rparr> :: nat eloop) \<and>
   pc (swap_pending (EventLoop\<lparr>looping := True, quit_flag := True, pc := Swap\<rparr> :: nat eloop)) \<noteq> Poll"
proof -
  let ?s = "EventLoop\<lparr>looping := True, quit_flag := True, pc := Swap\<rparr> :: nat eloop"
  have "loop_step False ?s (swap_pending ?s)" by (rule swap) simp
  from quit_no_more_polls [OF _ _ _ this] show ?thesis by auto
qed

text \<open>One iteration of the loop fails no assert and touches no dead channel, provided that the kernel's answer is
  one it can give and that callbacks keep the poller consistent and delete no channel; afterwards no event is
  being handled and there is no current channel.\<close>

theorem loop_iteration_safe:
  assumes "reactor_inv interest w" "reply_ok interest es w"
    "\<And>p. callbacks_keep (live_inv interest (dom (heap w))) (cbs p)"
  shows "\<exists>w'. loop_iteration alive cbs now (Ready es) Inr w = Inr w' \<and> reactor_inv interest w' \<and>
    dom (heap w) \<subseteq> dom (heap w') \<and> \<not> eventHandling w' \<and> currentActiveChannel w' = None"
proof -
  let ?S = "dom (heap w)" and ?w = "w\<lparr>activeChannels := []\<rparr>"
  have inv0: "reactor_inv interest ?w" using assms(1) by (subst reactor_inv_cong [of _ w]) simp_all
  have r0: "reply_ok interest es ?w" using assms(2) by (simp add: reply_ok_def)
  have "\<exists>w1. poll (Ready es) ?w = Inr w1 \<and> live_inv interest ?S w1 \<and> set (activeChannels w1) \<subseteq> ?S"
  proof -
    obtain w1 where w1: "poll (Ready es) ?w = Inr w1" "reactor_inv interest w1" "activeChannels w1 = map snd es"
        "\<forall>(ev, p) \<in> set es. \<exists>c. heap w1 p = Some c \<and> ch_revents c = ev"
        "\<forall>p. p \<notin> snd ` set es \<longrightarrow> heap w1 p = heap ?w p"
      using poll_ok [OF inv0 r0] by auto
    have "p \<in> ?S" if "(ev, p) \<in> set es" for ev p
      using that assms(2) watched_live [OF assms(1)] by (fastforce simp: reply_ok_def)
    then have "set (activeChannels w1) \<subseteq> ?S" using w1(3) by fastforce
    moreover have "p \<in> dom (heap w1)" if "p \<in> ?S" for p
      using that w1(4,5) by (cases "p \<in> snd ` set es") (fastforce simp: domIff)+
    ultimately show ?thesis using w1(1,2) by (auto simp: live_inv_def)
  qed
  then obtain w1 where w1: "poll (Ready es) ?w = Inr w1" "live_inv interest ?S w1" "set (activeChannels w1) \<subseteq> ?S" by blast
  have "live_inv interest ?S (w1\<lparr>eventHandling := True\<rparr>)" using w1(2) by (subst live_inv_cong [of _ w1]) simp_all
  from live.handle_active_keeps [where cbs = cbs, OF this w1(3) assms(3), of alive now] obtain w2 where
    w2: "handle_active alive cbs now (activeChannels w1) (w1\<lparr>eventHandling := True\<rparr>) = Inr w2" "live_inv interest ?S w2" by blast
  let ?w' = "w2\<lparr>currentActiveChannel := None, eventHandling := False\<rparr>"
  have "live_inv interest ?S ?w'" using w2(2) by (subst live_inv_cong [of _ w2]) simp_all
  then show ?thesis using w1(1) w2(1) by (auto simp: loop_iteration_def live_inv_def)
qed


theorem loop_iteration_safe_witness:
  "\<exists>w'. loop_iteration (\<lambda>_ _. True) (\<lambda>_. \<lparr>readCallback = None, writeCallback = None, closeCallback = None, errorCallback = None\<rparr>)
      (0 :: int) (Ready [(1, 7)]) Inr
      \<lparr>heap = [7 \<mapsto> (Channel 5)\<lparr>ch_events := 3, ch_index := 1, ch_addedToLoop := True\<rparr>],
       channels = [5 \<mapsto> 7], events_size = 1, kern = [5 \<mapsto> (3, 7)] :: int \<Rightarrow> epoll_event option, inLoopThread = True,
       eventHandling = False, activeChannels = [], currentActiveChannel = None\<rparr> = Inr w' \<and> \<not> eventHandling w'"
proof -
  let ?w = "\<lparr>heap = [7 \<mapsto> (Channel 5)\<lparr>ch_events := 3, ch_index := 1, ch_addedToLoop := True\<rparr>],
      channels = [5 \<mapsto> 7], events_size = 1, kern = [5 \<mapsto> (3, 7)], inLoopThread = True, eventHandling = False,
      activeChannels = [], currentActiveChannel = None\<rparr> :: (int \<Rightarrow> epoll_event option) reactor"
  have "watched ?w = [5 \<mapsto> (3, 7)]"
    by (auto simp: watched_def Channel_def index_defs fun_eq_iff split: option.splits if_splits)
  then have inv: "reactor_inv (\<lambda>k. k) ?w"
    by (auto simp: reactor_inv_def chan_inv_def Channel_def index_defs split: if_splits)
  have rep: "reply_ok (\<lambda>k. k) [(1, 7)] ?w" by (auto simp: reply_ok_def)
  have keep: "callbacks_keep (live_inv (\<lambda>k. k) (dom (heap ?w)))
      (\<lparr>readCallback = None, writeCallback = None, closeCallback = None, errorCallback = None\<rparr> ::
        (int, (int \<Rightarrow> epoll_event option) reactor) callbacks)"
    by (simp add: callbacks_keep_def)
  show ?thesis using loop_iteration_safe [OF inv rep keep] by blast
qed

end
