(* ===== verification/Lute_TimerQueue.thy ===== *)
theory Lute_TimerQueue
  imports Complex_Main Lute_Prelude "HOL-Library.Product_Lexorder"
begin

text \<open>
  Timers, \<^verbatim>\<open>polaris/src/Timer.cc\<close> and \<^verbatim>\<open>polaris/src/TimerQueue.cc\<close>.  Timers live on a heap and are
  deleted by hand, so a use after a delete and a leak are visible.  The two \<^verbatim>\<open>std::set\<close>s are sorted
  lists.  \<^verbatim>\<open>addTime\<close> and \<^verbatim>\<open>Timestamp::valid\<close> belong to another library and are parameters; the clock,
  the addresses that \<^verbatim>\<open>new\<close> returns and what a timer callback does (a list of calls of \<^verbatim>\<open>addTimer\<close> and
  \<^verbatim>\<open>cancel\<close>) are inputs.
\<close>

section \<open>Timers\<close>

record timer =
  t_expiration :: timestamp
  t_interval :: rat
  t_repeat :: bool
  t_sequence :: nat

definition Timer :: "timestamp \<Rightarrow> rat \<Rightarrow> nat \<Rightarrow> timer" where
  "Timer whn interval seq =
     \<lparr>t_expiration = whn, t_interval = interval, t_repeat = (interval > 0), t_sequence = seq\<rparr>"

text \<open>What the timestamp library provides.\<close>

record ts_lib =
  addTime :: "timestamp \<Rightarrow> rat \<Rightarrow> timestamp"
  ts_valid :: "timestamp \<Rightarrow> bool"
  ts_invalid :: timestamp
  ts_default :: timestamp

definition restart :: "ts_lib \<Rightarrow> timestamp \<Rightarrow> timer \<Rightarrow> timer" where
  "restart lib now t =
     (if t_repeat t then t\<lparr>t_expiration := addTime lib now (t_interval t)\<rparr>
      else t\<lparr>t_expiration := ts_invalid lib\<rparr>)"

type_synonym timerId = "addr \<times> nat"

definition kMicroSecondsPerSecond :: int where
  "kMicroSecondsPerSecond = 1000000"

definition howMuchTimeFromNow :: "timestamp \<Rightarrow> timestamp \<Rightarrow> int \<times> int" where
  "howMuchTimeFromNow now whn =
     (let microseconds = whn - now; microseconds = (if microseconds < 100 then 100 else microseconds)
      in (microseconds div kMicroSecondsPerSecond, (microseconds mod kMicroSecondsPerSecond) * 1000))"

section \<open>The queue\<close>

text \<open>
  \<open>tq_armed\<close> is what the kernel timer is set to: the expiration and the relative \<^verbatim>\<open>timespec\<close> of the
  last \<^verbatim>\<open>timerfd_settime\<close>, none once it has fired.
\<close>

record timerQueue =
  tq_heap :: "addr \<rightharpoonup> timer"
  tq_timers :: "(timestamp \<times> addr) list"
  tq_activeTimers :: "timerId list"
  tq_callingExpiredTimers :: bool
  tq_cancelingTimers :: "timerId list"
  tq_numCreated :: nat
  tq_armed :: "(timestamp \<times> int \<times> int) option"

definition TimerQueue :: timerQueue where
  "TimerQueue = \<lparr>tq_heap = Map.empty, tq_timers = [], tq_activeTimers = [], tq_callingExpiredTimers = False,
     tq_cancelingTimers = [], tq_numCreated = 0, tq_armed = None\<rparr>"

text \<open>\<^verbatim>\<open>std::set\<close>: insertion with the flag it returns, and erasure with the number of elements erased.\<close>

definition set_insert :: "'a :: linorder \<Rightarrow> 'a list \<Rightarrow> 'a list \<times> bool" where
  "set_insert x xs = (if x \<in> set xs then (xs, False) else (insort x xs, True))"

definition set_erase :: "'a :: linorder \<Rightarrow> 'a list \<Rightarrow> 'a list \<times> nat" where
  "set_erase x xs = (if x \<in> set xs then (remove1 x xs, 1) else (xs, 0))"

definition tderef :: "addr \<Rightarrow> timerQueue \<Rightarrow> (timer \<Rightarrow> 'a result) \<Rightarrow> 'a result" where
  "tderef p q f = (case tq_heap q p of None \<Rightarrow> Inl UseAfterFree | Some t \<Rightarrow> f t)"

definition tdelete :: "addr \<Rightarrow> timerQueue \<Rightarrow> timerQueue result" where
  "tdelete p q = tderef p q (\<lambda>_. Inr (q\<lparr>tq_heap := (tq_heap q)(p := None)\<rparr>))"

definition resetTimerfd :: "timestamp \<Rightarrow> timestamp \<Rightarrow> timerQueue \<Rightarrow> timerQueue" where
  "resetTimerfd clock expiration q =
     q\<lparr>tq_armed := Some (expiration, howMuchTimeFromNow clock expiration)\<rparr>"

definition insert_timer :: "addr \<Rightarrow> timerQueue \<Rightarrow> (bool \<times> timerQueue) result" where
  "insert_timer p q =
     assertR (length (tq_timers q) = length (tq_activeTimers q))
       (tderef p q (\<lambda>t.
         let whn = t_expiration t;
             earliestChanged = (tq_timers q = [] \<or> whn < fst (hd (tq_timers q)));
             (ts, fresh1) = set_insert (whn, p) (tq_timers q);
             (as, fresh2) = set_insert (p, t_sequence t) (tq_activeTimers q)
         in assertR fresh1 (assertR fresh2
              (assertR (length ts = length as)
                (Inr (earliestChanged, q\<lparr>tq_timers := ts, tq_activeTimers := as\<rparr>))))))"

definition addTimerInLoop :: "timestamp \<Rightarrow> addr \<Rightarrow> timerQueue \<Rightarrow> timerQueue result" where
  "addTimerInLoop clock p q =
     bindR (insert_timer p q) (\<lambda>(earliestChanged, q1).
       if earliestChanged then tderef p q1 (\<lambda>t. Inr (resetTimerfd clock (t_expiration t) q1)) else Inr q1)"

text \<open>
  \<^verbatim>\<open>addTimer\<close> in its three parts, which are not atomic when another thread calls it: \<^verbatim>\<open>new Timer\<close> at
  the address \<open>p\<close>, the functor that the loop runs, and the read of the sequence number for the \<^verbatim>\<open>TimerId\<close>.
\<close>

definition new_timer :: "addr \<Rightarrow> timestamp \<Rightarrow> rat \<Rightarrow> timerQueue \<Rightarrow> timerQueue" where
  "new_timer p whn interval q =
     q\<lparr>tq_heap := (tq_heap q)(p \<mapsto> Timer whn interval (Suc (tq_numCreated q))),
       tq_numCreated := Suc (tq_numCreated q)\<rparr>"

definition make_timerId :: "addr \<Rightarrow> timerQueue \<Rightarrow> timerId result" where
  "make_timerId p q = tderef p q (\<lambda>t. Inr (p, t_sequence t))"

definition addTimer :: "timestamp \<Rightarrow> addr \<Rightarrow> timestamp \<Rightarrow> rat \<Rightarrow> timerQueue \<Rightarrow> (timerId \<times> timerQueue) result" where
  "addTimer clock p whn interval q =
     bindR (addTimerInLoop clock p (new_timer p whn interval q)) (\<lambda>q1.
     bindR (make_timerId p q1) (\<lambda>tid. Inr (tid, q1)))"

definition cancelInLoop :: "timerId \<Rightarrow> timerQueue \<Rightarrow> timerQueue result" where
  "cancelInLoop tid q =
     assertR (length (tq_timers q) = length (tq_activeTimers q))
       (bindR
         (if tid \<in> set (tq_activeTimers q)
          then tderef (fst tid) q (\<lambda>t.
            let (ts, n) = set_erase (t_expiration t, fst tid) (tq_timers q)
            in assertR (n = 1)
                 (bindR (tdelete (fst tid) (q\<lparr>tq_timers := ts\<rparr>)) (\<lambda>q1.
                    Inr (q1\<lparr>tq_activeTimers := remove1 tid (tq_activeTimers q1)\<rparr>))))
          else if tq_callingExpiredTimers q
          then Inr (q\<lparr>tq_cancelingTimers := fst (set_insert tid (tq_cancelingTimers q))\<rparr>)
          else Inr q)
         (\<lambda>q2. assertR (length (tq_timers q2) = length (tq_activeTimers q2)) (Inr q2)))"

fun erase_active :: "(timestamp \<times> addr) list \<Rightarrow> timerQueue \<Rightarrow> timerQueue result" where
  "erase_active [] q = Inr q"
| "erase_active ((e, p) # es) q =
     tderef p q (\<lambda>t.
       let (as, n) = set_erase (p, t_sequence t) (tq_activeTimers q)
       in assertR (n = 1) (erase_active es (q\<lparr>tq_activeTimers := as\<rparr>)))"

definition UINTPTR_MAX :: addr where
  "UINTPTR_MAX = 2 ^ 64 - 1"

text \<open>\<^verbatim>\<open>lower_bound(sentry)\<close> splits the list at the first entry that is not less than the sentry.\<close>

definition getExpired :: "timestamp \<Rightarrow> timerQueue \<Rightarrow> ((timestamp \<times> addr) list \<times> timerQueue) result" where
  "getExpired now q =
     assertR (length (tq_timers q) = length (tq_activeTimers q))
       (let expired = takeWhile (\<lambda>x. x < (now, UINTPTR_MAX)) (tq_timers q);
            rest = dropWhile (\<lambda>x. x < (now, UINTPTR_MAX)) (tq_timers q)
        in assertR (rest = [] \<or> now < fst (hd rest))
             (bindR (erase_active expired (q\<lparr>tq_timers := rest\<rparr>)) (\<lambda>q1.
                assertR (length (tq_timers q1) = length (tq_activeTimers q1)) (Inr (expired, q1)))))"

fun reset_expired :: "ts_lib \<Rightarrow> timestamp \<Rightarrow> (timestamp \<times> addr) list \<Rightarrow> timerQueue \<Rightarrow> timerQueue result" where
  "reset_expired lib now [] q = Inr q"
| "reset_expired lib now ((e, p) # es) q =
     tderef p q (\<lambda>t.
       bindR
         (if t_repeat t \<and> (p, t_sequence t) \<notin> set (tq_cancelingTimers q)
          then bindR (insert_timer p (q\<lparr>tq_heap := (tq_heap q)(p \<mapsto> restart lib now t)\<rparr>)) (\<lambda>(_, q1). Inr q1)
          else tdelete p q)
         (reset_expired lib now es))"

definition reset_tq :: "ts_lib \<Rightarrow> timestamp \<Rightarrow> timestamp \<Rightarrow> (timestamp \<times> addr) list \<Rightarrow> timerQueue \<Rightarrow> timerQueue result" where
  "reset_tq lib clock now expired q =
     bindR (reset_expired lib now expired q) (\<lambda>q1.
       case tq_timers q1 of
         [] \<Rightarrow> if ts_valid lib (ts_default lib) then Inr (resetTimerfd clock (ts_default lib) q1) else Inr q1
       | (_, p) # _ \<Rightarrow> tderef p q1 (\<lambda>t.
           if ts_valid lib (t_expiration t) then Inr (resetTimerfd clock (t_expiration t) q1) else Inr q1))"

section \<open>Callbacks and the alarm\<close>

datatype timer_cmd = AddT addr timestamp rat timestamp | CancelT timerId

fun timer_exec :: "timer_cmd \<Rightarrow> timerQueue \<Rightarrow> timerQueue result" where
  "timer_exec (AddT p whn interval clock) q = bindR (addTimer clock p whn interval q) (\<lambda>(_, q1). Inr q1)"
| "timer_exec (CancelT tid) q = cancelInLoop tid q"

text \<open>\<^verbatim>\<open>Timer::run\<close>: the callback of the timer at \<open>p\<close> does what \<open>acts p\<close> says.\<close>

definition run_timer :: "(addr \<Rightarrow> timer_cmd list) \<Rightarrow> timestamp \<times> addr \<Rightarrow> timerQueue \<Rightarrow> timerQueue result" where
  "run_timer acts entry q = tderef (snd entry) q (\<lambda>_. foldR timer_exec (acts (snd entry)) q)"

text \<open>The alarm at time \<open>now\<close>; reading the descriptor finds the timer fired, \<open>clock\<close> is the time at its end.\<close>

definition handleRead_tq ::
  "ts_lib \<Rightarrow> timestamp \<Rightarrow> timestamp \<Rightarrow> (addr \<Rightarrow> timer_cmd list) \<Rightarrow> timerQueue \<Rightarrow> timerQueue result" where
  "handleRead_tq lib now clock acts q =
     bindR (getExpired now (q\<lparr>tq_armed := None\<rparr>)) (\<lambda>(expired, q1).
     bindR (foldR (run_timer acts) expired (q1\<lparr>tq_callingExpiredTimers := True, tq_cancelingTimers := []\<rparr>)) (\<lambda>q2.
       reset_tq lib clock now expired (q2\<lparr>tq_callingExpiredTimers := False\<rparr>)))"

text \<open>The destructor deletes every timer of the list.\<close>

definition TimerQueue_dtor :: "timerQueue \<Rightarrow> timerQueue result" where
  "TimerQueue_dtor q = foldR (\<lambda>(e, p). tdelete p) (tq_timers q) q"


section \<open>The invariant\<close>

text \<open>
  The list and the set of active timers hold the same live timers; the timers of \<open>E\<close> are alive but
  detached from the queue (just created, or expired and not yet reset); there are no others, so nothing
  leaks; and no two live timers share a sequence number.
\<close>

definition seq_of :: "timerQueue \<Rightarrow> addr \<Rightarrow> timerId" where
  "seq_of q p = (p, case tq_heap q p of Some t \<Rightarrow> t_sequence t | None \<Rightarrow> 0)"

definition tq_inv :: "addr set \<Rightarrow> timerQueue \<Rightarrow> bool" where
  "tq_inv E q \<longleftrightarrow>
     sorted (tq_timers q) \<and> distinct (tq_timers q) \<and> distinct (tq_activeTimers q) \<and>
     (\<forall>e p. (e, p) \<in> set (tq_timers q) \<longrightarrow> (\<exists>t. tq_heap q p = Some t \<and> t_expiration t = e)) \<and>
     set (tq_activeTimers q) = seq_of q ` snd ` set (tq_timers q) \<and>
     dom (tq_heap q) = snd ` set (tq_timers q) \<union> E \<and> E \<inter> snd ` set (tq_timers q) = {} \<and>
     (\<forall>p t. tq_heap q p = Some t \<longrightarrow> p < UINTPTR_MAX \<and> t_sequence t \<le> tq_numCreated q \<and> t_repeat t = (0 < t_interval t)) \<and>
     (\<forall>p p' t t'. tq_heap q p = Some t \<longrightarrow> tq_heap q p' = Some t' \<longrightarrow> t_sequence t = t_sequence t' \<longrightarrow> p = p')"

lemma tq_invD:
  assumes "tq_inv E q"
  shows "sorted (tq_timers q)" "distinct (tq_timers q)" "distinct (tq_activeTimers q)"
    "(e, p) \<in> set (tq_timers q) \<Longrightarrow> \<exists>t. tq_heap q p = Some t \<and> t_expiration t = e"
    "set (tq_activeTimers q) = seq_of q ` snd ` set (tq_timers q)"
    "dom (tq_heap q) = snd ` set (tq_timers q) \<union> E" "E \<inter> snd ` set (tq_timers q) = {}"
    "tq_heap q p = Some t \<Longrightarrow> p < UINTPTR_MAX \<and> t_sequence t \<le> tq_numCreated q \<and> t_repeat t = (0 < t_interval t)"
    "tq_heap q p = Some t \<Longrightarrow> tq_heap q p' = Some t' \<Longrightarrow> t_sequence t = t_sequence t' \<Longrightarrow> p = p'"
  using assms unfolding tq_inv_def by blast+

lemmas tq_invI = tq_inv_def [THEN iffD2, OF conjI, OF _ conjI, OF _ _ conjI, OF _ _ _ conjI, OF _ _ _ _ conjI,
  OF _ _ _ _ _ conjI, OF _ _ _ _ _ _ conjI, OF _ _ _ _ _ _ _ conjI]

lemma seq_of_inj: "inj (seq_of q)"
  by (auto simp: inj_def seq_of_def)

lemma tq_length:
  assumes "tq_inv E q"
  shows "length (tq_timers q) = length (tq_activeTimers q)"
proof -
  note D = tq_invD [OF assms]
  have "e = e'" if "(e, p) \<in> set (tq_timers q)" "(e', p) \<in> set (tq_timers q)" for e e' p
    using D(4) [OF that(1)] D(4) [OF that(2)] by auto
  then have "inj_on snd (set (tq_timers q))" by (fastforce simp: inj_on_def)
  then have "card (snd ` set (tq_timers q)) = card (set (tq_timers q))" by (rule card_image)
  moreover have "card (set (tq_activeTimers q)) = card (snd ` set (tq_timers q))"
    unfolding D(5) by (rule card_image [OF inj_on_subset [OF seq_of_inj subset_UNIV]])
  ultimately show ?thesis using D(2,3) by (simp add: distinct_card)
qed

lemma TimerQueue_inv: "tq_inv {} TimerQueue"
  by (simp add: tq_inv_def TimerQueue_def)

subsection \<open>Allocation, insertion, deletion\<close>

lemma seq_of_upd: "q \<noteq> p \<Longrightarrow> seq_of (s\<lparr>tq_heap := (tq_heap s)(p := x)\<rparr>) q = seq_of s q"
  by (simp add: seq_of_def)

lemma new_timer_inv:
  assumes inv: "tq_inv E q" and p: "tq_heap q p = None" "p < UINTPTR_MAX"
  shows "tq_inv (insert p E) (new_timer p whn interval q)" "p \<notin> E"
proof -
  note D = tq_invD [OF inv]
  have no: "p \<notin> snd ` set (tq_timers q)" "p \<notin> E" using D(6) p(1) by (metis UnCI domIff)+
  have "seq_of (new_timer p whn interval q) ` snd ` set (tq_timers q) = seq_of q ` snd ` set (tq_timers q)"
    using no(1) by (intro image_cong) (auto simp: seq_of_def new_timer_def)
  note seqs = this
  show "tq_inv (insert p E) (new_timer p whn interval q)" (is "tq_inv _ ?q")
  proof (rule tq_invI)
    show "\<forall>e r. (e, r) \<in> set (tq_timers ?q) \<longrightarrow> (\<exists>t. tq_heap ?q r = Some t \<and> t_expiration t = e)"
      using D(4) no(1) by (auto simp: new_timer_def image_iff)
    show "set (tq_activeTimers ?q) = seq_of ?q ` snd ` set (tq_timers ?q)" using D(5) seqs by (simp add: new_timer_def)
    show "dom (tq_heap ?q) = snd ` set (tq_timers ?q) \<union> insert p E" using D(6) by (simp add: new_timer_def)
    show "insert p E \<inter> snd ` set (tq_timers ?q) = {}" using D(7) no by (simp add: new_timer_def)
    show "\<forall>r t. tq_heap ?q r = Some t \<longrightarrow> r < UINTPTR_MAX \<and> t_sequence t \<le> tq_numCreated ?q \<and> t_repeat t = (0 < t_interval t)"
      using D(8) p(2) by (auto simp: new_timer_def Timer_def le_SucI)
    show "\<forall>r r' t t'. tq_heap ?q r = Some t \<longrightarrow> tq_heap ?q r' = Some t' \<longrightarrow> t_sequence t = t_sequence t' \<longrightarrow> r = r'"
    proof (intro allI impI)
      fix r r' t t'
      assume a: "tq_heap ?q r = Some t" "tq_heap ?q r' = Some t'" "t_sequence t = t_sequence t'"
      have old: "t_sequence u \<le> tq_numCreated q" if "tq_heap ?q x = Some u" "x \<noteq> p" for x u
        using that D(8) [of x u] by (simp add: new_timer_def)
      have new: "t_sequence u = Suc (tq_numCreated q)" if "tq_heap ?q p = Some u" for u
        using that by (auto simp: new_timer_def Timer_def)
      show "r = r'"
      proof (cases "r = p \<or> r' = p")
        case True
        then show ?thesis using a old [of r t] old [of r' t'] new by fastforce
      next
        case False
        then show ?thesis using a D(9) [of r t r' t'] by (simp add: new_timer_def)
      qed
    qed
  qed (use D(1-3) in \<open>simp_all add: new_timer_def\<close>)
  show "p \<notin> E" by (rule no(2))
qed

lemma insert_timer_ok:
  assumes inv: "tq_inv (insert p E) q" and p: "p \<notin> E" "tq_heap q p = Some t"
  shows "\<exists>q'. insert_timer p q = Inr (tq_timers q = [] \<or> t_expiration t < fst (hd (tq_timers q)), q') \<and> tq_inv E q' \<and>
    q' = q\<lparr>tq_timers := insort (t_expiration t, p) (tq_timers q),
      tq_activeTimers := insort (p, t_sequence t) (tq_activeTimers q)\<rparr>"
proof -
  note D = tq_invD [OF inv]
  let ?q = "q\<lparr>tq_timers := insort (t_expiration t, p) (tq_timers q),
      tq_activeTimers := insort (p, t_sequence t) (tq_activeTimers q)\<rparr>"
  have no: "p \<notin> snd ` set (tq_timers q)" using D(7) by blast
  then have n1: "(t_expiration t, p) \<notin> set (tq_timers q)" by force
  have n2: "(p, t_sequence t) \<notin> set (tq_activeTimers q)" unfolding D(5) using no by (auto simp: seq_of_def)
  have s: "seq_of ?q = seq_of q" by (auto simp: seq_of_def fun_eq_iff)
  have sp: "(p, t_sequence t) = seq_of q p" using p(2) by (simp add: seq_of_def)
  have set_ts: "snd ` set (tq_timers ?q) = insert p (snd ` set (tq_timers q))" by (simp add: set_insort_key)
  have "tq_inv E ?q"
  proof (rule tq_invI)
    show "sorted (tq_timers ?q)" using D(1) by (simp add: sorted_insort)
    show "distinct (tq_timers ?q)" "distinct (tq_activeTimers ?q)" using D(2,3) n1 n2 by (simp_all add: distinct_insort)
    show "\<forall>e r. (e, r) \<in> set (tq_timers ?q) \<longrightarrow> (\<exists>t. tq_heap ?q r = Some t \<and> t_expiration t = e)"
      using D(4) p(2) by (auto simp: set_insort_key)
    show "set (tq_activeTimers ?q) = seq_of ?q ` snd ` set (tq_timers ?q)"
      unfolding s set_ts using D(5) sp by (simp add: set_insort_key)
    show "dom (tq_heap ?q) = snd ` set (tq_timers ?q) \<union> E" unfolding set_ts using D(6) by auto
    show "E \<inter> snd ` set (tq_timers ?q) = {}" unfolding set_ts using D(7) p(1) by auto
    show "\<forall>r t. tq_heap ?q r = Some t \<longrightarrow> r < UINTPTR_MAX \<and> t_sequence t \<le> tq_numCreated ?q \<and> t_repeat t = (0 < t_interval t)" using D(8) by simp
    show "\<forall>r r' t t'. tq_heap ?q r = Some t \<longrightarrow> tq_heap ?q r' = Some t' \<longrightarrow> t_sequence t = t_sequence t' \<longrightarrow> r = r'"
      using D(9) by simp
  qed
  then show ?thesis
    using tq_length [OF inv] tq_length [of E ?q] n1 n2 p(2)
    by (simp add: insert_timer_def tderef_def set_insert_def Let_def)
qed

lemma heap_change_inv:
  assumes inv: "tq_inv E q" and p: "p \<in> E" "tq_heap q p = Some t" 
    and t': "t_sequence t' = t_sequence t" "t_repeat t' = t_repeat t" "t_interval t' = t_interval t"
  shows "tq_inv E (q\<lparr>tq_heap := (tq_heap q)(p \<mapsto> t')\<rparr>)"
proof -
  note D = tq_invD [OF inv]
  let ?q = "q\<lparr>tq_heap := (tq_heap q)(p \<mapsto> t')\<rparr>"
  have no: "p \<notin> snd ` set (tq_timers q)" using D(7) p by blast
  have s: "seq_of ?q = seq_of q" using p(2) t' by (auto simp: seq_of_def fun_eq_iff)
  show ?thesis
  proof (rule tq_invI)
    show "\<forall>e r. (e, r) \<in> set (tq_timers ?q) \<longrightarrow> (\<exists>t. tq_heap ?q r = Some t \<and> t_expiration t = e)"
      using D(4) no by (auto simp: image_iff)
    show "set (tq_activeTimers ?q) = seq_of ?q ` snd ` set (tq_timers ?q)" unfolding s using D(5) by simp
    show "dom (tq_heap ?q) = snd ` set (tq_timers ?q) \<union> E" using D(6) p by auto
    show "\<forall>r t. tq_heap ?q r = Some t \<longrightarrow> r < UINTPTR_MAX \<and> t_sequence t \<le> tq_numCreated ?q \<and> t_repeat t = (0 < t_interval t)"
      using D(8) p t' by auto
    show "\<forall>r r' t t'. tq_heap ?q r = Some t \<longrightarrow> tq_heap ?q r' = Some t' \<longrightarrow> t_sequence t = t_sequence t' \<longrightarrow> r = r'"
      using D(9) p t' by (auto split: if_splits)
  qed (use D in simp_all)
qed

lemma tdelete_ok:
  assumes inv: "tq_inv E q" and p: "p \<in> E"
  shows "tdelete p q = Inr (q\<lparr>tq_heap := (tq_heap q)(p := None)\<rparr>)"
    "tq_inv (E - {p}) (q\<lparr>tq_heap := (tq_heap q)(p := None)\<rparr>)"
proof -
  note D = tq_invD [OF inv]
  let ?q = "q\<lparr>tq_heap := (tq_heap q)(p := None)\<rparr>"
  have no: "p \<notin> snd ` set (tq_timers q)" using D(7) p by blast
  have "p \<in> dom (tq_heap q)" using D(6) p by blast
  then show "tdelete p q = Inr ?q" by (auto simp: tdelete_def tderef_def)
  have s: "seq_of ?q ` snd ` set (tq_timers q) = seq_of q ` snd ` set (tq_timers q)"
    using no by (intro image_cong) (auto simp: seq_of_def)
  show "tq_inv (E - {p}) ?q"
  proof (rule tq_invI)
    show "\<forall>e r. (e, r) \<in> set (tq_timers ?q) \<longrightarrow> (\<exists>t. tq_heap ?q r = Some t \<and> t_expiration t = e)"
      using D(4) no by (auto simp: image_iff)
    show "set (tq_activeTimers ?q) = seq_of ?q ` snd ` set (tq_timers ?q)" using D(5) s by simp
    show "dom (tq_heap ?q) = snd ` set (tq_timers ?q) \<union> (E - {p})" using D(6) no by auto
    show "(E - {p}) \<inter> snd ` set (tq_timers ?q) = {}" using D(7) by auto
    show "\<forall>r t. tq_heap ?q r = Some t \<longrightarrow> r < UINTPTR_MAX \<and> t_sequence t \<le> tq_numCreated ?q \<and> t_repeat t = (0 < t_interval t)"
      using D(8) by auto
    show "\<forall>r r' t t'. tq_heap ?q r = Some t \<longrightarrow> tq_heap ?q r' = Some t' \<longrightarrow> t_sequence t = t_sequence t' \<longrightarrow> r = r'"
      using D(9) by (auto split: if_splits)
  qed (use D in simp_all)
qed

text \<open>Detaching a timer from both sets.\<close>

lemma detach_inv:
  assumes inv: "tq_inv E q" and p: "(e, p) \<in> set (tq_timers q)" "tq_heap q p = Some t"
  shows "tq_inv (insert p E) (q\<lparr>tq_timers := remove1 (e, p) (tq_timers q),
      tq_activeTimers := remove1 (p, t_sequence t) (tq_activeTimers q)\<rparr>)"
    "(p, t_sequence t) \<in> set (tq_activeTimers q)" "t_expiration t = e"
proof -
  note D = tq_invD [OF inv]
  let ?q = "q\<lparr>tq_timers := remove1 (e, p) (tq_timers q), tq_activeTimers := remove1 (p, t_sequence t) (tq_activeTimers q)\<rparr>"
  show e: "t_expiration t = e" using D(4) [OF p(1)] p(2) by auto
  have sp: "(p, t_sequence t) = seq_of q p" using p(2) by (simp add: seq_of_def)
  show "(p, t_sequence t) \<in> set (tq_activeTimers q)" unfolding D(5) sp using p(1) by force
  have uniq: "e' = e" if "(e', p) \<in> set (tq_timers q)" for e' using D(4) [OF that] p(2) e by auto
  have ts: "set (tq_timers ?q) = set (tq_timers q) - {(e, p)}" using D(2) by simp
  have snds: "snd ` set (tq_timers ?q) = snd ` set (tq_timers q) - {p}"
  proof (rule set_eqI)
    fix r
    show "r \<in> snd ` set (tq_timers ?q) \<longleftrightarrow> r \<in> snd ` set (tq_timers q) - {p}"
      proof (cases "r = p")
      case True
      then show ?thesis unfolding ts using uniq by auto
    next
      case False
      then show ?thesis unfolding ts by (auto simp: image_iff)
    qed
  qed
  have s: "seq_of ?q = seq_of q" by (auto simp: seq_of_def fun_eq_iff)
  show "tq_inv (insert p E) ?q"
  proof (rule tq_invI)
    show "sorted (tq_timers ?q)" "distinct (tq_timers ?q)" "distinct (tq_activeTimers ?q)"
      using D(1-3) by (simp_all add: sorted_remove1)
    show "\<forall>e r. (e, r) \<in> set (tq_timers ?q) \<longrightarrow> (\<exists>t. tq_heap ?q r = Some t \<and> t_expiration t = e)"
      using D(4) ts by auto
    have "seq_of q ` (snd ` set (tq_timers q) - {p}) = seq_of q ` snd ` set (tq_timers q) - {seq_of q p}"
      using seq_of_inj [of q] by (simp add: image_set_diff)
    then show "set (tq_activeTimers ?q) = seq_of ?q ` snd ` set (tq_timers ?q)"
      unfolding s snds using D(3,5) sp by simp
    have "p \<in> snd ` set (tq_timers q)" using p(1) by force
    then show "dom (tq_heap ?q) = snd ` set (tq_timers ?q) \<union> insert p E" unfolding snds using D(6) by auto
    show "insert p E \<inter> snd ` set (tq_timers ?q) = {}" unfolding snds using D(7) by auto
  qed (use D in simp_all)
qed

subsection \<open>The calls of a client\<close>

fun timer_ok :: "ts_lib \<Rightarrow> timer_cmd \<Rightarrow> timerQueue \<Rightarrow> bool" where
  "timer_ok lib (AddT p whn interval clock) q \<longleftrightarrow> tq_heap q p = None \<and> p < UINTPTR_MAX \<and> ts_valid lib whn"
| "timer_ok lib (CancelT tid) q \<longleftrightarrow> True"

text \<open>What a call keeps: the detached timers, the phase, and the cancellations noted so far.\<close>

definition tq_keeps :: "addr set \<Rightarrow> timerQueue \<Rightarrow> timerQueue \<Rightarrow> bool" where
  "tq_keeps E q q' \<longleftrightarrow> (\<forall>p \<in> E. tq_heap q' p = tq_heap q p) \<and>
     tq_callingExpiredTimers q' = tq_callingExpiredTimers q \<and>
     set (tq_cancelingTimers q) \<subseteq> set (tq_cancelingTimers q')"

lemma tq_keeps_refl: "tq_keeps E q q"
  by (simp add: tq_keeps_def)

lemma tq_keeps_trans: "tq_keeps E q q' \<Longrightarrow> tq_keeps E q' q'' \<Longrightarrow> tq_keeps E q q''"
  by (auto simp: tq_keeps_def)

text \<open>All expirations are valid, and the kernel timer fires no later than the first of them.\<close>

definition all_valid :: "ts_lib \<Rightarrow> timerQueue \<Rightarrow> bool" where
  "all_valid lib q \<longleftrightarrow> (\<forall>(e, p) \<in> set (tq_timers q). ts_valid lib e)"

definition armed_ok :: "timerQueue \<Rightarrow> bool" where
  "armed_ok q \<longleftrightarrow> tq_timers q = [] \<or>
     (\<exists>e clock. tq_armed q = Some (e, howMuchTimeFromNow clock e) \<and> e \<le> fst (hd (tq_timers q)))"

lemma hd_insort: "xs \<noteq> [] \<Longrightarrow> hd (insort x xs) = min x (hd xs)"
  by (cases xs) (auto simp: min_def)

lemma fst_min: "fst (min x y) = min (fst x) (fst (y :: int \<times> nat))"
  by (cases x; cases y) (auto simp: min_def)

lemma sorted_hd: "sorted xs \<Longrightarrow> x \<in> set xs \<Longrightarrow> hd xs \<le> (x :: 'a :: linorder)"
  by (cases xs) auto

lemma tq_inv_fields:
  "tq_inv E (q\<lparr>tq_armed := a\<rparr>) = tq_inv E q"
  "tq_inv E (q\<lparr>tq_callingExpiredTimers := b\<rparr>) = tq_inv E q"
  "tq_inv E (q\<lparr>tq_cancelingTimers := c\<rparr>) = tq_inv E q"
  by (simp_all add: tq_inv_def seq_of_def [abs_def])

lemma addTimer_ok:
  assumes inv: "tq_inv E q" and p: "tq_heap q p = None" "p < UINTPTR_MAX"
  shows "\<exists>q'. addTimer clock p whn interval q = Inr ((p, Suc (tq_numCreated q)), q') \<and> tq_inv E q' \<and>
    tq_keeps E q q' \<and> tq_cancelingTimers q' = tq_cancelingTimers q \<and> tq_timers q' = insort (whn, p) (tq_timers q) \<and>
    tq_armed q' = (if tq_timers q = [] \<or> whn < fst (hd (tq_timers q))
                   then Some (whn, howMuchTimeFromNow clock whn) else tq_armed q)"
proof -
  let ?q = "new_timer p whn interval q" and ?t = "Timer whn interval (Suc (tq_numCreated q))"
  have n: "tq_inv (insert p E) ?q" "p \<notin> E" by (rule new_timer_inv [OF inv p])+
  have h: "tq_heap ?q p = Some ?t" by (simp add: new_timer_def)
  obtain q1 where q1: "insert_timer p ?q = Inr (tq_timers ?q = [] \<or> t_expiration ?t < fst (hd (tq_timers ?q)), q1)"
      "tq_inv E q1" "q1 = ?q\<lparr>tq_timers := insort (t_expiration ?t, p) (tq_timers ?q),
      tq_activeTimers := insort (p, t_sequence ?t) (tq_activeTimers ?q)\<rparr>"
    using insert_timer_ok [OF n h] by blast
  have ts: "tq_timers ?q = tq_timers q" "t_expiration ?t = whn" "t_sequence ?t = Suc (tq_numCreated q)"
    by (simp_all add: new_timer_def Timer_def)
  have h1: "tq_heap q1 p = Some ?t" using h by (simp add: q1(3))
  let ?q2 = "if tq_timers q = [] \<or> whn < fst (hd (tq_timers q)) then resetTimerfd clock whn q1 else q1"
  have "addTimer clock p whn interval q = Inr ((p, Suc (tq_numCreated q)), ?q2)"
    using q1(1) h1 ts by (simp add: addTimer_def addTimerInLoop_def make_timerId_def tderef_def resetTimerfd_def)
  moreover have "tq_inv E ?q2" using q1(2) by (simp add: resetTimerfd_def tq_inv_fields)
  moreover have "tq_keeps E q ?q2" using n(2) q1(3) by (auto simp: tq_keeps_def resetTimerfd_def new_timer_def)
  moreover have "tq_cancelingTimers ?q2 = tq_cancelingTimers q" using q1(3) by (simp add: resetTimerfd_def new_timer_def)
  moreover have "tq_timers ?q2 = insort (whn, p) (tq_timers q)" using q1(3) ts by (simp add: resetTimerfd_def)
  moreover have "tq_armed ?q2 = (if tq_timers q = [] \<or> whn < fst (hd (tq_timers q))
                   then Some (whn, howMuchTimeFromNow clock whn) else tq_armed q)"
    using q1(3) by (simp add: resetTimerfd_def new_timer_def)
  ultimately show ?thesis by blast
qed

lemma cancelInLoop_ok:
  assumes inv: "tq_inv E q"
  shows "\<exists>q'. cancelInLoop tid q = Inr q' \<and> tq_inv E q' \<and> tq_keeps E q q' \<and>
    set (tq_cancelingTimers q') \<subseteq> insert tid (set (tq_cancelingTimers q)) \<and>
    set (tq_timers q') \<subseteq> set (tq_timers q) \<and> tq_armed q' = tq_armed q \<and> tid \<notin> set (tq_activeTimers q') \<and>
    (tid \<in> set (tq_activeTimers q) \<longrightarrow> tq_heap q' (fst tid) = None) \<and>
    (tid \<notin> set (tq_activeTimers q) \<longrightarrow> tq_callingExpiredTimers q \<longrightarrow> tid \<in> set (tq_cancelingTimers q'))"
proof (cases "tid \<in> set (tq_activeTimers q)")
  case True
  note D = tq_invD [OF inv]
  obtain e p where p: "(e, p) \<in> set (tq_timers q)" "tid = seq_of q p" using True unfolding D(5) by auto
  then obtain t where t: "tq_heap q p = Some t" using D(4) by blast
  with p(2) have tid: "tid = (p, t_sequence t)" by (simp add: seq_of_def)
  let ?q = "q\<lparr>tq_timers := remove1 (e, p) (tq_timers q), tq_activeTimers := remove1 tid (tq_activeTimers q)\<rparr>"
  have d: "tq_inv (insert p E) ?q" "t_expiration t = e" using detach_inv [OF inv p(1) t] tid by simp_all
  let ?r = "?q\<lparr>tq_heap := (tq_heap q)(p := None)\<rparr>"
  have pE: "p \<notin> E" using D(7) p(1) by force
  have r: "tq_inv E ?r" using tdelete_ok(2) [OF d(1), of p] pE by simp
  have "cancelInLoop tid q = Inr ?r"
    using True tq_length [OF inv] tq_length [OF r] t d(2) p(1)
    by (simp add: cancelInLoop_def tderef_def tdelete_def set_erase_def tid)
  moreover have "tq_keeps E q ?r" using pE by (auto simp: tq_keeps_def)
  moreover have "tid \<notin> set (tq_activeTimers ?r)" using D(3) by simp
  moreover have "set (tq_timers ?r) \<subseteq> set (tq_timers q)" by (simp add: set_remove1_subset)
  ultimately show ?thesis using r tid True by (intro exI [of _ ?r]) (simp add: subset_insertI)
next
  case False
  let ?r = "if tq_callingExpiredTimers q
    then q\<lparr>tq_cancelingTimers := fst (set_insert tid (tq_cancelingTimers q))\<rparr> else q"
  have "cancelInLoop tid q = Inr ?r"
    using False tq_length [OF inv] by (simp add: cancelInLoop_def)
  moreover have "tq_inv E ?r" using inv by (simp add: tq_inv_fields)
  moreover have "tq_keeps E q ?r" by (auto simp: tq_keeps_def set_insert_def set_insort_key)
  ultimately show ?thesis using False
    by (intro exI [of _ ?r]) (auto simp: set_insert_def set_insort_key)
qed

text \<open>A detached timer stays detached and alive whatever the callbacks do.\<close>

definition cmds_inv :: "ts_lib \<Rightarrow> addr set \<Rightarrow> timerQueue \<Rightarrow> timerQueue \<Rightarrow> bool" where
  "cmds_inv lib E q0 q \<longleftrightarrow> tq_inv E q \<and> all_valid lib q \<and> tq_keeps E q0 q"

lemma timer_exec_safe:
  assumes "cmds_inv lib E q0 q" "timer_ok lib c q"
  shows "\<exists>q'. timer_exec c q = Inr q' \<and> cmds_inv lib E q0 q'"
proof (cases c)
  case (AddT p whn interval clock)
  have inv: "tq_inv E q" using assms(1) by (simp add: cmds_inv_def)
  from AddT assms(2) addTimer_ok [OF inv, of p clock whn interval] show ?thesis
    using assms(1) by (auto simp: cmds_inv_def all_valid_def set_insort_key intro: tq_keeps_trans)
next
  case (CancelT tid)
  have inv: "tq_inv E q" using assms(1) by (simp add: cmds_inv_def)
  from cancelInLoop_ok [OF inv, of tid] obtain q' where q': "cancelInLoop tid q = Inr q'" "tq_inv E q'"
      "tq_keeps E q q'" "set (tq_timers q') \<subseteq> set (tq_timers q)" by blast
  have "all_valid lib q'" using assms(1) q'(4) by (auto simp: cmds_inv_def all_valid_def)
  moreover have "tq_keeps E q0 q'" using assms(1) q'(3) by (auto simp: cmds_inv_def intro: tq_keeps_trans)
  ultimately show ?thesis using q' CancelT by (simp add: cmds_inv_def)
qed

interpretation timer_cmds: safe_commands timer_exec "cmds_inv lib E q0" "timer_ok lib" for lib E q0
  by unfold_locales (rule timer_exec_safe)

definition run_ok :: "ts_lib \<Rightarrow> (addr \<Rightarrow> timer_cmd list) \<Rightarrow> timestamp \<times> addr \<Rightarrow> timerQueue \<Rightarrow> bool" where
  "run_ok lib acts entry q = allowed timer_exec (timer_ok lib) (acts (snd entry)) q"

interpretation timer_runs: safe_commands "run_timer acts" "cmds_inv lib E q0"
  "\<lambda>entry q. snd entry \<in> E \<and> run_ok lib acts entry q" for acts lib E q0
proof
  fix q entry
  assume inv: "cmds_inv lib E q0 q" and ok: "snd entry \<in> E \<and> run_ok lib acts entry q"
  then have "tq_inv E q" by (simp add: cmds_inv_def)
  then have "snd entry \<in> dom (tq_heap q)" using ok tq_invD(6) by blast
  then show "\<exists>q'. run_timer acts entry q = Inr q' \<and> cmds_inv lib E q0 q'"
    using timer_cmds.foldR_safe [OF inv, of "acts (snd entry)"] ok
    by (auto simp: run_timer_def tderef_def run_ok_def)
qed

subsection \<open>Cancellation during the callbacks\<close>

text \<open>Only what a callback cancels is noted, and the cancellation of a detached timer is.\<close>

lemma timer_exec_cancels:
  assumes "tq_inv E q" "timer_ok lib c q" "timer_exec c q = Inr q'"
  shows "set (tq_cancelingTimers q') \<subseteq> set (tq_cancelingTimers q) \<union> {tid. c = CancelT tid}"
proof (cases c)
  case (AddT p whn interval clock)
  then show ?thesis using assms addTimer_ok [OF assms(1), of p clock whn interval] by auto
next
  case (CancelT tid)
  then show ?thesis using assms(3) cancelInLoop_ok [OF assms(1), of tid] by auto
qed

lemma cmds_cancels:
  assumes "cmds_inv lib E q0 q" "allowed timer_exec (timer_ok lib) cs q" "foldR timer_exec cs q = Inr q'"
  shows "set (tq_cancelingTimers q') \<subseteq> set (tq_cancelingTimers q) \<union> {tid. CancelT tid \<in> set cs}"
  using assms
proof (induction cs arbitrary: q)
  case (Cons c cs)
  have ok: "timer_ok lib c q" using Cons.prems(2) by simp
  obtain q1 where q1: "timer_exec c q = Inr q1" "cmds_inv lib E q0 q1"
    using timer_exec_safe [OF Cons.prems(1) ok] by blast
  have "set (tq_cancelingTimers q1) \<subseteq> set (tq_cancelingTimers q) \<union> {tid. c = CancelT tid}"
    using timer_exec_cancels [OF _ ok q1(1), of E] Cons.prems(1) by (simp add: cmds_inv_def)
  moreover have "set (tq_cancelingTimers q') \<subseteq> set (tq_cancelingTimers q1) \<union> {tid. CancelT tid \<in> set cs}"
    using Cons.IH [OF q1(2)] Cons.prems(2,3) q1(1) by simp
  ultimately show ?case by auto
qed simp

lemma cmds_cancel_noted:
  assumes "cmds_inv lib E q0 q" "allowed timer_exec (timer_ok lib) cs q" "foldR timer_exec cs q = Inr q'"
    "tq_callingExpiredTimers q" "p \<in> E" "CancelT (p, s) \<in> set cs"
  shows "(p, s) \<in> set (tq_cancelingTimers q')"
  using assms
proof (induction cs arbitrary: q)
  case (Cons c cs)
  have ok: "timer_ok lib c q" and inv: "tq_inv E q" using Cons.prems(1,2) by (simp_all add: cmds_inv_def)
  obtain q1 where q1: "timer_exec c q = Inr q1" "cmds_inv lib E q q1"
    using timer_exec_safe [of lib E q q c] Cons.prems(1) ok tq_keeps_refl by (auto simp: cmds_inv_def)
  have rest: "allowed timer_exec (timer_ok lib) cs q1" "foldR timer_exec cs q1 = Inr q'"
    using Cons.prems(2,3) q1(1) by simp_all
  show ?case
  proof (cases "c = CancelT (p, s)")
    case True
    have "(p, s) \<notin> set (tq_activeTimers q)"
      using tq_invD(5,7) [OF inv] Cons.prems(5) by (auto simp: seq_of_def)
    then have "(p, s) \<in> set (tq_cancelingTimers q1)"
      using cancelInLoop_ok [OF inv, of "(p, s)"] q1(1) True Cons.prems(4) by auto
    moreover have "cmds_inv lib E q1 q1" using q1(2) tq_keeps_refl by (simp add: cmds_inv_def)
    then have "cmds_inv lib E q1 q'" using timer_cmds.foldR_inv [OF _ rest] by blast
    ultimately show ?thesis by (auto simp: cmds_inv_def tq_keeps_def)
  next
    case False
    have "cmds_inv lib E q0 q1" using q1(2) Cons.prems(1) by (auto simp: cmds_inv_def intro: tq_keeps_trans)
    moreover have "tq_callingExpiredTimers q1" using q1(2) Cons.prems(4) by (simp add: cmds_inv_def tq_keeps_def)
    ultimately show ?thesis using Cons.IH [OF _ rest] Cons.prems(5,6) False by simp
  qed
qed simp

text \<open>The same for the run of all expired timers.\<close>

lemma run_timer_step:
  assumes inv: "cmds_inv lib E q0 q" and ok: "snd x \<in> E" "run_ok lib acts x q"
  shows "\<exists>q1. run_timer acts x q = Inr q1 \<and> cmds_inv lib E q0 q1 \<and> tq_keeps E q q1 \<and>
    set (tq_cancelingTimers q1) \<subseteq> set (tq_cancelingTimers q) \<union> {tid. CancelT tid \<in> set (acts (snd x))} \<and>
    (tq_callingExpiredTimers q \<longrightarrow>
      (\<forall>p s. p \<in> E \<longrightarrow> CancelT (p, s) \<in> set (acts (snd x)) \<longrightarrow> (p, s) \<in> set (tq_cancelingTimers q1)))"
proof -
  have inv': "cmds_inv lib E q q" using inv tq_keeps_refl by (simp add: cmds_inv_def)
  have al: "allowed timer_exec (timer_ok lib) (acts (snd x)) q" using ok(2) by (simp add: run_ok_def)
  obtain q1 where q1: "run_timer acts x q = Inr q1" "cmds_inv lib E q q1"
    using timer_runs.exec_safe [OF inv'] ok by blast
  have "foldR timer_exec (acts (snd x)) q = Inr q1"
    using q1(1) by (auto simp: run_timer_def tderef_def split: option.splits)
  from cmds_cancels [OF inv al this] cmds_cancel_noted [OF inv al this] q1 inv show ?thesis
    by (intro exI [of _ q1]) (auto simp: cmds_inv_def intro: tq_keeps_trans)
qed

lemma runs_ok:
  assumes "cmds_inv lib E q0 q" "allowed (run_timer acts) (run_ok lib acts) es q" "snd ` set es \<subseteq> E"
    "tq_callingExpiredTimers q"
  shows "\<exists>q'. foldR (run_timer acts) es q = Inr q' \<and> cmds_inv lib E q0 q' \<and> tq_keeps E q q' \<and>
    set (tq_cancelingTimers q') \<subseteq> set (tq_cancelingTimers q) \<union> {tid. \<exists>(e, r) \<in> set es. CancelT tid \<in> set (acts r)} \<and>
    (\<forall>p s e r. p \<in> E \<longrightarrow> (e, r) \<in> set es \<longrightarrow> CancelT (p, s) \<in> set (acts r) \<longrightarrow> (p, s) \<in> set (tq_cancelingTimers q'))"
  using assms
proof (induction es arbitrary: q)
  case Nil
  then show ?case by (simp add: tq_keeps_refl)
next
  case (Cons x es)
  have x: "snd x \<in> E" "run_ok lib acts x q" using Cons.prems(2,3) by auto
  obtain q1 where q1: "run_timer acts x q = Inr q1" "cmds_inv lib E q0 q1" "tq_keeps E q q1"
      "set (tq_cancelingTimers q1) \<subseteq> set (tq_cancelingTimers q) \<union> {tid. CancelT tid \<in> set (acts (snd x))}"
      "\<forall>p s. p \<in> E \<longrightarrow> CancelT (p, s) \<in> set (acts (snd x)) \<longrightarrow> (p, s) \<in> set (tq_cancelingTimers q1)"
    using run_timer_step [OF Cons.prems(1) x] Cons.prems(4) by blast
  have al: "allowed (run_timer acts) (run_ok lib acts) es q1" using Cons.prems(2) q1(1) by simp
  have calling: "tq_callingExpiredTimers q1" using q1(3) Cons.prems(4) by (simp add: tq_keeps_def)
  have sub: "snd ` set es \<subseteq> E" using Cons.prems(3) by simp
  obtain q' where q': "foldR (run_timer acts) es q1 = Inr q'" "cmds_inv lib E q0 q'" "tq_keeps E q1 q'"
      "set (tq_cancelingTimers q') \<subseteq> set (tq_cancelingTimers q1) \<union> {tid. \<exists>(e, r) \<in> set es. CancelT tid \<in> set (acts r)}"
      "\<forall>p s e r. p \<in> E \<longrightarrow> (e, r) \<in> set es \<longrightarrow> CancelT (p, s) \<in> set (acts r) \<longrightarrow> (p, s) \<in> set (tq_cancelingTimers q')"
    using Cons.IH [OF q1(2) al sub calling] by blast
  have "(p, s) \<in> set (tq_cancelingTimers q')"
    if "p \<in> E" "(e, r) \<in> set (x # es)" "CancelT (p, s) \<in> set (acts r)" for p s e r
  proof (cases "(e, r) = x")
    case True
    then have "(p, s) \<in> set (tq_cancelingTimers q1)" using q1(5) that by auto
    then show ?thesis using q'(3) by (auto simp: tq_keeps_def)
  next
    case False
    then have "(e, r) \<in> set es" using that(2) by simp
    then show ?thesis using q'(5) that by blast
  qed
  moreover have "foldR (run_timer acts) (x # es) q = Inr q'" using q1(1) q'(1) by simp
  moreover have "set (tq_cancelingTimers q') \<subseteq> set (tq_cancelingTimers q) \<union>
      {tid. \<exists>(e, r) \<in> set (x # es). CancelT tid \<in> set (acts r)}"
    using q1(4) q'(4) by (fastforce simp: case_prod_unfold)
  ultimately show ?case using q'(2) tq_keeps_trans [OF q1(3) q'(3)] by blast
qed

subsection \<open>Expiry\<close>

lemma below_sentry:
  assumes "p < UINTPTR_MAX"
  shows "((e :: timestamp, p) < (now, UINTPTR_MAX)) = (e \<le> now)"
  using assms by auto

lemma sorted_map_fst: "sorted xs \<Longrightarrow> sorted (map fst (xs :: (timestamp \<times> addr) list))"
  by (induction xs) (fastforce simp: less_eq_prod_def)+

lemma split_sorted:
  assumes "sorted (map fst xs)"
  shows "takeWhile (\<lambda>x. fst x \<le> now) xs = filter (\<lambda>x. fst x \<le> now) xs \<and>
    dropWhile (\<lambda>x. fst x \<le> now) xs = filter (\<lambda>x. now < fst x) (xs :: (timestamp \<times> addr) list)"
  using assms
proof (induction xs)
  case (Cons x xs)
  show ?case
  proof (cases "fst x \<le> now")
    case True
    with Cons show ?thesis by simp
  next
    case False
    with Cons.prems have "\<forall>y \<in> set xs. now < fst y" by auto
    then have "filter (\<lambda>y. fst y \<le> now) xs = []" "filter (\<lambda>y. now < fst y) xs = xs"
      by (auto simp: filter_empty_conv filter_id_conv)
    with False show ?thesis by simp
  qed
qed simp

lemma expired_split:
  assumes inv: "tq_inv E q"
  shows "takeWhile (\<lambda>x. x < (now, UINTPTR_MAX)) (tq_timers q) = filter (\<lambda>(e, p). e \<le> now) (tq_timers q)"
    "dropWhile (\<lambda>x. x < (now, UINTPTR_MAX)) (tq_timers q) = filter (\<lambda>(e, p). now < e) (tq_timers q)"
proof -
  note D = tq_invD [OF inv]
  have b: "(x < (now, UINTPTR_MAX)) = (fst x \<le> now)" if "x \<in> set (tq_timers q)" for x
    using D(4) [of "fst x" "snd x"] D(8) [of "snd x"] that below_sentry [of "snd x" "fst x" now] by auto
  have s: "sorted (map fst (tq_timers q))"
    using D(1) by (rule sorted_map_fst)
  have "takeWhile (\<lambda>x. x < (now, UINTPTR_MAX)) (tq_timers q) = takeWhile (\<lambda>x. fst x \<le> now) (tq_timers q)"
    by (rule takeWhile_cong) (simp_all add: b)
  then show "takeWhile (\<lambda>x. x < (now, UINTPTR_MAX)) (tq_timers q) = filter (\<lambda>(e, p). e \<le> now) (tq_timers q)"
    using split_sorted [OF s, of now] by (simp add: case_prod_unfold)
  have "dropWhile (\<lambda>x. x < (now, UINTPTR_MAX)) (tq_timers q) = dropWhile (\<lambda>x. fst x \<le> now) (tq_timers q)"
    by (rule dropWhile_cong) (simp_all add: b)
  then show "dropWhile (\<lambda>x. x < (now, UINTPTR_MAX)) (tq_timers q) = filter (\<lambda>(e, p). now < e) (tq_timers q)"
    using split_sorted [OF s, of now] by (simp add: case_prod_unfold)
qed

lemma erase_active_ok:
  assumes "tq_inv E (q\<lparr>tq_timers := es @ rest\<rparr>)"
  shows "\<exists>as. erase_active es (q\<lparr>tq_timers := rest\<rparr>) = Inr (q\<lparr>tq_timers := rest, tq_activeTimers := as\<rparr>) \<and>
    tq_inv (snd ` set es \<union> E) (q\<lparr>tq_timers := rest, tq_activeTimers := as\<rparr>)"
  using assms
proof (induction es arbitrary: q E)
  case Nil
  then show ?case by (intro exI [of _ "tq_activeTimers q"]) simp
next
  case (Cons x es)
  obtain e p where x: "x = (e, p)" by (cases x)
  have mem: "(e, p) \<in> set (tq_timers (q\<lparr>tq_timers := (x # es) @ rest\<rparr>))" using x by simp
  obtain t where t: "tq_heap q p = Some t" using tq_invD(4) [OF Cons.prems mem] by auto
  let ?q = "q\<lparr>tq_activeTimers := remove1 (p, t_sequence t) (tq_activeTimers q)\<rparr>"
  have d: "tq_inv (insert p E) (?q\<lparr>tq_timers := es @ rest\<rparr>)" "(p, t_sequence t) \<in> set (tq_activeTimers q)"
    using detach_inv [OF Cons.prems mem, of t] t x by (cases q, simp)+
  from Cons.IH [OF d(1)] obtain as where
    as: "erase_active es (?q\<lparr>tq_timers := rest\<rparr>) = Inr (?q\<lparr>tq_timers := rest, tq_activeTimers := as\<rparr>)"
      "tq_inv (snd ` set es \<union> insert p E) (?q\<lparr>tq_timers := rest, tq_activeTimers := as\<rparr>)" by blast
  then show ?case using t d(2) x
    by (intro exI [of _ as], cases q) (simp add: tderef_def set_erase_def)
qed

lemma getExpired_ok:
  assumes inv: "tq_inv {} q"
  shows "\<exists>as. getExpired now q = Inr (filter (\<lambda>(e, p). e \<le> now) (tq_timers q),
      q\<lparr>tq_timers := filter (\<lambda>(e, p). now < e) (tq_timers q), tq_activeTimers := as\<rparr>) \<and>
    tq_inv (snd ` set (filter (\<lambda>(e, p). e \<le> now) (tq_timers q)))
      (q\<lparr>tq_timers := filter (\<lambda>(e, p). now < e) (tq_timers q), tq_activeTimers := as\<rparr>)"
proof -
  let ?es = "filter (\<lambda>(e, p). e \<le> now) (tq_timers q)" and ?rest = "filter (\<lambda>(e, p). now < e) (tq_timers q)"
  have "?es @ ?rest = tq_timers q" using takeWhile_dropWhile_id expired_split [OF inv, of now] by metis
  then have "tq_inv {} (q\<lparr>tq_timers := ?es @ ?rest\<rparr>)" using inv by simp
  from erase_active_ok [OF this] obtain as where
    as: "erase_active ?es (q\<lparr>tq_timers := ?rest\<rparr>) = Inr (q\<lparr>tq_timers := ?rest, tq_activeTimers := as\<rparr>)"
      "tq_inv (snd ` set ?es) (q\<lparr>tq_timers := ?rest, tq_activeTimers := as\<rparr>)" by auto
  have "now < fst (hd ?rest)" if "?rest \<noteq> []"
    using hd_in_set [OF that] by auto
  then have "getExpired now q = Inr (?es, q\<lparr>tq_timers := ?rest, tq_activeTimers := as\<rparr>)"
    using as tq_length [OF inv] tq_length [OF as(2)] unfolding getExpired_def expired_split [OF inv] Let_def
    by (auto simp: assertR_def)
  with as(2) show ?thesis by blast
qed

subsection \<open>Rescheduling\<close>

text \<open>One expired timer is queued again or deleted.\<close>

lemma reset_one_ok:
  assumes inv: "tq_inv (insert p E) q" and p: "p \<notin> E" and v: "all_valid lib q" and t: "tq_heap q p = Some t"
    and lib: "\<forall>i. 0 < i \<longrightarrow> ts_valid lib (addTime lib now i)"
    and again: "again = (t_repeat t \<and> (p, t_sequence t) \<notin> set (tq_cancelingTimers q))"
  shows "\<exists>q1. (if again
        then bindR (insert_timer p (q\<lparr>tq_heap := (tq_heap q)(p \<mapsto> restart lib now t)\<rparr>)) (\<lambda>(_, q1). Inr q1)
        else tdelete p q) = Inr q1 \<and> tq_inv E q1 \<and> all_valid lib q1 \<and> tq_armed q1 = tq_armed q \<and>
      tq_callingExpiredTimers q1 = tq_callingExpiredTimers q \<and>
      tq_cancelingTimers q1 = tq_cancelingTimers q \<and> tq_heap q1 = (tq_heap q)(p := (if again then Some (restart lib now t) else None))"
proof (cases again)
  case True
  let ?q = "q\<lparr>tq_heap := (tq_heap q)(p \<mapsto> restart lib now t)\<rparr>"
  have i: "tq_inv (insert p E) ?q" by (rule heap_change_inv [OF inv _ t]) (simp_all add: restart_def)
  have h: "tq_heap ?q p = Some (restart lib now t)" by simp
  have "ts_valid lib (t_expiration (restart lib now t))"
    using True again lib tq_invD(8) [OF inv t] by (simp add: restart_def)
  with insert_timer_ok [OF i p h] v True show ?thesis by (auto simp: all_valid_def set_insort_key)
next
  case False
  have "insert p E - {p} = E" using p by simp
  then show ?thesis using False tdelete_ok [OF inv insertI1] v by (auto simp: all_valid_def)
qed

lemma reset_expired_ok:
  assumes "tq_inv (snd ` set es) q" "distinct (map snd es)" "all_valid lib q"
    "\<forall>i. 0 < i \<longrightarrow> ts_valid lib (addTime lib now i)"
  shows "\<exists>q'. reset_expired lib now es q = Inr q' \<and> tq_inv {} q' \<and> all_valid lib q' \<and>
    tq_armed q' = tq_armed q \<and> tq_callingExpiredTimers q' = tq_callingExpiredTimers q \<and>
    (\<forall>(e, p) \<in> set es. \<forall>t. tq_heap q p = Some t \<longrightarrow>
       tq_heap q' p = (if t_repeat t \<and> (p, t_sequence t) \<notin> set (tq_cancelingTimers q)
                       then Some (restart lib now t) else None)) \<and>
    (\<forall>p. p \<notin> snd ` set es \<longrightarrow> tq_heap q' p = tq_heap q p)"
  using assms
proof (induction es arbitrary: q)
  case (Cons x es)
  obtain e p where x: "x = (e, p)" by (cases x)
  let ?E = "snd ` set es"
  have inv: "tq_inv (insert p ?E) q" and p: "p \<notin> ?E" "p \<in> insert p ?E" and d: "distinct (map snd es)"
    using Cons.prems(1,2) x by (simp_all add: image_iff)
  have "p \<in> dom (tq_heap q)" using tq_invD(6) [OF inv] by blast
  then obtain t where t: "tq_heap q p = Some t" by auto
  let ?again = "t_repeat t \<and> (p, t_sequence t) \<notin> set (tq_cancelingTimers q)"
  let ?res = "if ?again then Some (restart lib now t) else None"
  from reset_one_ok [OF inv p(1) Cons.prems(3) t Cons.prems(4) refl] obtain q1 where q1: "(if ?again
        then bindR (insert_timer p (q\<lparr>tq_heap := (tq_heap q)(p \<mapsto> restart lib now t)\<rparr>)) (\<lambda>(_, q1). Inr q1)
        else tdelete p q) = Inr q1" "tq_inv ?E q1" "all_valid lib q1" "tq_armed q1 = tq_armed q"
      "tq_callingExpiredTimers q1 = tq_callingExpiredTimers q"
      "tq_cancelingTimers q1 = tq_cancelingTimers q" "tq_heap q1 = (tq_heap q)(p := ?res)"
    by blast
  from Cons.IH [OF q1(2) d q1(3) Cons.prems(4)] obtain q' where
    q': "reset_expired lib now es q1 = Inr q'" "tq_inv {} q'" "all_valid lib q'" "tq_armed q' = tq_armed q1"
      "tq_callingExpiredTimers q' = tq_callingExpiredTimers q1"
      "\<forall>(e, p) \<in> set es. \<forall>t. tq_heap q1 p = Some t \<longrightarrow>
         tq_heap q' p = (if t_repeat t \<and> (p, t_sequence t) \<notin> set (tq_cancelingTimers q1)
                         then Some (restart lib now t) else None)"
      "\<forall>p. p \<notin> ?E \<longrightarrow> tq_heap q' p = tq_heap q1 p" by blast
  have "reset_expired lib now (x # es) q = Inr q'" using q1(1) q'(1) t x by (simp add: tderef_def)
  moreover have "tq_heap q' p = ?res" using q'(7) p(1) q1(7) by simp
  moreover have "tq_heap q' r = (if t_repeat t' \<and> (r, t_sequence t') \<notin> set (tq_cancelingTimers q)
                         then Some (restart lib now t') else None)"
    if "(e', r) \<in> set es" "tq_heap q r = Some t'" for e' r t'
  proof -
    have "r \<noteq> p" using that(1) p(1) by force
    then show ?thesis using q'(6) that q1(6,7) by fastforce
  qed
  moreover have "\<forall>r. r \<notin> snd ` set (x # es) \<longrightarrow> tq_heap q' r = tq_heap q r" using q'(7) q1(7) x by simp
  ultimately show ?case using q' q1 t x by (intro exI [of _ q']) auto
qed simp

subsection \<open>The alarm\<close>

text \<open>What the code relies on from the timestamp library: adding a positive interval gives a valid time.\<close>

definition ts_contract :: "ts_lib \<Rightarrow> bool" where
  "ts_contract lib \<longleftrightarrow> (\<forall>now i. ts_valid lib now \<longrightarrow> 0 < i \<longrightarrow> ts_valid lib (addTime lib now i))"

datatype tq_cmd = Call timer_cmd | Alarm timestamp timestamp "addr \<Rightarrow> timer_cmd list"

fun tq_exec :: "ts_lib \<Rightarrow> tq_cmd \<Rightarrow> timerQueue \<Rightarrow> timerQueue result" where
  "tq_exec lib (Call c) q = timer_exec c q"
| "tq_exec lib (Alarm now clock acts) q = handleRead_tq lib now clock acts q"

text \<open>Every address that a callback gets from \<^verbatim>\<open>new\<close> is free at that moment.\<close>

definition alarm_ok :: "ts_lib \<Rightarrow> timestamp \<Rightarrow> (addr \<Rightarrow> timer_cmd list) \<Rightarrow> timerQueue \<Rightarrow> bool" where
  "alarm_ok lib now acts q \<longleftrightarrow> ts_valid lib now \<and>
     (case getExpired now (q\<lparr>tq_armed := None\<rparr>) of Inl e \<Rightarrow> True
      | Inr (expired, q1) \<Rightarrow> allowed (run_timer acts) (run_ok lib acts) expired
          (q1\<lparr>tq_callingExpiredTimers := True, tq_cancelingTimers := []\<rparr>))"

fun tq_ok :: "ts_lib \<Rightarrow> tq_cmd \<Rightarrow> timerQueue \<Rightarrow> bool" where
  "tq_ok lib (Call c) q = timer_ok lib c q"
| "tq_ok lib (Alarm now clock acts) q = alarm_ok lib now acts q"

text \<open>Between two events of the loop no timer is detached and the kernel timer is set.\<close>

definition idle_inv :: "ts_lib \<Rightarrow> timerQueue \<Rightarrow> bool" where
  "idle_inv lib q \<longleftrightarrow> tq_inv {} q \<and> all_valid lib q \<and> armed_ok q \<and> \<not> tq_callingExpiredTimers q"

definition due :: "timestamp \<Rightarrow> timerQueue \<Rightarrow> (timestamp \<times> addr) list" where
  "due now q = filter (\<lambda>(e, p). e \<le> now) (tq_timers q)"

lemma reset_tq_ok:
  assumes "tq_inv (snd ` set es) q" "distinct (map snd es)" "all_valid lib q" "\<not> tq_callingExpiredTimers q"
    "ts_contract lib" "ts_valid lib now"
  shows "\<exists>q'. reset_tq lib clock now es q = Inr q' \<and> idle_inv lib q' \<and>
    (\<forall>(e, p) \<in> set es. \<forall>t. tq_heap q p = Some t \<longrightarrow>
       tq_heap q' p = (if t_repeat t \<and> (p, t_sequence t) \<notin> set (tq_cancelingTimers q)
                       then Some (restart lib now t) else None)) \<and>
    (\<forall>p. p \<notin> snd ` set es \<longrightarrow> tq_heap q' p = tq_heap q p)"
proof -
  have val: "\<forall>i. 0 < i \<longrightarrow> ts_valid lib (addTime lib now i)" using assms(5,6) by (simp add: ts_contract_def)
  from reset_expired_ok [OF assms(1-3) val] obtain q1 where
    q1: "reset_expired lib now es q = Inr q1" "tq_inv {} q1" "all_valid lib q1"
      "tq_callingExpiredTimers q1 = tq_callingExpiredTimers q"
      "\<forall>(e, p) \<in> set es. \<forall>t. tq_heap q p = Some t \<longrightarrow>
         tq_heap q1 p = (if t_repeat t \<and> (p, t_sequence t) \<notin> set (tq_cancelingTimers q)
                         then Some (restart lib now t) else None)"
      "\<forall>p. p \<notin> snd ` set es \<longrightarrow> tq_heap q1 p = tq_heap q p" by blast
  have "\<exists>q'. reset_tq lib clock now es q = Inr q' \<and> idle_inv lib q' \<and> tq_heap q' = tq_heap q1"
  proof (cases "tq_timers q1")
    case Nil
    then show ?thesis using q1 assms(4)
      by (auto simp: reset_tq_def idle_inv_def armed_ok_def resetTimerfd_def tq_inv_fields all_valid_def)
  next
    case (Cons x xs)
    obtain e p where x: "x = (e, p)" by (cases x)
    obtain t where t: "tq_heap q1 p = Some t" "t_expiration t = e"
      using tq_invD(4) [OF q1(2), of e p] Cons x by auto
    have "ts_valid lib e" using q1(3) Cons x by (simp add: all_valid_def)
    then show ?thesis using q1 assms(4) Cons x t
      by (auto simp: reset_tq_def idle_inv_def armed_ok_def resetTimerfd_def tq_inv_fields all_valid_def tderef_def)
  qed
  then obtain q' where "reset_tq lib clock now es q = Inr q'" "idle_inv lib q'" "tq_heap q' = tq_heap q1" by blast
  then show ?thesis using q1(5,6) by (intro exI [of _ q']) (simp only: simp_thms)
qed

lemma due_distinct:
  assumes "tq_inv E q"
  shows "distinct (map snd (due now q))"
proof -
  have D: "(e, p) \<in> set (tq_timers q) \<Longrightarrow> \<exists>t. tq_heap q p = Some t \<and> t_expiration t = e" for e p
    using tq_invD(4) [OF assms] by simp
  have "e = e'" if "(e, p) \<in> set (tq_timers q)" "(e', p) \<in> set (tq_timers q)" for e e' p
    using D [OF that(1)] D [OF that(2)] by auto
  then have "inj_on snd (set (due now q))" by (fastforce simp: inj_on_def due_def)
  moreover have "distinct (due now q)" using tq_invD(2) [OF assms] by (simp add: due_def)
  ultimately show ?thesis by (simp add: distinct_map)
qed

lemma handleRead_tq_ok:
  assumes lib: "ts_contract lib" and inv: "idle_inv lib q" and ok: "alarm_ok lib now acts q"
  shows "\<exists>q'. handleRead_tq lib now clock acts q = Inr q' \<and> idle_inv lib q' \<and>
    (\<forall>e p t. (e, p) \<in> set (due now q) \<longrightarrow> tq_heap q p = Some t \<longrightarrow>
       tq_heap q' p = (if t_repeat t \<and> (\<forall>(e', r) \<in> set (due now q). CancelT (p, t_sequence t) \<notin> set (acts r))
                       then Some (restart lib now t) else None))"
proof -
  let ?q = "q\<lparr>tq_armed := None\<rparr>" and ?es = "due now q"
  have i0: "tq_inv {} ?q" using inv by (simp add: idle_inv_def tq_inv_fields)
  have es: "filter (\<lambda>(e, p). e \<le> now) (tq_timers ?q) = ?es" by (simp add: due_def)
  from getExpired_ok [OF i0, of now, unfolded es] obtain as where
    g: "getExpired now ?q = Inr (?es, ?q\<lparr>tq_timers := filter (\<lambda>(e, p). now < e) (tq_timers ?q), tq_activeTimers := as\<rparr>)"
      "tq_inv (snd ` set ?es) (?q\<lparr>tq_timers := filter (\<lambda>(e, p). now < e) (tq_timers ?q), tq_activeTimers := as\<rparr>)"
    by blast
  let ?q1 = "?q\<lparr>tq_timers := filter (\<lambda>(e, p). now < e) (tq_timers ?q), tq_activeTimers := as,
    tq_callingExpiredTimers := True, tq_cancelingTimers := []\<rparr>"
  have c1: "cmds_inv lib (snd ` set ?es) ?q1 ?q1"
    using g(2) inv tq_keeps_refl by (auto simp: cmds_inv_def tq_inv_fields idle_inv_def all_valid_def)
  have al: "allowed (run_timer acts) (run_ok lib acts) ?es ?q1"
    using ok g(1) by (simp add: alarm_ok_def)
  obtain q2 where q2: "foldR (run_timer acts) ?es ?q1 = Inr q2" "cmds_inv lib (snd ` set ?es) ?q1 q2"
      "set (tq_cancelingTimers q2) \<subseteq> {tid. \<exists>(e, r) \<in> set ?es. CancelT tid \<in> set (acts r)}"
      "\<forall>p s e r. p \<in> snd ` set ?es \<longrightarrow> (e, r) \<in> set ?es \<longrightarrow> CancelT (p, s) \<in> set (acts r) \<longrightarrow>
         (p, s) \<in> set (tq_cancelingTimers q2)"
    using runs_ok [OF c1 al subset_refl] by auto
  let ?q2 = "q2\<lparr>tq_callingExpiredTimers := False\<rparr>"
  have i2: "tq_inv (snd ` set ?es) ?q2" "all_valid lib ?q2"
    using q2(2) by (simp_all add: cmds_inv_def tq_inv_fields all_valid_def)
  have kept: "tq_heap q2 p = tq_heap q p" if "p \<in> snd ` set ?es" for p
    using q2(2) that by (auto simp: cmds_inv_def tq_keeps_def)
  have dist: "distinct (map snd ?es)" using due_distinct [of "{}" q now] inv by (simp add: idle_inv_def)
  have nc: "\<not> tq_callingExpiredTimers ?q2" "ts_valid lib now" using ok by (simp_all add: alarm_ok_def)
  from reset_tq_ok [OF i2(1) dist i2(2) nc(1) lib nc(2), of clock] obtain q' where
    q': "reset_tq lib clock now ?es ?q2 = Inr q'" "idle_inv lib q'"
      "\<forall>(e, p) \<in> set ?es. \<forall>t. tq_heap q2 p = Some t \<longrightarrow>
         tq_heap q' p = (if t_repeat t \<and> (p, t_sequence t) \<notin> set (tq_cancelingTimers q2)
                         then Some (restart lib now t) else None)" by auto
  have "handleRead_tq lib now clock acts q = Inr q'"
    using g(1) q2(1) q'(1) by (simp add: handleRead_tq_def)
  moreover have "tq_heap q' p = (if t_repeat t \<and> (\<forall>(e', r) \<in> set ?es. CancelT (p, t_sequence t) \<notin> set (acts r))
                       then Some (restart lib now t) else None)"
    if mem: "(e, p) \<in> set ?es" and t: "tq_heap q p = Some t" for e p t
  proof -
    have pe: "p \<in> snd ` set ?es" using mem by force
    have "(p, t_sequence t) \<in> set (tq_cancelingTimers q2) \<longleftrightarrow>
        (\<exists>(e', r) \<in> set ?es. CancelT (p, t_sequence t) \<in> set (acts r))"
      using q2(3,4) pe by fastforce
    then show ?thesis using q'(3) mem kept [OF pe] t by (fastforce simp: case_prod_unfold)
  qed
  ultimately show ?thesis using q'(2) by blast
qed

lemma timer_exec_idle:
  assumes inv: "idle_inv lib q" and ok: "timer_ok lib c q"
  shows "\<exists>q'. timer_exec c q = Inr q' \<and> idle_inv lib q'"
proof -
  have ti: "tq_inv {} q" and av: "all_valid lib q" and ar: "armed_ok q" and nc: "\<not> tq_callingExpiredTimers q"
    using inv by (simp_all add: idle_inv_def)
  have "cmds_inv lib {} q q" using ti av tq_keeps_refl by (simp add: cmds_inv_def)
  from timer_exec_safe [OF this ok] obtain q' where
    q': "timer_exec c q = Inr q'" "tq_inv {} q'" "all_valid lib q'" "tq_keeps {} q q'" by (auto simp: cmds_inv_def)
  have "armed_ok q'"
  proof (cases c)
    case (AddT p whn interval clock)
    with ok have p: "tq_heap q p = None" "p < UINTPTR_MAX" by simp_all
    from addTimer_ok [OF ti p, of clock whn interval] q'(1) AddT have
      a: "tq_timers q' = insort (whn, p) (tq_timers q)"
        "tq_armed q' = (if tq_timers q = [] \<or> whn < fst (hd (tq_timers q))
                   then Some (whn, howMuchTimeFromNow clock whn) else tq_armed q)" by auto
    show ?thesis
    proof (cases "tq_timers q = []")
      case False
      then have "fst (hd (tq_timers q')) = min whn (fst (hd (tq_timers q)))" by (simp add: a(1) hd_insort fst_min)
      then show ?thesis using a ar False by (auto simp: armed_ok_def min_def)
    qed (use a in \<open>auto simp: armed_ok_def\<close>)
  next
    case (CancelT tid)
    from cancelInLoop_ok [OF ti, of tid] q'(1) CancelT have
      a: "set (tq_timers q') \<subseteq> set (tq_timers q)" "tq_armed q' = tq_armed q" by auto
    show ?thesis
    proof (cases "tq_timers q' = []")
      case False
      then have "hd (tq_timers q') \<in> set (tq_timers q)" using a(1) hd_in_set by blast
      then have "hd (tq_timers q) \<le> hd (tq_timers q')" "tq_timers q \<noteq> []"
        using sorted_hd tq_invD(1) [OF ti] by auto
      then have "fst (hd (tq_timers q)) \<le> fst (hd (tq_timers q'))"
        by (cases "hd (tq_timers q)", cases "hd (tq_timers q')") auto
      then show ?thesis using ar \<open>tq_timers q \<noteq> []\<close> a(2) by (fastforce simp: armed_ok_def)
    qed (simp add: armed_ok_def)
  qed
  with q' nc show ?thesis by (auto simp: idle_inv_def tq_keeps_def)
qed

interpretation timer_queue: safe_commands "tq_exec lib" "\<lambda>q. ts_contract lib \<and> idle_inv lib q" "tq_ok lib" for lib
proof
  fix q c
  assume inv: "ts_contract lib \<and> idle_inv lib q" and ok: "tq_ok lib c q"
  show "\<exists>q'. tq_exec lib c q = Inr q' \<and> ts_contract lib \<and> idle_inv lib q'"
  proof (cases c)
    case (Call c')
    then show ?thesis using timer_exec_idle inv ok by auto
  next
    case (Alarm now clock acts)
    then show ?thesis using handleRead_tq_ok [of lib q now acts clock] inv ok by auto
  qed
qed

section \<open>Properties of the timer queue\<close>

lemma TimerQueue_idle: "idle_inv lib TimerQueue"
  using TimerQueue_inv by (simp add: idle_inv_def all_valid_def armed_ok_def) (simp add: TimerQueue_def)

text \<open>C5. Whatever the program does with timers, in the loop and inside of timer callbacks (add, cancel, cancel
  itself, cancel another expired timer), and whenever the alarm fires, no assert fails and no timer is used after it
  was deleted or deleted twice; between two events the live timers are exactly the queued ones, so none leaks, and
  the kernel timer is set to fire no later than the earliest of them, so none is forgotten.\<close>

theorem timers_safe:
  assumes "ts_contract lib" "allowed (tq_exec lib) (tq_ok lib) cmds TimerQueue"
  shows "\<exists>q. foldR (tq_exec lib) cmds TimerQueue = Inr q \<and>
    dom (tq_heap q) = snd ` set (tq_timers q) \<and> length (tq_timers q) = length (tq_activeTimers q) \<and>
    (tq_timers q \<noteq> [] \<longrightarrow>
      (\<exists>e clock. tq_armed q = Some (e, howMuchTimeFromNow clock e) \<and> e \<le> fst (hd (tq_timers q))))"
proof -
  obtain q where q: "foldR (tq_exec lib) cmds TimerQueue = Inr q" "idle_inv lib q"
    using timer_queue.foldR_safe [OF conjI [OF assms(1) TimerQueue_idle] assms(2)] by blast
  then have "tq_inv {} q" "armed_ok q" by (simp_all add: idle_inv_def)
  with q(1) show ?thesis using tq_invD(6) tq_length by (auto simp: armed_ok_def)
qed

text \<open>A timestamp library for the examples: intervals in whole seconds, every time after 0 is valid.\<close>

definition sec_lib :: ts_lib where
  "sec_lib = \<lparr>addTime = (\<lambda>now i. now + \<lfloor>i\<rfloor> * 1000000 + 1), ts_valid = (\<lambda>t. 0 < t), ts_invalid = 0, ts_default = 0\<rparr>"

lemma sec_lib_contract: "ts_contract sec_lib"
  by (auto simp: ts_contract_def sec_lib_def intro!: add_pos_nonneg)

lemmas tq_exec_defs = TimerQueue_def addTimer_def addTimerInLoop_def new_timer_def Timer_def insert_timer_def
  tderef_def set_insert_def resetTimerfd_def make_timerId_def alarm_ok_def getExpired_def run_ok_def
  run_timer_def cancelInLoop_def set_erase_def tdelete_def handleRead_tq_def reset_tq_def restart_def
  sec_lib_def UINTPTR_MAX_def

theorem timers_safe_witness:
  "\<exists>q. foldR (tq_exec sec_lib)
      [Call (AddT 1 10 2 5), Call (AddT 2 20 0 5), Alarm 30 31 (\<lambda>p. if p = 1 then [CancelT (1, 1), AddT 3 50 0 31] else [])]
      TimerQueue = Inr q \<and> dom (tq_heap q) = snd ` set (tq_timers q)"
proof -
  let ?cmds = "[Call (AddT 1 10 2 5), Call (AddT 2 20 0 5),
    Alarm 30 31 (\<lambda>p. if p = 1 then [CancelT (1, 1), AddT 3 50 0 31] else [])]"
  have "allowed (tq_exec sec_lib) (tq_ok sec_lib) ?cmds TimerQueue" by (simp add: tq_exec_defs)
  from timers_safe [OF sec_lib_contract this] show ?thesis by blast
qed

text \<open>C26. Of the timers whose expiration is not after the present, the alarm deletes one that does not repeat or
  that some callback of this alarm cancels (its own included), and queues any other again for one interval after the
  present.\<close>

theorem alarm_reschedules:
  assumes "ts_contract lib" "idle_inv lib q" "alarm_ok lib now acts q" "(e, p) \<in> set (tq_timers q)" "e \<le> now"
    "tq_heap q p = Some t"
  shows "\<exists>q'. handleRead_tq lib now clock acts q = Inr q' \<and> idle_inv lib q' \<and>
    tq_heap q' p =
      (if t_repeat t \<and> (\<forall>(e', r) \<in> set (due now q). CancelT (p, t_sequence t) \<notin> set (acts r))
       then Some (t\<lparr>t_expiration := addTime lib now (t_interval t)\<rparr>) else None)"
proof -
  have "(e, p) \<in> set (due now q)" using assms(4,5) by (simp add: due_def)
  then show ?thesis using handleRead_tq_ok [OF assms(1-3), of clock] assms(6) by (fastforce simp: restart_def)
qed

theorem alarm_reschedules_witness:
  "\<exists>q'. handleRead_tq sec_lib 30 31 (\<lambda>_. [])
      \<lparr>tq_heap = [1 \<mapsto> Timer 10 2 1], tq_timers = [(10, 1)], tq_activeTimers = [(1, 1)], tq_callingExpiredTimers = False,
       tq_cancelingTimers = [], tq_numCreated = 1, tq_armed = Some (10, howMuchTimeFromNow 5 10)\<rparr> = Inr q' \<and>
    tq_heap q' 1 = Some (Timer 2000031 2 1)"
proof -
  let ?q = "\<lparr>tq_heap = [1 \<mapsto> Timer 10 2 1], tq_timers = [(10, 1)], tq_activeTimers = [(1, 1)],
    tq_callingExpiredTimers = False, tq_cancelingTimers = [], tq_numCreated = 1,
    tq_armed = Some (10, howMuchTimeFromNow 5 10)\<rparr>"
  have "idle_inv sec_lib ?q"
    by (auto simp: idle_inv_def tq_inv_def all_valid_def armed_ok_def seq_of_def Timer_def sec_lib_def
        UINTPTR_MAX_def split: if_splits)
  moreover have "alarm_ok sec_lib 30 (\<lambda>_. []) ?q" by (simp add: tq_exec_defs)
  ultimately show ?thesis
    using alarm_reschedules [OF sec_lib_contract, of ?q 30 "\<lambda>_. []" 10 1 "Timer 10 2 1" 31]
    by (auto simp: Timer_def sec_lib_def)
qed

text \<open>Cancelling a queued timer takes effect at once: the timer is deleted and no longer queued, and an identifier
  whose timer has run and been deleted cancels nothing, even if a new timer got the same address, because no two
  timers share a sequence number.\<close>

theorem cancel_effective:
  assumes "idle_inv lib q"
  shows "\<exists>q'. cancelInLoop tid q = Inr q' \<and> idle_inv lib q' \<and>
    (if \<exists>t. tq_heap q (fst tid) = Some t \<and> t_sequence t = snd tid
     then tq_heap q' = (tq_heap q)(fst tid := None) \<and> (\<forall>e. (e, fst tid) \<notin> set (tq_timers q'))
     else q' = q)"
proof -
  have inv: "tq_inv {} q" and nc: "\<not> tq_callingExpiredTimers q" using assms by (simp_all add: idle_inv_def)
  note D = tq_invD [OF inv]
  have act: "tid \<in> set (tq_activeTimers q) \<longleftrightarrow> (\<exists>t. tq_heap q (fst tid) = Some t \<and> t_sequence t = snd tid)"
  proof
    assume "tid \<in> set (tq_activeTimers q)"
    then obtain e p where "(e, p) \<in> set (tq_timers q)" "tid = seq_of q p" unfolding D(5) by auto
    then show "\<exists>t. tq_heap q (fst tid) = Some t \<and> t_sequence t = snd tid"
      using D(4) [of e p] by (auto simp: seq_of_def)
  next
    assume "\<exists>t. tq_heap q (fst tid) = Some t \<and> t_sequence t = snd tid"
    then obtain t where t: "tq_heap q (fst tid) = Some t" "t_sequence t = snd tid" by blast
    then have "fst tid \<in> snd ` set (tq_timers q)" using D(6) by blast
    moreover have "tid = seq_of q (fst tid)" using t by (simp add: seq_of_def prod_eq_iff)
    ultimately show "tid \<in> set (tq_activeTimers q)" unfolding D(5) by blast
  qed
  obtain q' where q': "cancelInLoop tid q = Inr q'" "idle_inv lib q'"
    using timer_exec_idle [OF assms, of "CancelT tid"] by auto
  show ?thesis
  proof (cases "tid \<in> set (tq_activeTimers q)")
    case True
    then have h: "tq_heap q' = (tq_heap q)(fst tid := None)"
      using q'(1) by (auto simp: cancelInLoop_def assertR_eq_Inr bindR_eq_Inr tderef_def tdelete_def
          case_prod_unfold Let_def split: option.splits)
    moreover have "(e, fst tid) \<notin> set (tq_timers q')" for e
      using tq_invD(4) [of "{}" q' e "fst tid"] q'(2) h by (auto simp: idle_inv_def)
    ultimately show ?thesis using q' True act by auto
  next
    case False
    then have "q' = q" using q'(1) nc by (auto simp: cancelInLoop_def assertR_eq_Inr)
    then show ?thesis using q' False act by auto
  qed
qed

theorem cancel_effective_witness:
  "\<exists>q'. cancelInLoop (1, 1) \<lparr>tq_heap = [1 \<mapsto> Timer 10 2 2], tq_timers = [(10, 1)], tq_activeTimers = [(1, 2)],
      tq_callingExpiredTimers = False, tq_cancelingTimers = [], tq_numCreated = 2,
      tq_armed = Some (10, howMuchTimeFromNow 5 10)\<rparr> = Inr q' \<and> tq_timers q' = [(10, 1)]"
proof -
  let ?q = "\<lparr>tq_heap = [1 \<mapsto> Timer 10 2 2], tq_timers = [(10, 1)], tq_activeTimers = [(1, 2)],
    tq_callingExpiredTimers = False, tq_cancelingTimers = [], tq_numCreated = 2,
    tq_armed = Some (10, howMuchTimeFromNow 5 10)\<rparr>"
  have "idle_inv sec_lib ?q"
    by (auto simp: idle_inv_def tq_inv_def all_valid_def armed_ok_def seq_of_def Timer_def sec_lib_def
        UINTPTR_MAX_def split: if_splits)
  then show ?thesis using cancel_effective [of sec_lib ?q "(1, 1)"] by (auto simp: Timer_def)
qed

text \<open>The relative time given to the kernel is a normalised \<^verbatim>\<open>timespec\<close> of the distance to the expiration,
  but never less than 100 microseconds, so never zero, which would disarm the timer.\<close>

theorem howMuchTimeFromNow_normal:
  "case howMuchTimeFromNow now whn of (sec, nsec) \<Rightarrow>
     0 \<le> sec \<and> 0 \<le> nsec \<and> nsec < 1000000000 \<and> (sec, nsec) \<noteq> (0, 0) \<and>
     sec * 1000000000 + nsec = max 100 (whn - now) * 1000"
proof -
  let ?m = "max 100 (whn - now)"
  have eq: "howMuchTimeFromNow now whn = (?m div 1000000, (?m mod 1000000) * 1000)"
    by (auto simp: howMuchTimeFromNow_def Let_def kMicroSecondsPerSecond_def max_def)
  have "?m div 1000000 * 1000000 + ?m mod 1000000 = ?m" by simp
  moreover have "0 \<le> ?m div 1000000" "0 \<le> ?m mod 1000000" "?m mod 1000000 < 1000000" "100 \<le> ?m"
    by (simp_all add: pos_imp_zdiv_nonneg_iff)
  moreover obtain a b where "?m div 1000000 = a" "?m mod 1000000 = b" by blast
  ultimately show ?thesis unfolding eq by (simp only: prod.case prod.inject) auto
qed

lemma alarm_ok_idle: "ts_valid lib now \<Longrightarrow> alarm_ok lib now (\<lambda>_. []) q"
proof -
  assume v: "ts_valid lib now"
  have "allowed (run_timer (\<lambda>_. [])) (run_ok lib (\<lambda>_. [])) es s" for es s
    by (induction es arbitrary: s) (auto simp: run_ok_def split: sum.splits)
  then show ?thesis using v by (auto simp: alarm_ok_def split: sum.splits)
qed

text \<open>Adding a timer from another thread races with the loop: if the timer expires and is deleted before
  \<^verbatim>\<open>addTimer\<close> reads its sequence number for the returned identifier, the read is a use after free.\<close>

theorem addTimer_race:
  assumes "tq_heap q p = None" "p < UINTPTR_MAX" "idle_inv lib q" "ts_contract lib" "ts_valid lib whn"
    "ts_valid lib now" "whn \<le> now"
  shows "\<exists>q1 q2. addTimerInLoop clock p (new_timer p whn 0 q) = Inr q1 \<and>
    handleRead_tq lib now clock (\<lambda>_. []) q1 = Inr q2 \<and> make_timerId p q2 = Inl UseAfterFree"
proof -
  obtain q1 tid where add: "addTimer clock p whn 0 q = Inr (tid, q1)" "idle_inv lib q1"
    using timer_exec_idle [OF assms(3), of "AddT p whn 0 clock"] assms(1,2,5) by (auto simp: bindR_eq_Inr)
  have q1: "addTimerInLoop clock p (new_timer p whn 0 q) = Inr q1"
    using add(1) by (auto simp: addTimer_def bindR_eq_Inr)
  have inv1: "tq_inv {} q1" using add(2) by (simp add: idle_inv_def)
  have ts: "tq_timers q1 = insort (whn, p) (tq_timers q)"
    using addTimer_ok [of "{}" q p clock whn 0] assms(1-3) add(1) by (auto simp: idle_inv_def)
  then have mem: "(whn, p) \<in> set (tq_timers q1)" by (simp add: set_insort_key)
  then obtain t where t: "tq_heap q1 p = Some t" using tq_invD(4) [OF inv1] by blast
  have al: "alarm_ok lib now (\<lambda>_. []) q1" by (rule alarm_ok_idle [OF assms(6)])
  have "\<not> t_repeat t"
  proof -
    have "tq_heap q1 p = Some (Timer whn 0 (Suc (tq_numCreated q)))"
      using q1 by (auto simp: addTimerInLoop_def insert_timer_def bindR_eq_Inr assertR_eq_Inr tderef_def Let_def
          new_timer_def resetTimerfd_def case_prod_unfold split: option.splits if_splits)
    then show ?thesis using t by (simp add: Timer_def)
  qed
  moreover have "(whn, p) \<in> set (due now q1)" using mem assms(7) by (simp add: due_def)
  ultimately obtain q2 where "handleRead_tq lib now clock (\<lambda>_. []) q1 = Inr q2" "tq_heap q2 p = None"
    using handleRead_tq_ok [OF assms(4) add(2) al, of clock] t by fastforce
  with q1 show ?thesis by (auto simp: make_timerId_def tderef_def)
qed

theorem addTimer_race_witness:
  "\<exists>q1 q2. addTimerInLoop 5 1 (new_timer 1 10 0 TimerQueue) = Inr q1 \<and>
    handleRead_tq sec_lib 20 5 (\<lambda>_. []) q1 = Inr q2 \<and> make_timerId 1 q2 = Inl UseAfterFree"
  using addTimer_race [of TimerQueue 1 sec_lib 10 20 5] TimerQueue_idle sec_lib_contract
  by (simp add: TimerQueue_def UINTPTR_MAX_def sec_lib_def)

text \<open>The destructor of an idle queue deletes every live timer exactly once.\<close>

lemma TimerQueue_dtor_ok:
  assumes "idle_inv lib q"
  shows "\<exists>q'. TimerQueue_dtor q = Inr q' \<and> tq_heap q' = Map.empty"
proof -
  have "tq_inv {} q" using assms by (simp add: idle_inv_def)
  note D = tq_invD [OF this]
  have "\<exists>q'. foldR (\<lambda>(e, p). tdelete p) es r = Inr q' \<and> tq_heap q' = Map.empty"
    if "dom (tq_heap r) = snd ` set es" "distinct (map snd es)" for es and r :: timerQueue
    using that
  proof (induction es arbitrary: r)
    case (Cons x es)
    obtain e p where x: "x = (e, p)" by (cases x)
    have "p \<in> dom (tq_heap r)" using Cons.prems(1) x by auto
    then have del: "tdelete p r = Inr (r\<lparr>tq_heap := (tq_heap r)(p := None)\<rparr>)" by (auto simp: tdelete_def tderef_def)
    have "dom (tq_heap (r\<lparr>tq_heap := (tq_heap r)(p := None)\<rparr>)) = snd ` set es" using Cons.prems x by auto
    from Cons.IH [OF this] Cons.prems(2) del x show ?case by simp
  qed simp
  moreover have "e = e'" if "(e, p) \<in> set (tq_timers q)" "(e', p) \<in> set (tq_timers q)" for e e' p
    using D(4) [OF that(1)] D(4) [OF that(2)] by auto
  then have "distinct (map snd (tq_timers q))" using D(2) by (fastforce simp: distinct_map inj_on_def)
  ultimately show ?thesis using D(6) by (simp add: TimerQueue_dtor_def)
qed

end
