(* ===== verification/Lute_Loop.thy ===== *)
theory Lute_Loop
  imports Lute_EventLoop Lute_TimerQueue
begin

text \<open>
  The whole object \<^verbatim>\<open>EventLoop\<close> in its own thread: its constructor and destructor (\<^verbatim>\<open>polaris/src/EventLoop.cc\<close>), the
  channels of its eventfd and of its timer queue (\<^verbatim>\<open>polaris/src/TimerQueue.cc\<close>) in its poller, the timer calls, the
  pending functors, and \<^verbatim>\<open>loop()\<close> as a sequence of turns.  What the kernel answers in a turn is an input; functors are
  values that \<open>call\<close> interprets, and the callbacks of the other channels are parameters.
\<close>

record ('k, 'f) loop = "'k reactor" +
  l_looping :: bool
  l_quit :: bool
  l_callingPendingFunctors :: bool
  l_iteration :: int
  l_pollReturnTime :: timestamp
  l_timerQueue :: timerQueue
  l_timerfd :: int
  l_timerChannel :: addr
  l_wakeupFd :: int
  l_wakeupChannel :: addr
  l_eventfd :: nat                \<comment> \<open>the counter of the eventfd\<close>
  l_pending :: "'f list"
  l_inThisThread :: bool          \<comment> \<open>\<^verbatim>\<open>t_loopInThisThread\<close> is set\<close>
  l_closed :: "int list"          \<comment> \<open>the descriptors given to \<^verbatim>\<open>close\<close>\<close>

section \<open>Construction and destruction\<close>

text \<open>\<^verbatim>\<open>createEventfd\<close> and \<^verbatim>\<open>createTimerfd\<close>: a negative answer of the kernel ends the process.\<close>

definition createEventfd :: "int \<Rightarrow> int result" where
  "createEventfd evtfd = (if evtfd < 0 then Inl Fatal else Inr evtfd)"

definition createTimerfd :: "int \<Rightarrow> int result" where
  "createTimerfd timerfd = (if timerfd < 0 then Inl Fatal else Inr timerfd)"

text \<open>The constructor of the timer queue, with its channel at the address \<open>p\<close>.\<close>

definition TimerQueue_ctor ::
  "'k epoll_ctl \<Rightarrow> addr \<Rightarrow> int \<Rightarrow> ('k, 'f, 'z) loop_scheme \<Rightarrow> ('k, 'f, 'z) loop_scheme result" where
  "TimerQueue_ctor ctl p timerfd w =
     bindR (createTimerfd timerfd) (\<lambda>fd.
     bindR (new_channel p fd (w\<lparr>l_timerQueue := TimerQueue, l_timerfd := fd, l_timerChannel := p\<rparr>))
       (enableReading ctl p))"

text \<open>The state before the constructor: a poller of its own, in a thread that may have a loop already.\<close>

definition raw_loop :: "'k \<Rightarrow> bool \<Rightarrow> ('k, 'f) loop" where
  "raw_loop k inThread = reactor.extend (EPollPoller k)
     \<lparr>l_looping = False, l_quit = False, l_callingPendingFunctors = False, l_iteration = 0, l_pollReturnTime = 0,
      l_timerQueue = TimerQueue, l_timerfd = -1, l_timerChannel = 0, l_wakeupFd = -1, l_wakeupChannel = 0, l_eventfd = 0,
      l_pending = [], l_inThisThread = inThread, l_closed = []\<rparr>"

definition EventLoop_ctor ::
  "'k epoll_ctl \<Rightarrow> addr \<Rightarrow> int \<Rightarrow> addr \<Rightarrow> int \<Rightarrow> ('k, 'f, 'z) loop_scheme \<Rightarrow> ('k, 'f, 'z) loop_scheme result" where
  "EventLoop_ctor ctl pt timerfd pw evtfd w =
     bindR (TimerQueue_ctor ctl pt timerfd w) (\<lambda>w1.
     bindR (createEventfd evtfd) (\<lambda>fd.
     bindR (new_channel pw fd (w1\<lparr>l_wakeupFd := fd, l_wakeupChannel := pw\<rparr>)) (\<lambda>w2.
       if l_inThisThread w2 then Inl Fatal
       else enableReading ctl pw (w2\<lparr>l_inThisThread := True\<rparr>))))"

definition close_loop_fd :: "int \<Rightarrow> ('k, 'f, 'z) loop_scheme \<Rightarrow> ('k, 'f, 'z) loop_scheme" where
  "close_loop_fd fd w = w\<lparr>l_closed := l_closed w @ [fd]\<rparr>"

text \<open>The destructor of the timer queue; its member \<^verbatim>\<open>timerfdChannel_\<close> is destroyed after the body.\<close>

definition TimerQueue_delete ::
  "'k epoll_ctl \<Rightarrow> ('k, 'f, 'z) loop_scheme \<Rightarrow> ('k, 'f, 'z) loop_scheme result" where
  "TimerQueue_delete ctl w =
     bindR (disableAll ctl (l_timerChannel w) w) (\<lambda>w1.
     bindR (chan_remove ctl (l_timerChannel w1) w1) (\<lambda>w2.
     let w3 = close_loop_fd (l_timerfd w2) w2
     in bindR (TimerQueue_dtor (l_timerQueue w3)) (\<lambda>q.
        Channel_dtor (l_timerChannel w3) (w3\<lparr>l_timerQueue := q\<rparr>))))"

text \<open>The destructor of the loop: its body, then its members from the last to the first: the wakeup channel, the
  timer queue, and the poller, which both of them still use.\<close>

definition EventLoop_dtor ::
  "'k epoll_ctl \<Rightarrow> ('k, 'f, 'z) loop_scheme \<Rightarrow> ('k, 'f, 'z) loop_scheme result" where
  "EventLoop_dtor ctl w =
     bindR (disableAll ctl (l_wakeupChannel w) w) (\<lambda>w1.
     bindR (chan_remove ctl (l_wakeupChannel w1) w1) (\<lambda>w2.
     bindR (Channel_dtor (l_wakeupChannel w2) ((close_loop_fd (l_wakeupFd w2) w2)\<lparr>l_inThisThread := False\<rparr>)) (\<lambda>w3.
       TimerQueue_delete ctl w3)))"

section \<open>Timers and functors\<close>

definition on_timers ::
  "(timerQueue \<Rightarrow> ('a \<times> timerQueue) result) \<Rightarrow> ('k, 'f, 'z) loop_scheme \<Rightarrow> ('a \<times> ('k, 'f, 'z) loop_scheme) result" where
  "on_timers f w = bindR (f (l_timerQueue w)) (\<lambda>(x, q). Inr (x, w\<lparr>l_timerQueue := q\<rparr>))"

text \<open>The clock of \<^verbatim>\<open>Timestamp::now\<close> is read by the caller (\<open>now\<close>) and when the kernel timer is set (\<open>clock\<close>); the new timer
  gets the address \<open>p\<close>.\<close>

definition runAt ::
  "timestamp \<Rightarrow> addr \<Rightarrow> timestamp \<Rightarrow> ('k, 'f, 'z) loop_scheme \<Rightarrow> (timerId \<times> ('k, 'f, 'z) loop_scheme) result" where
  "runAt clock p time = on_timers (addTimer clock p time 0)"

definition runAfter ::
  "ts_lib \<Rightarrow> timestamp \<Rightarrow> timestamp \<Rightarrow> addr \<Rightarrow> rat \<Rightarrow> ('k, 'f, 'z) loop_scheme \<Rightarrow> (timerId \<times> ('k, 'f, 'z) loop_scheme) result" where
  "runAfter lib now clock p delay = runAt clock p (addTime lib now delay)"

definition runEvery ::
  "ts_lib \<Rightarrow> timestamp \<Rightarrow> timestamp \<Rightarrow> addr \<Rightarrow> rat \<Rightarrow> ('k, 'f, 'z) loop_scheme \<Rightarrow> (timerId \<times> ('k, 'f, 'z) loop_scheme) result" where
  "runEvery lib now clock p interval = on_timers (addTimer clock p (addTime lib now interval) interval)"

definition cancel_timer :: "timerId \<Rightarrow> ('k, 'f, 'z) loop_scheme \<Rightarrow> ('k, 'f, 'z) loop_scheme result" where
  "cancel_timer tid w = bindR (cancelInLoop tid (l_timerQueue w)) (\<lambda>q. Inr (w\<lparr>l_timerQueue := q\<rparr>))"

definition loop_wakeup :: "('k, 'f, 'z) loop_scheme \<Rightarrow> ('k, 'f, 'z) loop_scheme" where
  "loop_wakeup w = w\<lparr>l_eventfd := l_eventfd w + 1\<rparr>"

definition loop_handleRead :: "('k, 'f, 'z) loop_scheme \<Rightarrow> ('k, 'f, 'z) loop_scheme" where
  "loop_handleRead w = w\<lparr>l_eventfd := 0\<rparr>"

definition loop_queueInLoop :: "'f \<Rightarrow> ('k, 'f, 'z) loop_scheme \<Rightarrow> ('k, 'f, 'z) loop_scheme" where
  "loop_queueInLoop cb w =
     (let w1 = w\<lparr>l_pending := l_pending w @ [cb]\<rparr>
      in if \<not> inLoopThread w1 \<or> l_callingPendingFunctors w1 then loop_wakeup w1 else w1)"

definition loop_runInLoop ::
  "('f \<Rightarrow> ('k, 'f, 'z) loop_scheme \<Rightarrow> ('k, 'f, 'z) loop_scheme result) \<Rightarrow> 'f \<Rightarrow> ('k, 'f, 'z) loop_scheme \<Rightarrow>
   ('k, 'f, 'z) loop_scheme result" where
  "loop_runInLoop call cb w = (if inLoopThread w then call cb w else Inr (loop_queueInLoop cb w))"

definition queueSize :: "('k, 'f, 'z) loop_scheme \<Rightarrow> nat" where
  "queueSize w = length (l_pending w)"

definition loop_quit :: "('k, 'f, 'z) loop_scheme \<Rightarrow> ('k, 'f, 'z) loop_scheme" where
  "loop_quit w =
     (if \<not> l_looping w then w\<lparr>l_quit := False\<rparr>
      else let w1 = w\<lparr>l_quit := True\<rparr> in if \<not> inLoopThread w1 then loop_wakeup w1 else w1)"

definition doPendingFunctors ::
  "('f \<Rightarrow> ('k, 'f, 'z) loop_scheme \<Rightarrow> ('k, 'f, 'z) loop_scheme result) \<Rightarrow> ('k, 'f, 'z) loop_scheme \<Rightarrow>
   ('k, 'f, 'z) loop_scheme result" where
  "doPendingFunctors call w =
     (let functors = l_pending w
      in bindR (foldR call functors (w\<lparr>l_callingPendingFunctors := True, l_pending := []\<rparr>)) (\<lambda>w1.
           Inr (w1\<lparr>l_callingPendingFunctors := False\<rparr>)))"

section \<open>The loop\<close>

text \<open>
  What happens in one turn: the answer of \<^verbatim>\<open>epoll_wait\<close> and the time it returns, the times that the alarm reads, and what
  the timer callbacks do, given the queue (which knows the addresses that are free).
\<close>

record turn =
  tn_reply :: epoll_reply
  tn_time :: timestamp
  tn_alarm :: timestamp
  tn_clock :: timestamp
  tn_acts :: "timerQueue \<Rightarrow> addr \<Rightarrow> timer_cmd list"

definition only_read :: "('w \<Rightarrow> 'w result) \<Rightarrow> (timestamp, 'w) callbacks" where
  "only_read f = \<lparr>readCallback = Some (\<lambda>_. f), writeCallback = None, closeCallback = None, errorCallback = None\<rparr>"

definition loop_callbacks ::
  "ts_lib \<Rightarrow> (addr \<Rightarrow> (timestamp, ('k, 'f, 'z) loop_scheme) callbacks) \<Rightarrow> turn \<Rightarrow> addr \<Rightarrow> addr \<Rightarrow> addr \<Rightarrow>
   (timestamp, ('k, 'f, 'z) loop_scheme) callbacks" where
  "loop_callbacks lib user tn pt pw p =
     (if p = pw then only_read (\<lambda>w. Inr (loop_handleRead w))
      else if p = pt
      then only_read (\<lambda>w. bindR (handleRead_tq lib (tn_alarm tn) (tn_clock tn) (tn_acts tn (l_timerQueue w)) (l_timerQueue w)) (\<lambda>q.
             Inr (w\<lparr>l_timerQueue := q\<rparr>)))
      else user p)"

text \<open>The body of \<^verbatim>\<open>while (!quit_)\<close>, and the loop on the turns that take place while it runs; after \<^verbatim>\<open>quit_\<close> is set nothing
  more happens.\<close>

definition loop_turn ::
  "ts_lib \<Rightarrow> (('k, 'f, 'z) loop_scheme \<Rightarrow> nat \<Rightarrow> bool) \<Rightarrow> (addr \<Rightarrow> (timestamp, ('k, 'f, 'z) loop_scheme) callbacks) \<Rightarrow>
   ('f \<Rightarrow> ('k, 'f, 'z) loop_scheme \<Rightarrow> ('k, 'f, 'z) loop_scheme result) \<Rightarrow> turn \<Rightarrow> ('k, 'f, 'z) loop_scheme \<Rightarrow>
   ('k, 'f, 'z) loop_scheme result" where
  "loop_turn lib alive user call tn w =
     (if l_quit w then Inr w
      else loop_iteration alive (loop_callbacks lib user tn (l_timerChannel w) (l_wakeupChannel w)) (tn_time tn) (tn_reply tn)
             (doPendingFunctors call) (w\<lparr>l_pollReturnTime := tn_time tn, l_iteration := l_iteration w + 1\<rparr>))"

definition loop_run ::
  "ts_lib \<Rightarrow> (('k, 'f, 'z) loop_scheme \<Rightarrow> nat \<Rightarrow> bool) \<Rightarrow> (addr \<Rightarrow> (timestamp, ('k, 'f, 'z) loop_scheme) callbacks) \<Rightarrow>
   ('f \<Rightarrow> ('k, 'f, 'z) loop_scheme \<Rightarrow> ('k, 'f, 'z) loop_scheme result) \<Rightarrow> turn list \<Rightarrow> ('k, 'f, 'z) loop_scheme \<Rightarrow>
   ('k, 'f, 'z) loop_scheme result" where
  "loop_run lib alive user call turns w =
     assertR (\<not> l_looping w) (assertInLoopThread w
       (bindR (foldR (loop_turn lib alive user call) turns (w\<lparr>l_looping := True, l_quit := False\<rparr>)) (\<lambda>w1.
          Inr (if l_quit w1 then w1\<lparr>l_looping := False\<rparr> else w1))))"

section \<open>The invariant\<close>

text \<open>A channel of the loop's own: it is registered for reading and is not tied to an object.\<close>

definition own_channel :: "addr \<Rightarrow> int \<Rightarrow> ('k, 'z) reactor_scheme \<Rightarrow> bool" where
  "own_channel p fd w \<longleftrightarrow>
     (\<exists>c. heap w p = Some c \<and> ch_fd c = fd \<and> ch_events c = kReadEvent \<and> ch_index c = kAdded \<and> \<not> ch_tied c)"

text \<open>\<open>(pt, tfd, pw, wfd)\<close> are the channels and descriptors of the timer queue and of the eventfd; \<open>x\<close> is the channel that
  is being handled.\<close>

definition loop_ids :: "addr \<times> int \<times> addr \<times> int \<Rightarrow> ('k, 'f, 'z) loop_scheme \<Rightarrow> bool" where
  "loop_ids ids w \<longleftrightarrow> ids = (l_timerChannel w, l_timerfd w, l_wakeupChannel w, l_wakeupFd w) \<and>
     l_timerChannel w \<noteq> l_wakeupChannel w \<and> l_closed w = []"

definition object_inv ::
  "ts_lib \<Rightarrow> ('k \<Rightarrow> int \<Rightarrow> epoll_event option) \<Rightarrow> addr \<times> int \<times> addr \<times> int \<Rightarrow> addr option \<Rightarrow> ('k, 'f, 'z) loop_scheme \<Rightarrow> bool" where
  "object_inv lib interest ids x w \<longleftrightarrow>
     reactor_inv interest w \<and> idle_inv lib (l_timerQueue w) \<and> loop_ids ids w \<and>
     own_channel (l_timerChannel w) (l_timerfd w) w \<and> own_channel (l_wakeupChannel w) (l_wakeupFd w) w \<and>
     (\<forall>p c. heap w p = Some c \<longrightarrow> ch_eventHandling c \<longrightarrow> x = Some p)"

lemma object_invD:
  assumes "object_inv lib interest ids x w"
  shows "reactor_inv interest w" "idle_inv lib (l_timerQueue w)" "loop_ids ids w"
    "own_channel (l_timerChannel w) (l_timerfd w) w" "own_channel (l_wakeupChannel w) (l_wakeupFd w) w"
    "heap w p = Some c \<Longrightarrow> ch_eventHandling c \<Longrightarrow> x = Some p"
  using assms unfolding object_inv_def by blast+

text \<open>The invariant while the events of a turn are handled: the channels of \<open>S\<close>, which were alive at its start, still are.\<close>

definition turn_inv ::
  "ts_lib \<Rightarrow> ('k \<Rightarrow> int \<Rightarrow> epoll_event option) \<Rightarrow> addr \<times> int \<times> addr \<times> int \<Rightarrow> addr set \<Rightarrow> addr option \<Rightarrow>
   ('k, 'f, 'z) loop_scheme \<Rightarrow> bool" where
  "turn_inv lib interest ids S x w \<longleftrightarrow> object_inv lib interest ids x w \<and> S \<subseteq> dom (heap w)"

text \<open>The fields that the poller and the loop's bookkeeping write.\<close>

lemma object_inv_frame:
  assumes "object_inv lib interest ids x w" "reactor_inv interest v" "l_timerQueue v = l_timerQueue w"
    "l_timerChannel v = l_timerChannel w" "l_timerfd v = l_timerfd w" "l_wakeupChannel v = l_wakeupChannel w"
    "l_wakeupFd v = l_wakeupFd w" "l_closed v = l_closed w"
    "\<And>p c. heap w p = Some c \<Longrightarrow> \<exists>ev. heap v p = Some (set_revents ev c)" "\<And>p. heap w p = None \<Longrightarrow> heap v p = None"
  shows "object_inv lib interest ids x v"
proof -
  have own: "own_channel p fd v" if "own_channel p fd w" for p fd
    using that assms(9) [of p] by (fastforce simp: own_channel_def set_revents_def)
  have "x = Some p" if c: "heap v p = Some c" "ch_eventHandling c" for p c
  proof (cases "heap w p")
    case None
    then show ?thesis using assms(10) c(1) by simp
  next
    case (Some d)
    with assms(9) [OF Some] c show ?thesis using object_invD(6) [OF assms(1) Some] by (auto simp: set_revents_def)
  qed
  then show ?thesis using assms own object_invD(2-5) [OF assms(1)] by (simp add: object_inv_def loop_ids_def)
qed

lemma object_inv_same:
  assumes "object_inv lib interest ids x w" "heap v = heap w" "channels v = channels w" "kern v = kern w"
    "inLoopThread v = inLoopThread w" "idle_inv lib (l_timerQueue v)" "loop_ids ids v"
  shows "object_inv lib interest ids x v"
proof -
  have i: "l_timerChannel v = l_timerChannel w" "l_timerfd v = l_timerfd w" "l_wakeupChannel v = l_wakeupChannel w"
      "l_wakeupFd v = l_wakeupFd w" using assms(7) object_invD(3) [OF assms(1)] by (auto simp: loop_ids_def)
  have o: "own_channel p fd v \<longleftrightarrow> own_channel p fd w" for p fd by (simp add: own_channel_def assms(2))
  have r: "reactor_inv interest v" using reactor_inv_cong [OF assms(2-5)] object_invD(1) [OF assms(1)] by blast
  show ?thesis
    unfolding object_inv_def i o using r assms(2,6,7) object_invD(4,5,6) [OF assms(1)] by auto
qed

lemma object_inv_keep:
  assumes "object_inv lib interest ids x w" "heap v = heap w" "channels v = channels w" "kern v = kern w"
    "inLoopThread v = inLoopThread w" "l_timerQueue v = l_timerQueue w" "l_timerChannel v = l_timerChannel w"
    "l_timerfd v = l_timerfd w" "l_wakeupChannel v = l_wakeupChannel w" "l_wakeupFd v = l_wakeupFd w" "l_closed v = l_closed w"
  shows "object_inv lib interest ids x v"
  by (rule object_inv_same [OF assms(1-5)]) (use assms(6-11) object_invD(2,3) [OF assms(1)] in \<open>simp_all add: loop_ids_def\<close>)

lemma object_inv_mark:
  assumes inv: "object_inv lib interest ids x w" and c: "heap w p = Some c" and b: "b \<Longrightarrow> x = None \<and> y = Some p" "\<not> b \<Longrightarrow> x = Some p"
  shows "object_inv lib interest ids y (set_chan p (c\<lparr>ch_eventHandling := b\<rparr>) w)"
proof -
  let ?w = "set_chan p (c\<lparr>ch_eventHandling := b\<rparr>) w"
  note D = object_invD [OF inv]
  have f: "l_timerQueue ?w = l_timerQueue w" "l_timerChannel ?w = l_timerChannel w" "l_timerfd ?w = l_timerfd w"
      "l_wakeupChannel ?w = l_wakeupChannel w" "l_wakeupFd ?w = l_wakeupFd w" "l_closed ?w = l_closed w"
    by (simp_all add: set_chan_def)
  have own: "own_channel q fd ?w" if "own_channel q fd w" for q fd
    using that c by (auto simp: own_channel_def)
  have "y = Some q" if d: "heap ?w q = Some d" "ch_eventHandling d" for q d
  proof (cases "q = p")
    case True
    then show ?thesis using d b by (cases b) auto
  next
    case False
    then have "x = Some q" using d D(6) by simp
    then show ?thesis using b False by (cases b) auto
  qed
  then show ?thesis unfolding object_inv_def loop_ids_def f
    using handling_reactor_inv [OF D(1) c] D(2,3) own [OF D(4)] own [OF D(5)] by (auto simp: loop_ids_def)
qed

interpretation turns: handled_world "turn_inv lib interest ids S" S for lib interest ids S
proof
  fix x w p
  assume w: "turn_inv lib interest ids S x w" and p: "p \<in> S"
  then show "\<exists>c. heap w p = Some c" by (auto simp: turn_inv_def)
next
  fix w p c
  assume w: "turn_inv lib interest ids S None w" and c: "heap w p = Some c"
  then show "turn_inv lib interest ids S (Some p) (set_chan p (c\<lparr>ch_eventHandling := True\<rparr>) w)"
    using object_inv_mark [of lib interest ids None w p c True "Some p"] by (auto simp: turn_inv_def)
next
  fix w p c
  assume w: "turn_inv lib interest ids S (Some p) w" and c: "heap w p = Some c"
  then show "turn_inv lib interest ids S None (set_chan p (c\<lparr>ch_eventHandling := False\<rparr>) w)"
    using object_inv_mark [of lib interest ids "Some p" w p c False None] by (auto simp: turn_inv_def)
next
  fix w y
  assume w: "turn_inv lib interest ids S None w"
  then have i: "object_inv lib interest ids None w" by (simp add: turn_inv_def)
  have "object_inv lib interest ids None (w\<lparr>currentActiveChannel := y\<rparr>)" by (rule object_inv_keep [OF i]) simp_all
  with w show "turn_inv lib interest ids S None (w\<lparr>currentActiveChannel := y\<rparr>)" by (simp add: turn_inv_def)
qed

section \<open>A turn is safe\<close>

lemma fill_channels_frame:
  "fill_channels es w = Inr w' \<Longrightarrow> \<exists>h. w' = w\<lparr>heap := h, activeChannels := activeChannels w @ map snd es\<rparr> \<and>
    (\<forall>p c. heap w p = Some c \<longrightarrow> (\<exists>ev. h p = Some (set_revents ev c))) \<and> (\<forall>p. heap w p = None \<longrightarrow> h p = None)"
proof (induction es arbitrary: w)
  case Nil
  have "c = set_revents (ch_revents c) c" for c by (cases c) (simp add: set_revents_def)
  then show ?case using Nil by (intro exI [of _ "heap w"]) auto
next
  case (Cons x es)
  obtain ev p where x: "x = (ev, p)" by (cases x)
  obtain c where c: "heap w p = Some c" using Cons.prems x by (auto simp: deref_def split: option.splits)
  let ?w = "(set_chan p (set_revents ev c) w)\<lparr>activeChannels := activeChannels w @ [p]\<rparr>"
  have "fill_channels es ?w = Inr w'" using Cons.prems x c by (simp add: deref_def assertR_eq_Inr)
  from Cons.IH [OF this] obtain h where
    h: "w' = ?w\<lparr>heap := h, activeChannels := activeChannels ?w @ map snd es\<rparr>"
      "\<And>q d. heap ?w q = Some d \<Longrightarrow> \<exists>ev. h q = Some (set_revents ev d)" "\<And>q. heap ?w q = None \<Longrightarrow> h q = None" by blast
  have "\<exists>ev. h q = Some (set_revents ev d)" if "heap w q = Some d" for q d
    using that h(2) [of q] c by (cases "q = p") (auto simp: set_revents_def)
  moreover have "h q = None" if "heap w q = None" for q using that h(3) [of q] c by (cases "q = p") auto
  ultimately show ?case using h(1) x by (intro exI [of _ h]) (simp add: set_chan_def)
qed

lemma poll_object_inv:
  assumes inv: "object_inv lib interest ids None w" and r: "reply_ok interest es w" and a: "activeChannels w = []"
  shows "\<exists>w'. poll (Ready es) w = Inr w' \<and> turn_inv lib interest ids (dom (heap w)) None w' \<and>
    set (activeChannels w') \<subseteq> dom (heap w)"
proof -
  note D = object_invD [OF inv]
  obtain w' where w': "poll (Ready es) w = Inr w'" "reactor_inv interest w'" "activeChannels w' = map snd es"
    using poll_ok [OF D(1) r a] by blast
  obtain h e where h: "w' = w\<lparr>heap := h, activeChannels := activeChannels w', events_size := e\<rparr>"
      "\<And>p c. heap w p = Some c \<Longrightarrow> \<exists>ev. h p = Some (set_revents ev c)" "\<And>p. heap w p = None \<Longrightarrow> h p = None"
  proof (cases "es = []")
    case True
    have "c = set_revents (ch_revents c) c" for c by (cases c) (simp add: set_revents_def)
    then show thesis using w'(1) True by (intro that [of "events_size w" "heap w"]) (auto simp: poll_def)
  next
    case False
    then obtain w1 where w1: "fill_channels es w = Inr w1" "w' = w1 \<or> w' = w1\<lparr>events_size := events_size w1 * 2\<rparr>"
      using w'(1) by (auto simp: poll_def fillActiveChannels_def bindR_eq_Inr assertR_eq_Inr split: if_splits)
    from fill_channels_frame [OF w1(1)] obtain h where
      h: "w1 = w\<lparr>heap := h, activeChannels := activeChannels w @ map snd es\<rparr>"
        "\<And>p c. heap w p = Some c \<Longrightarrow> \<exists>ev. h p = Some (set_revents ev c)" "\<And>p. heap w p = None \<Longrightarrow> h p = None" by blast
    show thesis using w1(2) h by (intro that [of "events_size w'" h]) auto
  qed
  have f: "heap w' = h" "l_timerQueue w' = l_timerQueue w" "l_timerChannel w' = l_timerChannel w" "l_timerfd w' = l_timerfd w"
      "l_wakeupChannel w' = l_wakeupChannel w" "l_wakeupFd w' = l_wakeupFd w" "l_closed w' = l_closed w"
    by (subst h(1), simp)+
  have "object_inv lib interest ids None w'"
    by (rule object_inv_frame [OF inv w'(2)]) (use f h(2,3) in simp_all)
  moreover have "dom (heap w) \<subseteq> dom (heap w')" using h(2) f(1) by fastforce
  moreover have "set (activeChannels w') \<subseteq> dom (heap w)"
  proof
    fix p assume "p \<in> set (activeChannels w')"
    then obtain ev where "(ev, p) \<in> set es" using w'(3) by auto
    then obtain fd e where "interest (kern w) fd = Some (e, p)" using r by (auto simp: reply_ok_def)
    then show "p \<in> dom (heap w)" using watched_live [OF D(1)] by blast
  qed
  ultimately show ?thesis using w'(1) by (simp add: turn_inv_def)
qed

text \<open>What the program has to respect in a turn: the kernel reports registered channels, the timer callbacks use free
  addresses, and neither the callbacks of channels nor the functors harm the loop.\<close>

definition turn_ok ::
  "ts_lib \<Rightarrow> ('k \<Rightarrow> int \<Rightarrow> epoll_event option) \<Rightarrow> turn \<Rightarrow> ('k, 'f, 'z) loop_scheme \<Rightarrow> bool" where
  "turn_ok lib interest tn w \<longleftrightarrow>
     (case tn_reply tn of Ready es \<Rightarrow> reply_ok interest es w | EpollError \<Rightarrow> True) \<and>
     (\<forall>q. idle_inv lib q \<longrightarrow> alarm_ok lib (tn_alarm tn) (tn_acts tn q) q)"

definition quiet_inv ::
  "ts_lib \<Rightarrow> ('k \<Rightarrow> int \<Rightarrow> epoll_event option) \<Rightarrow> addr \<times> int \<times> addr \<times> int \<Rightarrow> ('k, 'f, 'z) loop_scheme \<Rightarrow> bool" where
  "quiet_inv lib interest ids w \<longleftrightarrow> object_inv lib interest ids None w \<and> \<not> eventHandling w"

definition user_ok ::
  "ts_lib \<Rightarrow> ('k \<Rightarrow> int \<Rightarrow> epoll_event option) \<Rightarrow> addr \<times> int \<times> addr \<times> int \<Rightarrow>
   (addr \<Rightarrow> (timestamp, ('k, 'f, 'z) loop_scheme) callbacks) \<Rightarrow>
   ('f \<Rightarrow> ('k, 'f, 'z) loop_scheme \<Rightarrow> ('k, 'f, 'z) loop_scheme result) \<Rightarrow> bool" where
  "user_ok lib interest ids user call \<longleftrightarrow>
     (\<forall>S p. callbacks_keep (turn_inv lib interest ids S (Some p)) (user p)) \<and>
     (\<forall>f. cb_keeps (quiet_inv lib interest ids) (call f))"

lemma only_read_keeps: "cb_keeps I f \<Longrightarrow> callbacks_keep I (only_read f)"
  by (simp add: callbacks_keep_def only_read_def)

lemma wakeup_callback_keeps:
  assumes "turn_inv lib interest ids S x w"
  shows "turn_inv lib interest ids S x (loop_handleRead w)"
proof -
  have i: "object_inv lib interest ids x w" using assms by (simp add: turn_inv_def)
  have "object_inv lib interest ids x (loop_handleRead w)"
    by (rule object_inv_keep [OF i]) (simp_all add: loop_handleRead_def)
  then show ?thesis using assms by (simp add: turn_inv_def loop_handleRead_def)
qed

lemma timer_callback_keeps:
  assumes "ts_contract lib" "turn_inv lib interest ids S x w"
    "\<forall>q. idle_inv lib q \<longrightarrow> alarm_ok lib (tn_alarm tn) (tn_acts tn q) q"
  shows "\<exists>w'. bindR (handleRead_tq lib (tn_alarm tn) (tn_clock tn) (tn_acts tn (l_timerQueue w)) (l_timerQueue w)) (\<lambda>q.
             Inr (w\<lparr>l_timerQueue := q\<rparr>)) = Inr w' \<and> turn_inv lib interest ids S x w'"
proof -
  have i: "object_inv lib interest ids x w" using assms(2) by (simp add: turn_inv_def)
  note D = object_invD [OF i]
  have "alarm_ok lib (tn_alarm tn) (tn_acts tn (l_timerQueue w)) (l_timerQueue w)" using assms(3) D(2) by blast
  from handleRead_tq_ok [OF assms(1) D(2) this, of "tn_clock tn"] obtain q where
    q: "handleRead_tq lib (tn_alarm tn) (tn_clock tn) (tn_acts tn (l_timerQueue w)) (l_timerQueue w) = Inr q" "idle_inv lib q" by blast
  have "object_inv lib interest ids x (w\<lparr>l_timerQueue := q\<rparr>)"
    by (rule object_inv_same [OF i]) (use q(2) D(3) in \<open>simp_all add: loop_ids_def\<close>)
  then show ?thesis using q(1) assms(2) by (simp add: turn_inv_def)
qed

lemma own_callbacks_keep:
  "callbacks_keep (turn_inv lib interest ids S x) (only_read (\<lambda>w. Inr (loop_handleRead w)))"
  "ts_contract lib \<Longrightarrow> \<forall>q. idle_inv lib q \<longrightarrow> alarm_ok lib (tn_alarm tn) (tn_acts tn q) q \<Longrightarrow>
   callbacks_keep (turn_inv lib interest ids S x)
     (only_read (\<lambda>w. bindR (handleRead_tq lib (tn_alarm tn) (tn_clock tn) (tn_acts tn (l_timerQueue w)) (l_timerQueue w)) (\<lambda>q.
             Inr (w\<lparr>l_timerQueue := q\<rparr>))))"
  by (rule only_read_keeps, simp add: cb_keeps_def wakeup_callback_keeps)
    (rule only_read_keeps, unfold cb_keeps_def, intro allI impI, rule timer_callback_keeps)

lemma loop_callbacks_keep:
  assumes "ts_contract lib" "\<forall>q. idle_inv lib q \<longrightarrow> alarm_ok lib (tn_alarm tn) (tn_acts tn q) q"
    "user_ok lib interest ids user call"
  shows "callbacks_keep (turn_inv lib interest ids S (Some p)) (loop_callbacks lib user tn pt pw p)"
  using assms(3) by (simp add: loop_callbacks_def user_ok_def own_callbacks_keep(1) own_callbacks_keep(2) [OF assms(1,2)])

lemma doPendingFunctors_ok:
  assumes "quiet_inv lib interest ids w" "\<And>f. cb_keeps (quiet_inv lib interest ids) (call f)"
  shows "\<exists>w'. doPendingFunctors call w = Inr w' \<and> quiet_inv lib interest ids w'"
proof -
  have keep: "quiet_inv lib interest ids v" if "quiet_inv lib interest ids u" "v = u\<lparr>l_callingPendingFunctors := b, l_pending := fs\<rparr>"
    for u v :: "('a, 'b, 'c) loop_scheme" and b fs
    unfolding that(2) quiet_inv_def using that(1) by (auto simp: quiet_inv_def intro: object_inv_keep)
  let ?w = "w\<lparr>l_callingPendingFunctors := True, l_pending := []\<rparr>"
  obtain w1 where w1: "foldR call (l_pending w) ?w = Inr w1" "quiet_inv lib interest ids w1"
    using foldR_keeps [of "quiet_inv lib interest ids" call ?w, OF assms(2) keep [OF assms(1) refl]] by blast
  have "quiet_inv lib interest ids (w1\<lparr>l_callingPendingFunctors := False\<rparr>)"
    by (rule keep [OF w1(2), where b = False and fs = "l_pending w1"]) simp
  then show ?thesis using w1(1) by (simp add: doPendingFunctors_def)
qed

lemma loop_turn_ok:
  assumes "ts_contract lib" "quiet_inv lib interest ids w" "turn_ok lib interest tn w" "user_ok lib interest ids user call"
  shows "\<exists>w'. loop_turn lib alive user call tn w = Inr w' \<and> quiet_inv lib interest ids w'"
proof (cases "l_quit w")
  case True
  then show ?thesis using assms(2) by (simp add: loop_turn_def)
next
  case False
  let ?w = "w\<lparr>l_pollReturnTime := tn_time tn, l_iteration := l_iteration w + 1\<rparr>"
  let ?cbs = "loop_callbacks lib user tn (l_timerChannel w) (l_wakeupChannel w)"
  have i0: "object_inv lib interest ids None w" using assms(2) by (simp add: quiet_inv_def)
  have i: "object_inv lib interest ids None (?w\<lparr>activeChannels := []\<rparr>)" by (rule object_inv_keep [OF i0]) simp_all
  have "\<exists>w1. poll (tn_reply tn) (?w\<lparr>activeChannels := []\<rparr>) = Inr w1 \<and>
      turn_inv lib interest ids (dom (heap w)) None w1 \<and> set (activeChannels w1) \<subseteq> dom (heap w)"
  proof (cases "tn_reply tn")
    case (Ready es)
    then have "reply_ok interest es (?w\<lparr>activeChannels := []\<rparr>)" using assms(3) by (simp add: turn_ok_def reply_ok_def)
    from poll_object_inv [OF i this] Ready show ?thesis by simp
  next
    case EpollError
    then show ?thesis using i by (simp add: poll_def turn_inv_def)
  qed
  then obtain w1 where w1: "poll (tn_reply tn) (?w\<lparr>activeChannels := []\<rparr>) = Inr w1"
      "turn_inv lib interest ids (dom (heap w)) None w1" "set (activeChannels w1) \<subseteq> dom (heap w)" by blast
  have "object_inv lib interest ids None (w1\<lparr>eventHandling := True\<rparr>)"
    by (rule object_inv_keep [of lib interest ids None w1]) (use w1(2) in \<open>simp_all add: turn_inv_def\<close>)
  then have i1: "turn_inv lib interest ids (dom (heap w)) None (w1\<lparr>eventHandling := True\<rparr>)" using w1(2) by (simp add: turn_inv_def)
  have "\<forall>q. idle_inv lib q \<longrightarrow> alarm_ok lib (tn_alarm tn) (tn_acts tn q) q" using assms(3) by (simp add: turn_ok_def)
  note kp = loop_callbacks_keep [OF assms(1) this assms(4), of "dom (heap w)" _ "l_timerChannel w" "l_wakeupChannel w"]
  from turns.handle_active_keeps [where cbs = ?cbs, OF i1 w1(3) kp, of alive "tn_time tn"] obtain w2 where
    w2: "handle_active alive ?cbs (tn_time tn) (activeChannels w1) (w1\<lparr>eventHandling := True\<rparr>) = Inr w2"
      "turn_inv lib interest ids (dom (heap w)) None w2" by blast
  let ?w2 = "w2\<lparr>currentActiveChannel := None, eventHandling := False\<rparr>"
  have "object_inv lib interest ids None ?w2"
    by (rule object_inv_keep [of lib interest ids None w2]) (use w2(2) in \<open>simp_all add: turn_inv_def\<close>)
  then have "quiet_inv lib interest ids ?w2" by (simp add: quiet_inv_def)
  from doPendingFunctors_ok [OF this, of call] assms(4) obtain w3 where
    "doPendingFunctors call ?w2 = Inr w3" "quiet_inv lib interest ids w3" by (auto simp: user_ok_def)
  then show ?thesis using False w1(1) w2(1) by (simp add: loop_turn_def loop_iteration_def)
qed

section \<open>Construction and destruction are safe\<close>

lemma watched_same: "heap v = heap w \<Longrightarrow> channels v = channels w \<Longrightarrow> watched v = watched w"
  by (rule ext) (simp add: watched_def cong: option.case_cong)

text \<open>A new channel that is registered for reading.\<close>

lemma register_ok:
  assumes k: "epoll_contract ctl interest" and inv: "reactor_inv interest w" and free: "heap w p = None" "channels w fd = None"
  shows "\<exists>c k'. enableReading ctl p (set_chan p (Channel fd) w) =
      Inr (w\<lparr>heap := (heap w)(p \<mapsto> c), channels := (channels w)(fd \<mapsto> p), kern := k'\<rparr>) \<and>
    reactor_inv interest (w\<lparr>heap := (heap w)(p \<mapsto> c), channels := (channels w)(fd \<mapsto> p), kern := k'\<rparr>) \<and>
    ch_fd c = fd \<and> ch_events c = kReadEvent \<and> ch_index c = kAdded \<and> \<not> ch_tied c \<and> \<not> ch_eventHandling c \<and>
    interest k' = (interest (kern w))(fd \<mapsto> (kReadEvent, p))"
proof -
  let ?v = "set_chan p (Channel fd) w" and ?c = "reading_on (Channel fd)"
  have i: "reactor_inv interest ?v" by (rule new_channel_inv [OF inv free(1)])
  have h: "heap ?v p = Some (Channel fd)" by simp
  have "ch_index (Channel fd) = kNew \<Longrightarrow> channels ?v (ch_fd (Channel fd)) = None" using free(2) by (simp add: Channel_def)
  from switch_ok [OF k i h this switches(1)] obtain k' where
    k': "enableReading ctl p ?v = Inr (updated p ?c k' ?v)" "reactor_inv interest (updated p ?c k' ?v)"
    by (auto simp: enableReading_def)
  have n: "next_index ?c = kAdded" by (simp add: next_index_def reading_on_def Channel_def index_defs)
  have f: "ch_fd ?c = fd" "ch_events ?c = kReadEvent" by (simp_all add: reading_on_def Channel_def kNoneEvent_def)
  let ?d = "?c\<lparr>ch_addedToLoop := True, ch_index := next_index ?c\<rparr>"
  have u: "updated p ?c k' ?v = w\<lparr>heap := (heap w)(p \<mapsto> ?d), channels := (channels w)(fd \<mapsto> p), kern := k'\<rparr>"
    using f(1) by (simp add: updated_def set_chan_def)
  have "interest k' = watched (updated p ?c k' ?v)" using reactor_invD(4) [OF k'(2)] by (simp add: updated_def)
  also have "\<dots> = (watched ?v)(fd \<mapsto> (kReadEvent, p))" using watched_updated [OF i h, of ?c k'] f n by (simp add: Channel_def)
  also have "watched ?v = interest (kern w)" using reactor_invD(4) [OF i] by simp
  finally have "interest k' = (interest (kern w))(fd \<mapsto> (kReadEvent, p))" .
  moreover have "ch_fd ?d = fd" "ch_events ?d = kReadEvent" "ch_index ?d = kAdded" "\<not> ch_tied ?d" "\<not> ch_eventHandling ?d"
    using f n by (simp_all add: reading_on_def Channel_def)
  ultimately show ?thesis using k' unfolding u by blast
qed

text \<open>\<^verbatim>\<open>disableAll\<close>, \<^verbatim>\<open>remove\<close> and the destructor of a channel, in a row.\<close>

lemma unregister_ok:
  assumes k: "epoll_contract ctl interest" and inv: "reactor_inv interest w" and c: "heap w p = Some c" "ch_index c = kAdded"
    and q: "\<not> eventHandling w" "\<not> ch_eventHandling c"
  shows "\<exists>k' d w1. disableAll ctl p w = Inr w1 \<and>
    chan_remove ctl p w1 = Inr (w\<lparr>heap := (heap w)(p \<mapsto> d), channels := (channels w)(ch_fd c := None), kern := k'\<rparr>) \<and>
    reactor_inv interest (w\<lparr>heap := (heap w)(p \<mapsto> d), channels := (channels w)(ch_fd c := None), kern := k'\<rparr>) \<and>
    ch_index d = kNew \<and> \<not> ch_eventHandling d \<and> interest k' = (interest (kern w))(ch_fd c := None) \<and>
    (\<exists>h cs k1. w1 = w\<lparr>heap := h, channels := cs, kern := k1\<rparr>)"
proof -
  let ?c = "all_off c"
  have a: "ch_fd ?c = ch_fd c" "ch_index ?c = kAdded" "isNoneEvent ?c" "\<not> ch_eventHandling ?c"
    using c(2) q(2) by (simp_all add: all_off_def isNoneEvent_def)
  obtain k1 where k1: "disableAll ctl p w = Inr (updated p ?c k1 w)" "reactor_inv interest (updated p ?c k1 w)"
    using switch_ok [OF k inv c(1) _ switches(5)] c(2) by (auto simp: disableAll_def index_defs)
  let ?w1 = "updated p ?c k1 w" and ?c1 = "?c\<lparr>ch_addedToLoop := True, ch_index := next_index ?c\<rparr>"
  have h1: "heap ?w1 p = Some ?c1" by (simp add: updated_def)
  have n: "next_index ?c = kDeleted" using a by (simp add: next_index_def)
  have ok: "ch_index ?c1 \<noteq> kNew" "isNoneEvent ?c1"
      "eventHandling ?w1 \<longrightarrow> currentActiveChannel ?w1 = Some p \<or> p \<notin> set (activeChannels ?w1)"
    using n a(3) q(1) by (simp_all add: index_defs isNoneEvent_def updated_def)
  from chan_remove_ok [OF k k1(2) h1 ok] obtain k2 where
    k2: "chan_remove ctl p ?w1 = Inr (removed p ?c1 k2 ?w1)" "reactor_inv interest (removed p ?c1 k2 ?w1)" by blast
  let ?d = "?c1\<lparr>ch_addedToLoop := False, ch_index := kNew\<rparr>"
  let ?w2 = "w\<lparr>heap := (heap w)(p \<mapsto> ?d), channels := (channels w)(ch_fd c := None), kern := k2\<rparr>"
  have e: "removed p ?c1 k2 ?w1 = ?w2" using a(1) by (simp add: removed_def updated_def)
  have "interest k2 = watched (removed p ?c1 k2 ?w1)" using reactor_invD(4) [OF k2(2)] by (simp add: removed_def)
  also have "\<dots> = (watched ?w1)(ch_fd c := None)" using watched_removed [OF k1(2) h1] a(1) by simp
  also have "\<dots> = (watched w)(ch_fd c := None)" using watched_updated [OF inv c(1) a(1)] a(1) by simp
  finally have "interest k2 = (interest (kern w))(ch_fd c := None)" using reactor_invD(4) [OF inv] by simp
  then show ?thesis using k1(1) k2 a(4) unfolding e
    by (intro exI [of _ k2] exI [of _ ?d] exI [of _ ?w1]) (auto simp: updated_def)
qed

lemma EventLoop_ctor_ok:
  assumes k: "epoll_contract ctl interest" "interest k = Map.empty" and d: "pt \<noteq> pw" "tfd \<noteq> wfd" "0 \<le> tfd" "0 \<le> wfd"
  shows "\<exists>w. EventLoop_ctor ctl pt tfd pw wfd (raw_loop k False) = Inr w \<and> quiet_inv lib interest (pt, tfd, pw, wfd) w \<and>
    interest (kern w) = [tfd \<mapsto> (kReadEvent, pt), wfd \<mapsto> (kReadEvent, pw)] \<and> dom (heap w) = {pt, pw} \<and>
    \<not> l_looping w \<and> l_pending w = [] \<and> l_timerQueue w = TimerQueue"
proof -
  let ?r = "raw_loop k False :: ('a, 'b) loop"
  have raw: "heap ?r = Map.empty" "channels ?r = Map.empty" "kern ?r = k" "inLoopThread ?r" "\<not> eventHandling ?r"
      "\<not> l_looping ?r" "l_pending ?r = []" "\<not> l_inThisThread ?r" "l_closed ?r = []"
    by (simp_all add: raw_loop_def EPollPoller_def reactor.defs)
  let ?r1 = "?r\<lparr>l_timerQueue := TimerQueue, l_timerfd := tfd, l_timerChannel := pt\<rparr>"
  have i0: "reactor_inv interest ?r1" using raw k(2) by (simp add: reactor_inv_def watched_def fun_eq_iff)
  obtain c1 k1 where c1: "enableReading ctl pt (set_chan pt (Channel tfd) ?r1) =
        Inr (?r1\<lparr>heap := (heap ?r1)(pt \<mapsto> c1), channels := (channels ?r1)(tfd \<mapsto> pt), kern := k1\<rparr>)"
      "reactor_inv interest (?r1\<lparr>heap := (heap ?r1)(pt \<mapsto> c1), channels := (channels ?r1)(tfd \<mapsto> pt), kern := k1\<rparr>)"
      "ch_fd c1 = tfd" "ch_events c1 = kReadEvent" "ch_index c1 = kAdded" "\<not> ch_tied c1" "\<not> ch_eventHandling c1"
      "interest k1 = (interest (kern ?r1))(tfd \<mapsto> (kReadEvent, pt))"
    using register_ok [OF k(1) i0, of pt tfd] raw by auto
  let ?w1 = "?r1\<lparr>heap := (heap ?r1)(pt \<mapsto> c1), channels := (channels ?r1)(tfd \<mapsto> pt), kern := k1\<rparr>"
  have t: "TimerQueue_ctor ctl pt tfd ?r = Inr ?w1"
    using c1(1) d(3) by (simp add: TimerQueue_ctor_def createTimerfd_def new_channel_def)
  let ?w2 = "?w1\<lparr>l_wakeupFd := wfd, l_wakeupChannel := pw, l_inThisThread := True\<rparr>"
  have i1: "reactor_inv interest ?w2" by (rule reactor_inv_cong [THEN iffD2, OF _ _ _ _ c1(2)]) simp_all
  obtain c2 k2 where c2: "enableReading ctl pw (set_chan pw (Channel wfd) ?w2) =
        Inr (?w2\<lparr>heap := (heap ?w2)(pw \<mapsto> c2), channels := (channels ?w2)(wfd \<mapsto> pw), kern := k2\<rparr>)"
      "reactor_inv interest (?w2\<lparr>heap := (heap ?w2)(pw \<mapsto> c2), channels := (channels ?w2)(wfd \<mapsto> pw), kern := k2\<rparr>)"
      "ch_fd c2 = wfd" "ch_events c2 = kReadEvent" "ch_index c2 = kAdded" "\<not> ch_tied c2" "\<not> ch_eventHandling c2"
      "interest k2 = (interest (kern ?w2))(wfd \<mapsto> (kReadEvent, pw))"
    using register_ok [OF k(1) i1, of pw wfd] raw d by auto
  let ?w = "?w2\<lparr>heap := (heap ?w2)(pw \<mapsto> c2), channels := (channels ?w2)(wfd \<mapsto> pw), kern := k2\<rparr>"
  have s: "set_chan p c (v\<lparr>l_inThisThread := b\<rparr>) = (set_chan p c v)\<lparr>l_inThisThread := b\<rparr>" "l_inThisThread (set_chan p c v) = l_inThisThread v"
    for p c b and v :: "('a, 'b) loop" by (cases v; simp add: set_chan_def)+
  have e: "EventLoop_ctor ctl pt tfd pw wfd ?r = Inr ?w"
    using t c2(1) d(4) raw(8) by (simp add: EventLoop_ctor_def createEventfd_def new_channel_def s)
  have "object_inv lib interest (pt, tfd, pw, wfd) None ?w"
    using c2(2) TimerQueue_idle [of lib] c1(3-7) c2(3-7) d(1) raw
    by (auto simp: object_inv_def loop_ids_def own_channel_def split: if_splits)
  moreover have "interest (kern ?w) = [tfd \<mapsto> (kReadEvent, pt), wfd \<mapsto> (kReadEvent, pw)]"
    using c1(8) c2(8) k(2) raw(3) by simp
  ultimately show ?thesis using e raw by (intro exI [of _ ?w]) (auto simp: quiet_inv_def)
qed

lemma EventLoop_dtor_ok:
  assumes k: "epoll_contract ctl interest" and inv: "quiet_inv lib interest (pt, tfd, pw, wfd) w"
  shows "\<exists>w'. EventLoop_dtor ctl w = Inr w' \<and> reactor_inv interest w' \<and>
    interest (kern w') = (interest (kern w))(wfd := None, tfd := None) \<and>
    heap w' = (heap w)(pw := None, pt := None) \<and> tq_heap (l_timerQueue w') = Map.empty \<and> l_closed w' = [wfd, tfd] \<and>
    \<not> l_inThisThread w'"
proof -
  have o: "object_inv lib interest (pt, tfd, pw, wfd) None w" and ne: "\<not> eventHandling w" using inv by (simp_all add: quiet_inv_def)
  note D = object_invD [OF o]
  have ids: "l_timerChannel w = pt" "l_timerfd w = tfd" "l_wakeupChannel w = pw" "l_wakeupFd w = wfd" "pt \<noteq> pw" "l_closed w = []"
    using D(3) by (auto simp: loop_ids_def)
  obtain cw where cw: "heap w pw = Some cw" "ch_fd cw = wfd" "ch_index cw = kAdded" using D(5) ids by (auto simp: own_channel_def)
  obtain ct where ct: "heap w pt = Some ct" "ch_fd ct = tfd" "ch_index ct = kAdded" using D(4) ids by (auto simp: own_channel_def)
  have nh: "\<not> ch_eventHandling cw" "\<not> ch_eventHandling ct" using D(6) [OF cw(1)] D(6) [OF ct(1)] by auto
  obtain k1 d1 w1 where u1: "disableAll ctl pw w = Inr w1"
      "chan_remove ctl pw w1 = Inr (w\<lparr>heap := (heap w)(pw \<mapsto> d1), channels := (channels w)(wfd := None), kern := k1\<rparr>)"
      "reactor_inv interest (w\<lparr>heap := (heap w)(pw \<mapsto> d1), channels := (channels w)(wfd := None), kern := k1\<rparr>)"
      "ch_index d1 = kNew" "\<not> ch_eventHandling d1" "interest k1 = (interest (kern w))(wfd := None)"
      "l_wakeupChannel w1 = pw"
    using unregister_ok [OF k D(1) cw(1,3) ne nh(1)] ids cw(2) by auto
  let ?w2 = "w\<lparr>heap := (heap w)(pw \<mapsto> d1), channels := (channels w)(wfd := None), kern := k1,
      l_closed := [wfd], l_inThisThread := False\<rparr>"
  have r2: "reactor_inv interest ?w2" by (rule reactor_inv_cong [THEN iffD2, OF _ _ _ _ u1(3)]) simp_all
  let ?w3 = "?w2\<lparr>heap := (heap w)(pw := None)\<rparr>"
  have r3: "Channel_dtor pw ?w2 = Inr ?w3" "reactor_inv interest ?w3"
    using Channel_dtor_ok [OF r2, of pw d1] u1(4,5) by simp_all
  have h3: "heap ?w3 pt = Some ct" "\<not> eventHandling ?w3" using ct(1) ids(5) ne by simp_all
  obtain k4 d4 w4 where u4: "disableAll ctl pt ?w3 = Inr w4"
      "chan_remove ctl pt w4 = Inr (?w3\<lparr>heap := (heap ?w3)(pt \<mapsto> d4), channels := (channels ?w3)(tfd := None), kern := k4\<rparr>)"
      "reactor_inv interest (?w3\<lparr>heap := (heap ?w3)(pt \<mapsto> d4), channels := (channels ?w3)(tfd := None), kern := k4\<rparr>)"
      "ch_index d4 = kNew" "\<not> ch_eventHandling d4" "interest k4 = (interest (kern ?w3))(tfd := None)" "l_timerChannel w4 = pt"
    using unregister_ok [OF k r3(2) h3(1) ct(3) h3(2) nh(2)] ids ct(2) by auto
  obtain q where q: "TimerQueue_dtor (l_timerQueue w) = Inr q" "tq_heap q = Map.empty"
    using TimerQueue_dtor_ok [OF D(2)] by blast
  let ?w5 = "?w3\<lparr>heap := (heap ?w3)(pt \<mapsto> d4), channels := (channels ?w3)(tfd := None), kern := k4,
      l_closed := [wfd, tfd], l_timerQueue := q\<rparr>"
  have r5: "reactor_inv interest ?w5" by (rule reactor_inv_cong [THEN iffD2, OF _ _ _ _ u4(3)]) simp_all
  let ?w6 = "?w5\<lparr>heap := (heap w)(pw := None, pt := None)\<rparr>"
  have r6: "Channel_dtor pt ?w5 = Inr ?w6" "reactor_inv interest ?w6"
    using Channel_dtor_ok [OF r5, of pt d4] u4(4,5) by simp_all
  have "EventLoop_dtor ctl w = Inr ?w6"
    using u1 r3(1) u4 q(1) r6(1) ids by (simp add: EventLoop_dtor_def TimerQueue_delete_def close_loop_fd_def Let_def)
  then show ?thesis using r6(2) u1(6) u4(6) q(2) by (intro exI [of _ ?w6]) simp
qed

section \<open>Histories of a loop\<close>

datatype 'f loop_cmd =
    RunAt timestamp addr timestamp                \<comment> \<open>clock, address, time\<close>
  | RunAfter timestamp timestamp addr rat         \<comment> \<open>now, clock, address, delay\<close>
  | RunEvery timestamp timestamp addr rat
  | CancelTimer timerId
  | Queue 'f
  | Quit
  | Turn turn
  | Loop "turn list"

fun loop_exec ::
  "ts_lib \<Rightarrow> (('k, 'f, 'z) loop_scheme \<Rightarrow> nat \<Rightarrow> bool) \<Rightarrow> (addr \<Rightarrow> (timestamp, ('k, 'f, 'z) loop_scheme) callbacks) \<Rightarrow>
   ('f \<Rightarrow> ('k, 'f, 'z) loop_scheme \<Rightarrow> ('k, 'f, 'z) loop_scheme result) \<Rightarrow> 'f loop_cmd \<Rightarrow> ('k, 'f, 'z) loop_scheme \<Rightarrow>
   ('k, 'f, 'z) loop_scheme result" where
  "loop_exec lib alive user call (RunAt clock p time) w = bindR (runAt clock p time w) (\<lambda>(_, w1). Inr w1)"
| "loop_exec lib alive user call (RunAfter now clock p delay) w = bindR (runAfter lib now clock p delay w) (\<lambda>(_, w1). Inr w1)"
| "loop_exec lib alive user call (RunEvery now clock p i) w = bindR (runEvery lib now clock p i w) (\<lambda>(_, w1). Inr w1)"
| "loop_exec lib alive user call (CancelTimer tid) w = cancel_timer tid w"
| "loop_exec lib alive user call (Queue f) w = Inr (loop_queueInLoop f w)"
| "loop_exec lib alive user call Quit w = Inr (loop_quit w)"
| "loop_exec lib alive user call (Turn tn) w = loop_turn lib alive user call tn w"
| "loop_exec lib alive user call (Loop turns) w = loop_run lib alive user call turns w"

text \<open>A new timer gets a free address and a valid time; \<^verbatim>\<open>loop\<close> is not called inside of itself.\<close>

fun loop_ok ::
  "ts_lib \<Rightarrow> ('k \<Rightarrow> int \<Rightarrow> epoll_event option) \<Rightarrow> (('k, 'f, 'z) loop_scheme \<Rightarrow> nat \<Rightarrow> bool) \<Rightarrow>
   (addr \<Rightarrow> (timestamp, ('k, 'f, 'z) loop_scheme) callbacks) \<Rightarrow>
   ('f \<Rightarrow> ('k, 'f, 'z) loop_scheme \<Rightarrow> ('k, 'f, 'z) loop_scheme result) \<Rightarrow> 'f loop_cmd \<Rightarrow> ('k, 'f, 'z) loop_scheme \<Rightarrow> bool" where
  "loop_ok lib interest alive user call (RunAt clock p time) w = timer_ok lib (AddT p time 0 clock) (l_timerQueue w)"
| "loop_ok lib interest alive user call (RunAfter now clock p delay) w =
     timer_ok lib (AddT p (addTime lib now delay) 0 clock) (l_timerQueue w)"
| "loop_ok lib interest alive user call (RunEvery now clock p i) w =
     timer_ok lib (AddT p (addTime lib now i) i clock) (l_timerQueue w)"
| "loop_ok lib interest alive user call (CancelTimer tid) w = True"
| "loop_ok lib interest alive user call (Queue f) w = True"
| "loop_ok lib interest alive user call Quit w = True"
| "loop_ok lib interest alive user call (Turn tn) w = turn_ok lib interest tn w"
| "loop_ok lib interest alive user call (Loop turns) w \<longleftrightarrow>
     \<not> l_looping w \<and> allowed (loop_turn lib alive user call) (turn_ok lib interest) turns (w\<lparr>l_looping := True, l_quit := False\<rparr>)"

lemma quiet_inv_keep:
  assumes "quiet_inv lib interest ids w" "heap v = heap w" "channels v = channels w" "kern v = kern w"
    "inLoopThread v = inLoopThread w" "eventHandling v = eventHandling w" "idle_inv lib (l_timerQueue v)"
    "l_timerChannel v = l_timerChannel w" "l_timerfd v = l_timerfd w" "l_wakeupChannel v = l_wakeupChannel w"
    "l_wakeupFd v = l_wakeupFd w" "l_closed v = l_closed w"
  shows "quiet_inv lib interest ids v"
proof -
  have o: "object_inv lib interest ids None w" using assms(1) by (simp add: quiet_inv_def)
  have "object_inv lib interest ids None v"
    by (rule object_inv_same [OF o assms(2-5,7)]) (use assms(8-12) object_invD(3) [OF o] in \<open>simp add: loop_ids_def\<close>)
  then show ?thesis using assms(1,6) by (simp add: quiet_inv_def)
qed

interpretation loop_turns: safe_commands "loop_turn lib alive user call"
  "\<lambda>w. ts_contract lib \<and> user_ok lib interest ids user call \<and> quiet_inv lib interest ids w" "turn_ok lib interest"
  for lib alive user call interest ids
  by unfold_locales (use loop_turn_ok in blast)

lemma loop_run_ok:
  assumes "ts_contract lib" "user_ok lib interest ids user call" "quiet_inv lib interest ids w" "\<not> l_looping w"
    "allowed (loop_turn lib alive user call) (turn_ok lib interest) turns (w\<lparr>l_looping := True, l_quit := False\<rparr>)"
  shows "\<exists>w'. loop_run lib alive user call turns w = Inr w' \<and> quiet_inv lib interest ids w'"
proof -
  have q: "idle_inv lib (l_timerQueue w)" "inLoopThread w"
    using assms(3) by (auto simp: quiet_inv_def object_inv_def reactor_inv_def)
  let ?w = "w\<lparr>l_looping := True, l_quit := False\<rparr>"
  have "quiet_inv lib interest ids ?w" by (rule quiet_inv_keep [OF assms(3)]) (use q in simp_all)
  then obtain w1 where w1: "foldR (loop_turn lib alive user call) turns ?w = Inr w1" "quiet_inv lib interest ids w1"
    using loop_turns.foldR_safe [of lib interest ids user call ?w alive turns] assms(1,2,5) by blast
  have "idle_inv lib (l_timerQueue w1)" using w1(2) by (simp add: quiet_inv_def object_inv_def)
  then have "quiet_inv lib interest ids (w1\<lparr>l_looping := False\<rparr>)" by (intro quiet_inv_keep [OF w1(2)]) simp_all
  then show ?thesis using w1 assms(4) q(2) by (simp add: loop_run_def assertInLoopThread_def)
qed

lemma timer_call_ok:
  assumes "quiet_inv lib interest ids w" "timer_ok lib (AddT p time i clock) (l_timerQueue w)"
  shows "\<exists>tid w'. on_timers (addTimer clock p time i) w = Inr (tid, w') \<and> quiet_inv lib interest ids w'"
proof -
  have q: "idle_inv lib (l_timerQueue w)" using assms(1) by (simp add: quiet_inv_def object_inv_def)
  from timer_exec_idle [OF q assms(2)] obtain tid q' where
    q': "addTimer clock p time i (l_timerQueue w) = Inr (tid, q')" "idle_inv lib q'" by (auto simp: bindR_eq_Inr)
  have "quiet_inv lib interest ids (w\<lparr>l_timerQueue := q'\<rparr>)" by (rule quiet_inv_keep [OF assms(1)]) (use q'(2) in simp_all)
  then show ?thesis using q'(1) by (simp add: on_timers_def)
qed

lemma loop_exec_safe:
  assumes lib: "ts_contract lib" and u: "user_ok lib interest ids user call" and inv: "quiet_inv lib interest ids w"
    and ok: "loop_ok lib interest alive user call c w"
  shows "\<exists>w'. loop_exec lib alive user call c w = Inr w' \<and> quiet_inv lib interest ids w'"
proof -
  have q: "idle_inv lib (l_timerQueue w)" using inv by (simp add: quiet_inv_def object_inv_def)
  show ?thesis
  proof (cases c)
    case (CancelTimer tid)
    from timer_exec_idle [OF q, of "CancelT tid"] obtain q' where
      q': "cancelInLoop tid (l_timerQueue w) = Inr q'" "idle_inv lib q'" by auto
    have "quiet_inv lib interest ids (w\<lparr>l_timerQueue := q'\<rparr>)" by (rule quiet_inv_keep [OF inv]) (use q'(2) in simp_all)
    then show ?thesis using q'(1) CancelTimer by (simp add: cancel_timer_def)
  next
    case (Queue f)
    have "quiet_inv lib interest ids (loop_queueInLoop f w)"
      by (rule quiet_inv_keep [OF inv]) (use q in \<open>simp_all add: loop_queueInLoop_def loop_wakeup_def Let_def\<close>)
    then show ?thesis using Queue by simp
  next
    case Quit
    have "quiet_inv lib interest ids (loop_quit w)"
      by (rule quiet_inv_keep [OF inv]) (use q in \<open>simp_all add: loop_quit_def loop_wakeup_def Let_def\<close>)
    then show ?thesis using Quit by simp
  next
    case (Turn tn)
    then show ?thesis using loop_turn_ok [OF lib inv _ u] ok by simp
  next
    case (Loop turns)
    then show ?thesis using loop_run_ok [OF lib u inv] ok by simp
  next
    case (RunAt clock p time)
    then show ?thesis using timer_call_ok [OF inv, of p time 0 clock] ok by (auto simp: runAt_def)
  next
    case (RunAfter now clock p delay)
    then show ?thesis using timer_call_ok [OF inv, of p "addTime lib now delay" 0 clock] ok by (auto simp: runAfter_def runAt_def)
  next
    case (RunEvery now clock p i)
    then show ?thesis using timer_call_ok [OF inv, of p "addTime lib now i" i clock] ok by (auto simp: runEvery_def)
  qed
qed

interpretation loop_object: safe_commands "loop_exec lib alive user call"
  "\<lambda>w. ts_contract lib \<and> user_ok lib interest ids user call \<and> quiet_inv lib interest ids w" "loop_ok lib interest alive user call"
  for lib alive user call interest ids
  by unfold_locales (use loop_exec_safe in blast)

section \<open>Properties of the loop object\<close>

text \<open>C13. The life of an event loop: its constructor succeeds in a thread without a loop and registers exactly its timer
  descriptor and its eventfd for reading; whatever timers are set and cancelled, functors queued and turns taken after
  that, with callbacks and functors that respect the loop, no assert fails, the two descriptors stay registered and
  the kernel timer is set for the earliest timer; and the destructor then succeeds, deletes all timers, closes the two
  descriptors once each, and leaves in the poller what belongs to others.\<close>

theorem loop_lifecycle:
  fixes w0 :: "('k, 'f) loop"
  assumes "epoll_contract ctl interest" "interest k = Map.empty" "ts_contract lib"
    "pt \<noteq> pw" "tfd \<noteq> wfd" "0 \<le> tfd" "0 \<le> wfd" "user_ok lib interest (pt, tfd, pw, wfd) user call"
    "EventLoop_ctor ctl pt tfd pw wfd (raw_loop k False) = Inr w0" "allowed (loop_exec lib alive user call) (loop_ok lib interest alive user call) cmds w0"
  shows "interest (kern w0) = [tfd \<mapsto> (kReadEvent, pt), wfd \<mapsto> (kReadEvent, pw)] \<and>
    (\<exists>w w'. foldR (loop_exec lib alive user call) cmds w0 = Inr w \<and>
      interest (kern w) tfd = Some (kReadEvent, pt) \<and> interest (kern w) wfd = Some (kReadEvent, pw) \<and>
      (tq_timers (l_timerQueue w) \<noteq> [] \<longrightarrow>
        (\<exists>e clock. tq_armed (l_timerQueue w) = Some (e, howMuchTimeFromNow clock e) \<and> e \<le> fst (hd (tq_timers (l_timerQueue w))))) \<and>
      EventLoop_dtor ctl w = Inr w' \<and> interest (kern w') = (interest (kern w))(wfd := None, tfd := None) \<and>
      tq_heap (l_timerQueue w') = Map.empty \<and> heap w' = (heap w)(pw := None, pt := None) \<and> l_closed w' = [wfd, tfd])"
proof -
  let ?ids = "(pt, tfd, pw, wfd)"
  have w0: "quiet_inv lib interest ?ids w0" "interest (kern w0) = [tfd \<mapsto> (kReadEvent, pt), wfd \<mapsto> (kReadEvent, pw)]"
    using EventLoop_ctor_ok [OF assms(1,2,4-7), of lib, where 'b = 'f] assms(9) by auto
  from loop_object.foldR_safe [OF conjI [OF assms(3) conjI [OF assms(8) w0(1)]] assms(10)] obtain w where
    w: "foldR (loop_exec lib alive user call) cmds w0 = Inr w" "quiet_inv lib interest ?ids w" by blast
  then have o: "object_inv lib interest ?ids None w" by (simp add: quiet_inv_def)
  note D = object_invD [OF o]
  have ids: "l_timerChannel w = pt" "l_timerfd w = tfd" "l_wakeupChannel w = pw" "l_wakeupFd w = wfd"
    using D(3) by (auto simp: loop_ids_def)
  have reg: "interest (kern w) fd = Some (kReadEvent, p)" if own: "own_channel p fd w" for p fd
  proof -
    obtain c where c: "heap w p = Some c" "ch_fd c = fd" "ch_events c = kReadEvent" "ch_index c = kAdded"
      using own by (auto simp: own_channel_def)
    then show ?thesis using reactor_invD(2) [OF D(1) c(1)] reactor_invD(4) [OF D(1)]
      by (auto simp: chan_inv_def watched_def index_defs)
  qed
  have "armed_ok (l_timerQueue w)" using D(2) by (simp add: idle_inv_def)
  moreover from EventLoop_dtor_ok [OF assms(1) w(2)] obtain w' where
    "EventLoop_dtor ctl w = Inr w'" "interest (kern w') = (interest (kern w))(wfd := None, tfd := None)"
    "heap w' = (heap w)(pw := None, pt := None)" "tq_heap (l_timerQueue w') = Map.empty" "l_closed w' = [wfd, tfd]" by blast
  ultimately show ?thesis using w0(2) w(1) reg D(4,5) ids by (auto simp: armed_ok_def)
qed

text \<open>A program for the example: no channels of its own, and functors that do nothing or quit the loop.\<close>

definition quit_call :: "bool \<Rightarrow> ('k, bool, 'z) loop_scheme \<Rightarrow> ('k, bool, 'z) loop_scheme result" where
  "quit_call f w = Inr (if f then loop_quit w else w)"

definition no_callbacks :: "addr \<Rightarrow> (timestamp, 'w) callbacks" where
  "no_callbacks p = \<lparr>readCallback = None, writeCallback = None, closeCallback = None, errorCallback = None\<rparr>"

lemma quit_program_ok: "user_ok lib interest ids no_callbacks quit_call"
proof -
  have "quiet_inv lib interest ids (loop_quit w)" if "quiet_inv lib interest ids w" for w :: "('a, bool, 'b) loop_scheme"
    by (rule quiet_inv_keep [OF that])
      (use that in \<open>simp_all add: loop_quit_def loop_wakeup_def Let_def quiet_inv_def object_inv_def\<close>)
  then show ?thesis by (simp add: user_ok_def callbacks_keep_def no_callbacks_def cb_keeps_def quit_call_def)
qed

theorem loop_lifecycle_witness:
  "\<exists>w0 w w'. EventLoop_ctor map_ctl 1 5 2 6 (raw_loop Map.empty False :: (int \<Rightarrow> epoll_event option, bool) loop) = Inr w0 \<and>
    foldR (loop_exec sec_lib (\<lambda>_ _. True) no_callbacks quit_call)
      [RunAfter 10 10 3 1, Queue True, Loop [\<lparr>tn_reply = Ready [], tn_time = 20, tn_alarm = 20, tn_clock = 20, tn_acts = (\<lambda>_ _. [])\<rparr>]] w0 = Inr w \<and>
    EventLoop_dtor map_ctl w = Inr w' \<and> l_closed w' = [6, 5]"
proof -
  let ?tn = "\<lparr>tn_reply = Ready [], tn_time = 20, tn_alarm = 20, tn_clock = 20, tn_acts = (\<lambda>_ _. [])\<rparr>"
  let ?ok = "loop_ok sec_lib (\<lambda>k. k) (\<lambda>_ _. True) no_callbacks quit_call"
  obtain w0 where w0: "EventLoop_ctor map_ctl 1 5 2 6 (raw_loop Map.empty False :: (int \<Rightarrow> epoll_event option, bool) loop) = Inr w0"
      "\<not> l_looping w0" "l_timerQueue w0 = TimerQueue"
    using EventLoop_ctor_ok [OF map_ctl_contract, of Map.empty 1 2 5 6 sec_lib, where 'b = bool] by auto
  have t: "turn_ok sec_lib (\<lambda>k. k) ?tn w" for w :: "(int \<Rightarrow> epoll_event option, bool) loop"
    by (simp add: turn_ok_def reply_ok_def alarm_ok_idle sec_lib_def)
  have a: "allowed (loop_exec sec_lib (\<lambda>_ _. True) no_callbacks quit_call) ?ok [RunAfter 10 10 3 1, Queue True, Loop [?tn]] w0"
    using w0(2,3) t
    by (auto simp: TimerQueue_def UINTPTR_MAX_def sec_lib_def runAfter_def runAt_def on_timers_def bindR_eq_Inr
        loop_queueInLoop_def loop_wakeup_def Let_def split: sum.split)
  from loop_lifecycle [OF map_ctl_contract _ sec_lib_contract _ _ _ _ quit_program_ok w0(1) a] w0(1) show ?thesis by auto
qed

end
