(* ===== verification/Lute_LoopThread.thy ===== *)
theory Lute_LoopThread
  imports Lute_EventLoop
begin

text \<open>
  Threads that run an event loop, \<^verbatim>\<open>polaris/src/EventLoopThread.cc\<close>, and the pool of them,
  \<^verbatim>\<open>polaris/src/EventLoopThreadPool.cc\<close>.  A loop thread is a transition system of its owner, who calls
  \<^verbatim>\<open>startLoop\<close> and the destructor, and its worker, who runs \<^verbatim>\<open>threadFunc\<close>; the worker's loop is the one of
  \<^verbatim>\<open>EventLoop\<close> with all its interleavings.
\<close>

section \<open>One loop thread\<close>

datatype owner_pc =
    Fresh       \<comment> \<open>constructed\<close>
  | Checking    \<comment> \<open>in \<^verbatim>\<open>startLoop\<close>, about to test \<^verbatim>\<open>loop_ == nullptr\<close> under the mutex\<close>
  | Waiting     \<comment> \<open>in \<^verbatim>\<open>cond_.wait()\<close>\<close>
  | Returned    \<comment> \<open>\<^verbatim>\<open>startLoop\<close> has returned\<close>
  | Quitting    \<comment> \<open>in the destructor, \<^verbatim>\<open>loop_\<close> was not null\<close>
  | Joining     \<comment> \<open>in \<^verbatim>\<open>thread_.join()\<close>\<close>
  | Gone        \<comment> \<open>destroyed\<close>

datatype worker_pc =
    NotStarted
  | Building    \<comment> \<open>the loop is being built and given to \<^verbatim>\<open>callback_\<close>\<close>
  | Entering    \<comment> \<open>\<^verbatim>\<open>loop_\<close> is set, \<^verbatim>\<open>loop.loop()\<close> not entered yet\<close>
  | Looping
  | Exited        \<comment> \<open>\<^verbatim>\<open>loop.loop()\<close> has returned\<close>
  | Finished

record 'f loopThread =
  t_loop :: bool            \<comment> \<open>\<^verbatim>\<open>loop_ != nullptr\<close>\<close>
  t_exiting :: bool
  t_owner :: owner_pc
  t_worker :: worker_pc
  t_notified :: bool        \<comment> \<open>a notification has reached the waiting owner\<close>
  t_el :: "'f eloop"

definition EventLoopThread :: "'f loopThread" where
  "EventLoopThread = \<lparr>t_loop = False, t_exiting = False, t_owner = Fresh, t_worker = NotStarted, t_notified = False,
     t_el = EventLoop\<rparr>"

text \<open>The sections under the mutex are single steps; \<^verbatim>\<open>wait\<close> gives the mutex up while it blocks and may wake up
  without a notification.\<close>

definition startLoop_begin :: "'f loopThread \<Rightarrow> 'f loopThread" where
  "startLoop_begin s = s\<lparr>t_owner := Checking, t_worker := Building\<rparr>"

definition startLoop_test :: "'f loopThread \<Rightarrow> 'f loopThread" where
  "startLoop_test s = s\<lparr>t_owner := (if t_loop s then Returned else Waiting)\<rparr>"

definition startLoop_wake :: "'f loopThread \<Rightarrow> 'f loopThread" where
  "startLoop_wake s = s\<lparr>t_owner := Checking, t_notified := False\<rparr>"

definition threadFunc_publish :: "'f loopThread \<Rightarrow> 'f loopThread" where
  "threadFunc_publish s =
     s\<lparr>t_loop := True, t_notified := (t_notified s \<or> t_owner s = Waiting), t_worker := Entering\<rparr>"

definition threadFunc_end :: "'f loopThread \<Rightarrow> 'f loopThread" where
  "threadFunc_end s = s\<lparr>t_loop := False, t_worker := Finished\<rparr>"

definition dtor_test :: "'f loopThread \<Rightarrow> 'f loopThread" where
  "dtor_test s = s\<lparr>t_exiting := True, t_owner := (if t_loop s then Quitting else Gone)\<rparr>"

definition dtor_quit :: "'f loopThread \<Rightarrow> 'f loopThread" where
  "dtor_quit s = s\<lparr>t_el := quit_loop False (t_el s), t_owner := Joining\<rparr>"

inductive thread_step :: "'f loopThread \<Rightarrow> 'f loopThread \<Rightarrow> bool" where
  spawn: "t_owner s = Fresh \<Longrightarrow> t_worker s = NotStarted \<Longrightarrow> thread_step s (startLoop_begin s)"
| test: "t_owner s = Checking \<Longrightarrow> thread_step s (startLoop_test s)"
| wake: "t_owner s = Waiting \<Longrightarrow> thread_step s (startLoop_wake s)"
| publish: "t_worker s = Building \<Longrightarrow> thread_step s (threadFunc_publish s)"
| enter_loop: "t_worker s = Entering \<Longrightarrow> loop_step False (t_el s) el \<Longrightarrow> pc el = Started \<Longrightarrow>
    thread_step s (s\<lparr>t_el := el, t_worker := Looping\<rparr>)"
| in_loop: "t_worker s = Looping \<Longrightarrow> pc (t_el s) \<noteq> Outside \<Longrightarrow> loop_step False (t_el s) el \<Longrightarrow>
    thread_step s (s\<lparr>t_el := el\<rparr>)"
| others: "t_worker s \<in> {Entering, Looping, Exited} \<Longrightarrow> loop_step False (t_el s) el \<Longrightarrow> pc el = pc (t_el s) \<Longrightarrow>
    thread_step s (s\<lparr>t_el := el\<rparr>)"
| leave: "t_worker s = Looping \<Longrightarrow> pc (t_el s) = Outside \<Longrightarrow> thread_step s (s\<lparr>t_worker := Exited\<rparr>)"
| finished: "t_worker s = Exited \<Longrightarrow> thread_step s (threadFunc_end s)"
| destroy: "t_owner s = Returned \<or> t_owner s = Fresh \<Longrightarrow> thread_step s (dtor_test s)"
| quit: "t_owner s = Quitting \<Longrightarrow> t_worker s \<noteq> Finished \<Longrightarrow> thread_step s (dtor_quit s)"
| join: "t_owner s = Joining \<Longrightarrow> t_worker s = Finished \<Longrightarrow> thread_step s (s\<lparr>t_owner := Gone\<rparr>)"

lemmas thread_ops = startLoop_begin_def startLoop_test_def startLoop_wake_def threadFunc_publish_def threadFunc_end_def
  dtor_test_def dtor_quit_def

definition thread_inv :: "'f loopThread \<Rightarrow> bool" where
  "thread_inv s \<longleftrightarrow>
     (t_loop s \<longleftrightarrow> t_worker s \<in> {Entering, Looping, Exited}) \<and>
     (t_owner s = Waiting \<longrightarrow> t_loop s \<longrightarrow> t_notified s) \<and>
     (t_owner s = Fresh \<longrightarrow> t_worker s = NotStarted) \<and>
     (t_owner s \<in> {Returned, Quitting, Joining} \<longrightarrow> t_worker s \<notin> {NotStarted, Building}) \<and>
     (t_worker s = NotStarted \<longrightarrow> t_owner s \<in> {Fresh, Gone}) \<and>
     (t_worker s \<in> {NotStarted, Building, Entering} \<longrightarrow> pc (t_el s) = Outside) \<and> loop_inv (t_el s)"

lemma thread_step_inv:
  assumes "thread_inv s" "thread_step s t"
  shows "thread_inv t"
  using assms(2)
proof cases
  case (enter_loop el)
  then show ?thesis using assms(1) loop_step_inv [of "t_el s" el] by (auto simp: thread_inv_def)
next
  case (in_loop el)
  then show ?thesis using assms(1) loop_step_inv [of "t_el s" el] by (auto simp: thread_inv_def)
next
  case (others el)
  then show ?thesis using assms(1) loop_step_inv [of "t_el s" el] by (auto simp: thread_inv_def)
next
  case quit
  then show ?thesis using assms(1) loop_step_inv [OF _ other_quit, of "t_el s"]
    by (auto simp: thread_inv_def thread_ops quit_loop_def Let_def)
qed (use assms(1) in \<open>auto simp: thread_inv_def thread_ops\<close>)

interpretation loop_thread: invariant_system "\<lambda>s. s = EventLoopThread" thread_step thread_inv
proof
  show "s = EventLoopThread \<Longrightarrow> thread_inv s" for s :: "'a loopThread"
    using event_loop.init_inv by (auto simp: thread_inv_def EventLoopThread_def EventLoop_def)
qed (rule thread_step_inv)

section \<open>The pool\<close>

text \<open>
  Loops are known by numbers.  The thread \<open>i\<close> of the pool returns the loop \<open>startLoop i\<close>; \<open>inBase\<close> says whether
  the caller is the thread of the base loop.
\<close>

record pool =
  p_base :: nat
  p_name :: string
  p_started :: bool
  p_numThreads :: int
  p_next :: nat
  p_threads :: "string list"
  p_loops :: "nat list"

definition EventLoopThreadPool :: "nat \<Rightarrow> string \<Rightarrow> pool" where
  "EventLoopThreadPool baseLoop nameArg = \<lparr>p_base = baseLoop, p_name = nameArg, p_started = False, p_numThreads = 0,
     p_next = 0, p_threads = [], p_loops = []\<rparr>"

definition setThreadNum :: "int \<Rightarrow> pool \<Rightarrow> pool" where
  "setThreadNum n p = p\<lparr>p_numThreads := n\<rparr>"

definition assertBase :: "bool \<Rightarrow> 'a result \<Rightarrow> 'a result" where
  "assertBase inBase m = (if inBase then m else Inl Fatal)"

fun start_threads :: "(nat \<Rightarrow> nat) \<Rightarrow> nat list \<Rightarrow> pool \<Rightarrow> pool" where
  "start_threads startLoop [] p = p"
| "start_threads startLoop (i # is) p =
     start_threads startLoop is
       (p\<lparr>p_threads := p_threads p @ [take (length (p_name p) + 31) (p_name p @ '' '' @ dec i)],
          p_loops := p_loops p @ [startLoop i]\<rparr>)"

text \<open>The second result are the loops on which \<^verbatim>\<open>start\<close> itself calls the initialisation callback.\<close>

definition pool_start :: "(nat \<Rightarrow> nat) \<Rightarrow> bool \<Rightarrow> bool \<Rightarrow> pool \<Rightarrow> (pool \<times> nat list) result" where
  "pool_start startLoop inBase hasCallback p =
     assertR (\<not> p_started p) (assertBase inBase
       (let p1 = start_threads startLoop [0..<nat (p_numThreads p)] (p\<lparr>p_started := True\<rparr>)
        in Inr (p1, if p_numThreads p1 = 0 \<and> hasCallback then [p_base p1] else [])))"

definition getNextLoop :: "bool \<Rightarrow> pool \<Rightarrow> (nat \<times> pool) result" where
  "getNextLoop inBase p =
     assertBase inBase (assertR (p_started p)
       (if p_loops p \<noteq> []
        then if p_next p < length (p_loops p)
             then let loop = p_loops p ! p_next p; next = p_next p + 1
                  in Inr (loop, p\<lparr>p_next := (if next \<ge> length (p_loops p) then 0 else next)\<rparr>)
             else Inl OutOfBounds
        else Inr (p_base p, p)))"

definition getLoopForHash :: "bool \<Rightarrow> nat \<Rightarrow> pool \<Rightarrow> nat result" where
  "getLoopForHash inBase hashCode p =
     assertBase inBase
       (Inr (if p_loops p \<noteq> [] then p_loops p ! (hashCode mod length (p_loops p)) else p_base p))"

definition getAllLoops :: "bool \<Rightarrow> pool \<Rightarrow> nat list result" where
  "getAllLoops inBase p =
     assertBase inBase (assertR (p_started p) (Inr (if p_loops p = [] then [p_base p] else p_loops p)))"

definition pool_inv :: "pool \<Rightarrow> bool" where
  "pool_inv p \<longleftrightarrow> (p_loops p = [] \<or> p_next p < length (p_loops p)) \<and> (p_started p \<or> p_loops p = [])"

fun next_loops :: "nat \<Rightarrow> pool \<Rightarrow> (nat list \<times> pool) result" where
  "next_loops 0 p = Inr ([], p)"
| "next_loops (Suc k) p = bindR (getNextLoop True p) (\<lambda>(l, p1). bindR (next_loops k p1) (\<lambda>(ls, p2). Inr (l # ls, p2)))"

text \<open>The loops that can serve, in the order of service.\<close>

definition serving :: "pool \<Rightarrow> nat list" where
  "serving p = (if p_loops p = [] then [p_base p] else p_loops p)"

lemma start_threads_loops:
  "p_loops (start_threads f is p) = p_loops p @ map f is \<and> p_base (start_threads f is p) = p_base p \<and>
   p_next (start_threads f is p) = p_next p \<and> p_started (start_threads f is p) = p_started p \<and>
   p_numThreads (start_threads f is p) = p_numThreads p"
  by (induction f "is" p rule: start_threads.induct) auto

lemma getNextLoop_ok:
  assumes "pool_inv p" "p_started p" "i mod length (serving p) = p_next p mod length (serving p)"
  shows "\<exists>p'. getNextLoop True p = Inr (serving p ! (i mod length (serving p)), p') \<and> pool_inv p' \<and> p_started p' \<and>
    serving p' = serving p \<and> Suc i mod length (serving p) = p_next p' mod length (serving p)"
proof (cases "p_loops p = []")
  case True
  then show ?thesis using assms by (simp add: getNextLoop_def assertBase_def serving_def)
next
  case False
  let ?n = "length (p_loops p)"
  have n: "p_next p < ?n" using assms(1) False by (auto simp: pool_inv_def)
  then have i: "i mod ?n = p_next p" using assms(3) False by (simp add: serving_def)
  have "Suc i mod ?n = (if Suc (p_next p) \<ge> ?n then 0 else Suc (p_next p))"
    using i n by (auto simp: mod_Suc)
  then show ?thesis using False n i assms(2)
    by (auto simp: getNextLoop_def assertBase_def serving_def pool_inv_def Let_def)
qed

section \<open>Properties of loop threads and pools\<close>


lemma reach_spawned: "reach (\<lambda>s. s = EventLoopThread) thread_step (startLoop_begin EventLoopThread)"
proof (rule reach_step)
  show "reach (\<lambda>s. s = EventLoopThread) thread_step EventLoopThread" by (rule reach_init) simp
  show "thread_step EventLoopThread (startLoop_begin EventLoopThread)" by (rule spawn) (simp_all add: EventLoopThread_def)
qed


text \<open>C38. Destroying a loop thread right after \<^verbatim>\<open>startLoop\<close> has returned can hang: \<^verbatim>\<open>quit()\<close> ignores a loop that has not
  set \<^verbatim>\<open>looping_\<close> yet, so the destructor joins a thread whose loop then blocks in the poll, with nothing to wake it
  and \<^verbatim>\<open>quit_\<close> not set.\<close>

theorem loop_thread_dtor_hangs:
  "\<exists>s :: 'f loopThread. reach (\<lambda>s. s = EventLoopThread) thread_step s \<and> t_owner s = Joining \<and> t_worker s = Looping \<and>
     pc (t_el s) = Poll \<and> \<not> quit_flag (t_el s) \<and> wakeupCount (t_el s) = 0 \<and> waking (t_el s) = 0"
proof -
  let ?R = "reach (\<lambda>s. s = EventLoopThread) thread_step"
  let ?s0 = "EventLoopThread :: 'f loopThread"
  have 1: "?R (startLoop_begin ?s0)" by (rule reach_spawned)
  have 2: "?R (?s0\<lparr>t_owner := Checking, t_worker := Entering, t_loop := True\<rparr>)"
    using reach_step [OF 1 publish] by (simp add: thread_ops EventLoopThread_def)
  have 3: "?R (?s0\<lparr>t_owner := Returned, t_worker := Entering, t_loop := True\<rparr>)"
    using reach_step [OF 2 test] by (simp add: thread_ops EventLoopThread_def)
  have 4: "?R (?s0\<lparr>t_owner := Quitting, t_exiting := True, t_worker := Entering, t_loop := True\<rparr>)"
    using reach_step [OF 3 destroy] by (simp add: thread_ops EventLoopThread_def)
  have 5: "?R (?s0\<lparr>t_owner := Joining, t_exiting := True, t_worker := Entering, t_loop := True\<rparr>)"
    using reach_step [OF 4 quit] by (simp add: thread_ops EventLoopThread_def quit_loop_def EventLoop_def)
  let ?S = "\<lambda>p. ?s0\<lparr>t_owner := Joining, t_exiting := True, t_worker := Looping, t_loop := True,
    t_el := EventLoop\<lparr>looping := True, pc := p\<rparr>\<rparr>"
  have "loop_step False (EventLoop :: 'f eloop) (EventLoop\<lparr>looping := True, pc := Started\<rparr>)"
    by (rule start) (simp_all add: EventLoop_def)
  from reach_step [OF 5 enter_loop, of "EventLoop\<lparr>looping := True, pc := Started\<rparr>"] this have 6: "?R (?S Started)"
    by (simp add: EventLoopThread_def)
  have "loop_step False (EventLoop\<lparr>looping := True, pc := Started\<rparr> :: 'f eloop) (EventLoop\<lparr>looping := True, pc := Test\<rparr>)"
    using clear [of "EventLoop\<lparr>looping := True, pc := Started\<rparr>" False] by (simp add: EventLoop_def)
  from reach_step [OF 6 in_loop, of "EventLoop\<lparr>looping := True, pc := Test\<rparr>"] this have 7: "?R (?S Test)"
    by (simp add: EventLoopThread_def)
  have "loop_step False (EventLoop\<lparr>looping := True, pc := Test\<rparr> :: 'f eloop) (EventLoop\<lparr>looping := True, pc := Poll\<rparr>)"
    using enter [of "EventLoop\<lparr>looping := True, pc := Test\<rparr>" False] by (simp add: EventLoop_def)
  from reach_step [OF 7 in_loop, of "EventLoop\<lparr>looping := True, pc := Poll\<rparr>"] this have "?R (?S Poll)"
    by (simp add: EventLoopThread_def)
  then show ?thesis by (intro exI [of _ "?S Poll"]) (simp add: EventLoopThread_def EventLoop_def)
qed

lemma next_loops_ok:
  assumes "pool_inv p" "p_started p" "i mod length (serving p) = p_next p mod length (serving p)"
  shows "\<exists>p'. next_loops k p = Inr (map (\<lambda>j. serving p ! ((i + j) mod length (serving p))) [0..<k], p') \<and>
    pool_inv p' \<and> p_started p' \<and> serving p' = serving p"
  using assms
proof (induction k arbitrary: p i)
  case (Suc k)
  from getNextLoop_ok [OF Suc.prems] obtain p1 where
    p1: "getNextLoop True p = Inr (serving p ! (i mod length (serving p)), p1)" "pool_inv p1" "p_started p1"
      "serving p1 = serving p" "Suc i mod length (serving p) = p_next p1 mod length (serving p)" by blast
  from Suc.IH [OF p1(2,3), of "Suc i"] p1(4,5) obtain p2 where
    "next_loops k p1 = Inr (map (\<lambda>j. serving p ! ((Suc i + j) mod length (serving p))) [0..<k], p2)" "pool_inv p2"
    "p_started p2" "serving p2 = serving p" by auto
  then show ?case using p1(1) by (auto simp: upt_conv_Cons map_Suc_upt [symmetric] simp del: upt_Suc)
qed simp

text \<open>Connections are spread round robin: of a pool that was started with \<open>n\<close> threads, the calls of \<^verbatim>\<open>getNextLoop\<close>
  return the loops of the threads one after the other and from the start again; without threads they all return
  the base loop.\<close>

theorem getNextLoop_round_robin:
  assumes "pool_start startLoop True hasCallback (setThreadNum n (EventLoopThreadPool base name)) = Inr (p, called)"
  shows "\<exists>p'. next_loops k p =
    Inr (map (\<lambda>j. if n \<le> 0 then base else startLoop (j mod nat n)) [0..<k], p')"
proof -
  let ?p = "start_threads startLoop [0..<nat n] ((setThreadNum n (EventLoopThreadPool base name))\<lparr>p_started := True\<rparr>)"
  have p: "p = ?p" using assms by (simp add: pool_start_def setThreadNum_def EventLoopThreadPool_def assertBase_def Let_def)
  have f: "p_loops p = map startLoop [0..<nat n]" "p_base p = base" "p_next p = 0" "p_started p"
    by (simp_all add: p start_threads_loops setThreadNum_def EventLoopThreadPool_def)
  have s: "serving p = (if n \<le> 0 then [base] else map startLoop [0..<nat n])" using f by (simp add: serving_def)
  have "pool_inv p" using f by (auto simp: pool_inv_def)
  from next_loops_ok [OF this f(4), of 0 k] f(3) obtain p' where
    "next_loops k p = Inr (map (\<lambda>j. serving p ! (j mod length (serving p))) [0..<k], p')" by auto
  then show ?thesis using s by (intro exI [of _ p']) auto
qed

theorem getNextLoop_round_robin_witness:
  "\<exists>p called p'. pool_start (\<lambda>i. 10 + i) True False (setThreadNum 2 (EventLoopThreadPool 1 ''srv'')) = Inr (p, called) \<and>
    next_loops 3 p = Inr ([10, 11, 10], p')"
proof -
  obtain p called where p: "pool_start (\<lambda>i. 10 + i) True False (setThreadNum 2 (EventLoopThreadPool 1 ''srv'')) = Inr (p, called)"
    by (simp add: pool_start_def setThreadNum_def EventLoopThreadPool_def assertBase_def Let_def)
  from getNextLoop_round_robin [OF p, of 3] p show ?thesis by (auto simp: upt_rec)
qed

end
