(* ===== verification/Lute_TCPConnection.thy ===== *)
theory Lute_TCPConnection
  imports Lute_EventLoop Lute_Buffer
begin

text \<open>
  TCP connections, \<^verbatim>\<open>polaris/src/TCPConnection.cc\<close>.  The state of a connection extends the channels of its
  loop.  The kernel is a parameter: writes, reads and \<^verbatim>\<open>epoll_ctl\<close> are functions on a kernel state of any type.
  The callbacks of the user and of the server are parameters too: functions on the state, which may call
  the operations of the connection.  Functors that the loop will run later are values of type \<open>conn_task\<close>.
\<close>

datatype conn_state = kDisconnected | kConnecting | kConnected | kDisconnecting

definition stateToString :: "conn_state \<Rightarrow> string" where
  "stateToString s =
     (case s of kDisconnected \<Rightarrow> ''kDisconnected'' | kConnecting \<Rightarrow> ''kConnecting''
      | kConnected \<Rightarrow> ''kConnected'' | kDisconnecting \<Rightarrow> ''kDisconnecting'')"

datatype write_result = Wrote nat | WriteError int

definition EWOULDBLOCK :: int where "EWOULDBLOCK = 11"
definition EPIPE :: int where "EPIPE = 32"
definition ECONNRESET :: int where "ECONNRESET = 104"

record 'k kernel =
  k_ctl :: "'k epoll_ctl"
  k_write :: "'k \<Rightarrow> int \<Rightarrow> byte list \<Rightarrow> 'k \<times> write_result"
  k_readv :: "'k \<Rightarrow> int \<Rightarrow> nat list \<Rightarrow> 'k \<times> io_result"

text \<open>What the manual pages promise: neither call transfers more than it was offered or touches the interest list.\<close>

definition kernel_contract :: "'k kernel \<Rightarrow> ('k \<Rightarrow> int \<Rightarrow> epoll_event option) \<Rightarrow> bool" where
  "kernel_contract K interest \<longleftrightarrow>
     epoll_contract (k_ctl K) interest \<and>
     (\<forall>k fd bs. interest (fst (k_write K k fd bs)) = interest k \<and>
        (\<forall>n. snd (k_write K k fd bs) = Wrote n \<longrightarrow> n \<le> length bs)) \<and>
     (\<forall>k fd. readv_contract (\<lambda>lens. snd (k_readv K k fd lens)) \<and>
        (\<forall>lens. interest (fst (k_readv K k fd lens)) = interest k))"

datatype conn_task =
    WriteComplete | HighWaterMark nat | SendInLoop string | ShutdownInLoop | ForceCloseInLoop | ForceCloseLater
  | StartReadInLoop | StopReadInLoop | ConnectDestroyed

text \<open>
  \<open>c_channel\<close> is the address of the channel; \<open>c_tasks\<close> the functors queued to the loop.  For the specification,
  \<open>c_sent\<close> records the bytes that the kernel took, \<open>c_accepted\<close> those that the connection took charge of, and
  \<open>c_shutdown\<close> whether the write side of the socket was shut down.
\<close>

record 'k tcp = "'k reactor" +
  c_state :: conn_state
  c_reading :: bool
  c_channel :: addr
  c_inputBuffer :: buffer
  c_outputBuffer :: buffer
  c_highWaterMark :: nat
  c_tasks :: "conn_task list"
  c_shutdown :: bool
  c_sent :: "byte list"
  c_accepted :: "byte list"

record 'w conn_callbacks =
  connectionCallback :: "('w \<Rightarrow> 'w result) option"
  messageCallback :: "(timestamp \<Rightarrow> 'w \<Rightarrow> 'w result) option"
  writeCompleteCallback :: "('w \<Rightarrow> 'w result) option"
  highWaterMarkCallback :: "(nat \<Rightarrow> 'w \<Rightarrow> 'w result) option"
  conn_closeCallback :: "('w \<Rightarrow> 'w result) option"

type_synonym ('k, 'z) conn = "('k, 'z) tcp_scheme"

section \<open>Operations\<close>

definition connected :: "('k, 'z) conn \<Rightarrow> bool" where
  "connected w \<longleftrightarrow> c_state w = kConnected"

definition disconnected :: "('k, 'z) conn \<Rightarrow> bool" where
  "disconnected w \<longleftrightarrow> c_state w = kDisconnected"

definition setState :: "conn_state \<Rightarrow> ('k, 'z) conn \<Rightarrow> ('k, 'z) conn" where
  "setState s w = w\<lparr>c_state := s\<rparr>"

definition queue_task :: "conn_task \<Rightarrow> ('k, 'z) conn \<Rightarrow> ('k, 'z) conn" where
  "queue_task t w = w\<lparr>c_tasks := c_tasks w @ [t]\<rparr>"

text \<open>Calling a \<^verbatim>\<open>std::function\<close>; an empty one throws \<^verbatim>\<open>bad_function_call\<close>.\<close>

definition call_fun :: "('w \<Rightarrow> 'w result) option \<Rightarrow> 'w \<Rightarrow> 'w result" where
  "call_fun f w = (case f of None \<Rightarrow> Inl BadFunctionCall | Some g \<Rightarrow> g w)"

text \<open>The constructor, for a socket \<open>fd\<close> and a channel at \<open>p\<close>, with two fresh buffers.\<close>

definition TCPConnection :: "addr \<Rightarrow> int \<Rightarrow> ('k, 'z) conn \<Rightarrow> ('k, 'z) conn result" where
  "TCPConnection p fd w =
     bindR (Buffer kInitialSize) (\<lambda>inb.
     bindR (Buffer kInitialSize) (\<lambda>outb.
     bindR (new_channel p fd w) (\<lambda>w1.
       Inr (w1\<lparr>c_state := kConnecting, c_reading := False, c_channel := p, c_inputBuffer := inb,
         c_outputBuffer := outb, c_highWaterMark := 64 * 1024 * 1024, c_tasks := [], c_shutdown := False,
         c_sent := [], c_accepted := []\<rparr>))))"

definition TCPConnection_dtor :: "('k, 'z) conn \<Rightarrow> ('k, 'z) conn result" where
  "TCPConnection_dtor w = assertR (c_state w = kDisconnected) (Channel_dtor (c_channel w) w)"

text \<open>The first half of \<^verbatim>\<open>sendInLoop\<close>: write directly if nothing is queued.  Its result is the state, \<^verbatim>\<open>nwrote\<close>,
  \<^verbatim>\<open>remaining\<close> and \<^verbatim>\<open>faultError\<close>.\<close>

definition write_direct ::
  "'k kernel \<Rightarrow> ('k, 'z) conn conn_callbacks \<Rightarrow> byte list \<Rightarrow> channel \<Rightarrow> ('k, 'z) conn \<Rightarrow>
   ('k, 'z) conn \<times> nat \<times> nat \<times> bool" where
  "write_direct K cbs message ch w =
     (let len = length message
      in if \<not> isWriting ch \<and> readableBytes (c_outputBuffer w) = 0
         then let (k', reply) = k_write K (kern w) (ch_fd ch) message
              in case reply of
                   Wrote n \<Rightarrow>
                     (let w1 = w\<lparr>kern := k', c_sent := c_sent w @ take n message,
                                 c_accepted := c_accepted w @ take n message\<rparr>
                      in (if sz_sub len n = 0 \<and> writeCompleteCallback cbs \<noteq> None
                          then queue_task WriteComplete w1 else w1, n, sz_sub len n, False))
                 | WriteError en \<Rightarrow>
                     (w\<lparr>kern := k'\<rparr>, 0, len, en \<noteq> EWOULDBLOCK \<and> (en = EPIPE \<or> en = ECONNRESET))
         else (w, 0, len, False))"

text \<open>The second half: queue what remains and watch for writability.\<close>

definition queue_output ::
  "'k kernel \<Rightarrow> ('k, 'z) conn conn_callbacks \<Rightarrow> byte list \<Rightarrow> nat \<Rightarrow> nat \<Rightarrow> ('k, 'z) conn \<Rightarrow> ('k, 'z) conn result" where
  "queue_output K cbs message nwrote remaining w =
     (let oldLen = readableBytes (c_outputBuffer w);
          w1 = (if sz_add oldLen remaining \<ge> c_highWaterMark w \<and> oldLen < c_highWaterMark w \<and>
                   highWaterMarkCallback cbs \<noteq> None
                then queue_task (HighWaterMark (sz_add oldLen remaining)) w else w)
      in bindR (append_buf (drop nwrote message) (c_outputBuffer w1)) (\<lambda>b.
           let w2 = w1\<lparr>c_outputBuffer := b, c_accepted := c_accepted w1 @ drop nwrote message\<rparr>
           in deref (c_channel w2) w2 (\<lambda>ch.
                if \<not> isWriting ch then enableWriting (k_ctl K) (c_channel w2) w2 else Inr w2)))"

definition sendInLoop ::
  "'k kernel \<Rightarrow> ('k, 'z) conn conn_callbacks \<Rightarrow> byte list \<Rightarrow> ('k, 'z) conn \<Rightarrow> ('k, 'z) conn result" where
  "sendInLoop K cbs message w =
     assertInLoopThread w
       (if c_state w = kDisconnected then Inr w
        else deref (c_channel w) w (\<lambda>ch.
          let (w1, nwrote, remaining, faultError) = write_direct K cbs message ch w
          in assertR (remaining \<le> length message)
               (if \<not> faultError \<and> remaining > 0 then queue_output K cbs message nwrote remaining w1 else Inr w1)))"

definition send ::
  "'k kernel \<Rightarrow> ('k, 'z) conn conn_callbacks \<Rightarrow> byte list \<Rightarrow> ('k, 'z) conn \<Rightarrow> ('k, 'z) conn result" where
  "send K cbs message w =
     (if c_state w = kConnected
      then if inLoopThread w then sendInLoop K cbs message w else Inr (queue_task (SendInLoop message) w)
      else Inr w)"

text \<open>\<^verbatim>\<open>send(const void*, int)\<close>: \<open>mem\<close> is the memory at the pointer; a negative length is a huge \<^verbatim>\<open>size_t\<close>, which the
  constructor of the string refuses.\<close>

definition send_raw ::
  "'k kernel \<Rightarrow> ('k, 'z) conn conn_callbacks \<Rightarrow> byte list \<Rightarrow> int \<Rightarrow> ('k, 'z) conn \<Rightarrow> ('k, 'z) conn result" where
  "send_raw K cbs mem len w =
     (if len < 0 then Inl LengthError
      else if nat len \<le> length mem then send K cbs (take (nat len) mem) w
      else Inl OutOfBounds)"

text \<open>\<^verbatim>\<open>send(Buffer*)\<close> empties the buffer it is given, if the connection is up.\<close>

definition send_buffer ::
  "'k kernel \<Rightarrow> ('k, 'z) conn conn_callbacks \<Rightarrow> buffer \<Rightarrow> ('k, 'z) conn \<Rightarrow> (buffer \<times> ('k, 'z) conn) result" where
  "send_buffer K cbs buf w =
     (if c_state w = kConnected
      then if inLoopThread w
           then bindR (mem_read (peek buf) (readableBytes buf) (vec buf)) (\<lambda>bs.
                bindR (sendInLoop K cbs bs w) (\<lambda>w1. Inr (retrieveAll buf, w1)))
           else bindR (retrieveAllAsString buf) (\<lambda>(bs, buf').
                Inr (buf', queue_task (SendInLoop bs) w))
      else Inr (buf, w))"

definition shutdownInLoop :: "('k, 'z) conn \<Rightarrow> ('k, 'z) conn result" where
  "shutdownInLoop w =
     assertInLoopThread w (deref (c_channel w) w (\<lambda>ch.
       if \<not> isWriting ch then Inr (w\<lparr>c_shutdown := True\<rparr>) else Inr w))"

definition shutdown :: "('k, 'z) conn \<Rightarrow> ('k, 'z) conn result" where
  "shutdown w =
     (if c_state w = kConnected
      then let w1 = setState kDisconnecting w
           in if inLoopThread w1 then shutdownInLoop w1 else Inr (queue_task ShutdownInLoop w1)
      else Inr w)"

definition handleClose ::
  "'k kernel \<Rightarrow> ('k, 'z) conn conn_callbacks \<Rightarrow> ('k, 'z) conn \<Rightarrow> ('k, 'z) conn result" where
  "handleClose K cbs w =
     assertInLoopThread w
       (assertR (c_state w = kConnected \<or> c_state w = kDisconnecting)
         (let w1 = setState kDisconnected w
          in bindR (disableAll (k_ctl K) (c_channel w1) w1) (\<lambda>w2.
             bindR (call_fun (connectionCallback cbs) w2)
               (call_fun (conn_closeCallback cbs)))))"

definition forceClose :: "('k, 'z) conn \<Rightarrow> ('k, 'z) conn result" where
  "forceClose w =
     (if c_state w = kConnected \<or> c_state w = kDisconnecting
      then Inr (queue_task ForceCloseInLoop (setState kDisconnecting w)) else Inr w)"

text \<open>The timer holds a weak reference: \<open>ForceCloseLater\<close> is \<^verbatim>\<open>forceClose\<close>, run when it expires.\<close>

definition forceCloseWithDelay :: "('k, 'z) conn \<Rightarrow> ('k, 'z) conn result" where
  "forceCloseWithDelay w =
     (if c_state w = kConnected \<or> c_state w = kDisconnecting
      then Inr (queue_task ForceCloseLater (setState kDisconnecting w)) else Inr w)"

definition forceCloseInLoop ::
  "'k kernel \<Rightarrow> ('k, 'z) conn conn_callbacks \<Rightarrow> ('k, 'z) conn \<Rightarrow> ('k, 'z) conn result" where
  "forceCloseInLoop K cbs w =
     assertInLoopThread w
       (if c_state w = kConnected \<or> c_state w = kDisconnecting then handleClose K cbs w else Inr w)"

definition startReadInLoop :: "'k kernel \<Rightarrow> ('k, 'z) conn \<Rightarrow> ('k, 'z) conn result" where
  "startReadInLoop K w =
     assertInLoopThread w (deref (c_channel w) w (\<lambda>ch.
       if \<not> c_reading w \<or> \<not> isReading ch
       then bindR (enableReading (k_ctl K) (c_channel w) w) (\<lambda>w1. Inr (w1\<lparr>c_reading := True\<rparr>))
       else Inr w))"

definition startRead :: "'k kernel \<Rightarrow> ('k, 'z) conn \<Rightarrow> ('k, 'z) conn result" where
  "startRead K w = (if inLoopThread w then startReadInLoop K w else Inr (queue_task StartReadInLoop w))"

definition stopReadInLoop :: "'k kernel \<Rightarrow> ('k, 'z) conn \<Rightarrow> ('k, 'z) conn result" where
  "stopReadInLoop K w =
     assertInLoopThread w (deref (c_channel w) w (\<lambda>ch.
       if c_reading w \<or> isReading ch
       then bindR (disableReading (k_ctl K) (c_channel w) w) (\<lambda>w1. Inr (w1\<lparr>c_reading := False\<rparr>))
       else Inr w))"

definition stopRead :: "'k kernel \<Rightarrow> ('k, 'z) conn \<Rightarrow> ('k, 'z) conn result" where
  "stopRead K w = (if inLoopThread w then stopReadInLoop K w else Inr (queue_task StopReadInLoop w))"

definition conn_isReading :: "('k, 'z) conn \<Rightarrow> bool" where
  "conn_isReading w \<longleftrightarrow> c_reading w"

text \<open>The channel is tied to the connection, which the number 0 identifies here.\<close>

definition connectEstablished ::
  "'k kernel \<Rightarrow> ('k, 'z) conn conn_callbacks \<Rightarrow> ('k, 'z) conn \<Rightarrow> ('k, 'z) conn result" where
  "connectEstablished K cbs w =
     assertInLoopThread w
       (assertR (c_state w = kConnecting)
         (let w1 = setState kConnected w
          in deref (c_channel w1) w1 (\<lambda>ch.
               bindR (enableReading (k_ctl K) (c_channel w1) (set_chan (c_channel w1) (tie 0 ch) w1))
                 (call_fun (connectionCallback cbs)))))"

definition connectDestroyed ::
  "'k kernel \<Rightarrow> ('k, 'z) conn conn_callbacks \<Rightarrow> ('k, 'z) conn \<Rightarrow> ('k, 'z) conn result" where
  "connectDestroyed K cbs w =
     assertInLoopThread w
       (bindR
         (if c_state w = kConnected
          then bindR (disableAll (k_ctl K) (c_channel w) (setState kDisconnected w))
                 (call_fun (connectionCallback cbs))
          else Inr w)
         (\<lambda>w1. chan_remove (k_ctl K) (c_channel w1) w1))"

text \<open>\<^verbatim>\<open>handleError\<close> only logs the pending error of the socket.\<close>

definition handleError :: "('k, 'z) conn \<Rightarrow> ('k, 'z) conn result" where
  "handleError w = Inr w"

definition handleRead ::
  "'k kernel \<Rightarrow> ('k, 'z) conn conn_callbacks \<Rightarrow> timestamp \<Rightarrow> ('k, 'z) conn \<Rightarrow> ('k, 'z) conn result" where
  "handleRead K cbs receiveTime w =
     assertInLoopThread w (deref (c_channel w) w (\<lambda>ch.
       let rd = (\<lambda>lens. k_readv K (kern w) (ch_fd ch) lens)
       in bindR (readFd (\<lambda>lens. snd (rd lens)) (c_inputBuffer w)) (\<lambda>(b, n, savedErrno).
            let w1 = w\<lparr>kern := fst (rd (iovecs (writableBytes (c_inputBuffer w)))), c_inputBuffer := b\<rparr>
            in if n > 0 then call_fun (map_option (\<lambda>f. f receiveTime) (messageCallback cbs)) w1
               else if n = 0 then handleClose K cbs w1
               else handleError w1)))"

definition handleWrite ::
  "'k kernel \<Rightarrow> ('k, 'z) conn conn_callbacks \<Rightarrow> ('k, 'z) conn \<Rightarrow> ('k, 'z) conn result" where
  "handleWrite K cbs w =
     assertInLoopThread w (deref (c_channel w) w (\<lambda>ch.
       if isWriting ch
       then bindR (mem_read (peek (c_outputBuffer w)) (readableBytes (c_outputBuffer w)) (vec (c_outputBuffer w))) (\<lambda>bs.
            let (k', reply) = k_write K (kern w) (ch_fd ch) bs; w1 = w\<lparr>kern := k'\<rparr>
            in case reply of
                 Wrote n \<Rightarrow>
                   if n > 0
                   then bindR (retrieve n (c_outputBuffer w1)) (\<lambda>b.
                        let w2 = w1\<lparr>c_outputBuffer := b, c_sent := c_sent w1 @ take n bs\<rparr>
                        in if readableBytes b = 0
                           then bindR (disableWriting (k_ctl K) (c_channel w2) w2) (\<lambda>w3.
                                let w4 = (if writeCompleteCallback cbs \<noteq> None then queue_task WriteComplete w3 else w3)
                                in if c_state w4 = kDisconnecting then shutdownInLoop w4 else Inr w4)
                           else Inr w2)
                   else Inr w1
               | WriteError en \<Rightarrow> Inr w1)
       else Inr w))"

definition run_task ::
  "'k kernel \<Rightarrow> ('k, 'z) conn conn_callbacks \<Rightarrow> conn_task \<Rightarrow> ('k, 'z) conn \<Rightarrow> ('k, 'z) conn result" where
  "run_task K cbs t w =
     (case t of
        WriteComplete \<Rightarrow> call_fun (writeCompleteCallback cbs) w
      | HighWaterMark n \<Rightarrow> call_fun (map_option (\<lambda>f. f n) (highWaterMarkCallback cbs)) w
      | SendInLoop message \<Rightarrow> sendInLoop K cbs message w
      | ShutdownInLoop \<Rightarrow> shutdownInLoop w
      | ForceCloseInLoop \<Rightarrow> forceCloseInLoop K cbs w
      | ForceCloseLater \<Rightarrow> forceClose w
      | StartReadInLoop \<Rightarrow> startReadInLoop K w
      | StopReadInLoop \<Rightarrow> stopReadInLoop K w
      | ConnectDestroyed \<Rightarrow> connectDestroyed K cbs w)"

definition defaultConnectionCallback :: "('k, 'z) conn \<Rightarrow> ('k, 'z) conn result" where
  "defaultConnectionCallback w = Inr w"

definition defaultMessageCallback :: "('k, 'z) conn \<Rightarrow> ('k, 'z) conn result" where
  "defaultMessageCallback w = Inr (w\<lparr>c_inputBuffer := retrieveAll (c_inputBuffer w)\<rparr>)"

section \<open>The invariant\<close>

definition chan_state_ok :: "conn_state \<Rightarrow> byte list \<Rightarrow> ('k, 'z) conn \<Rightarrow> channel \<Rightarrow> bool" where
  "chan_state_ok s out w ch \<longleftrightarrow>
     (case s of
        kConnecting \<Rightarrow> ch_index ch = kNew \<and> channels w (ch_fd ch) = None \<and> out = []
      | kDisconnected \<Rightarrow> isNoneEvent ch
      | _ \<Rightarrow> ch_index ch \<noteq> kNew \<and> (isWriting ch \<longleftrightarrow> out \<noteq> []))"

definition conn_inv :: "('k \<Rightarrow> int \<Rightarrow> epoll_event option) \<Rightarrow> ('k, 'z) conn \<Rightarrow> bool" where
  "conn_inv interest w \<longleftrightarrow>
     reactor_inv interest w \<and> buffer_inv (c_inputBuffer w) \<and> buffer_inv (c_outputBuffer w) \<and>
     c_sent w @ content (c_outputBuffer w) = c_accepted w \<and>
     (\<exists>ch. heap w (c_channel w) = Some ch \<and> lib_mask (ch_events ch) \<and>
        chan_state_ok (c_state w) (content (c_outputBuffer w)) w ch)"

definition up :: "('k, 'z) conn \<Rightarrow> bool" where
  "up w \<longleftrightarrow> c_state w = kConnected \<or> c_state w = kDisconnecting"

lemma conn_invD:
  assumes "conn_inv interest w"
  shows "reactor_inv interest w" "inLoopThread w" "buffer_inv (c_inputBuffer w)" "buffer_inv (c_outputBuffer w)"
    "c_sent w @ content (c_outputBuffer w) = c_accepted w"
  using assms reactor_invD(1) by (auto simp: conn_inv_def)

lemma conn_inv_chan:
  assumes "conn_inv interest w"
  obtains ch where "heap w (c_channel w) = Some ch" "lib_mask (ch_events ch)"
    "chan_state_ok (c_state w) (content (c_outputBuffer w)) w ch"
  using assms by (auto simp: conn_inv_def)

lemma conn_invI:
  assumes "reactor_inv interest w" "buffer_inv (c_inputBuffer w)" "buffer_inv (c_outputBuffer w)"
    "c_sent w @ content (c_outputBuffer w) = c_accepted w" "heap w (c_channel w) = Some ch"
    "lib_mask (ch_events ch)" "chan_state_ok (c_state w) (content (c_outputBuffer w)) w ch"
  shows "conn_inv interest w"
  using assms by (auto simp: conn_inv_def)

lemma up_chan: "chan_state_ok (c_state w) out w ch \<Longrightarrow> up w \<Longrightarrow> ch_index ch \<noteq> kNew \<and> (isWriting ch \<longleftrightarrow> out \<noteq> [])"
  by (auto simp: chan_state_ok_def up_def)

lemma kernel_contractD:
  assumes "kernel_contract K interest"
  shows "epoll_contract (k_ctl K) interest" "interest (fst (k_write K k fd bs)) = interest k"
    "snd (k_write K k fd bs) = Wrote n \<Longrightarrow> n \<le> length bs" "readv_contract (\<lambda>lens. snd (k_readv K k fd lens))"
    "interest (fst (k_readv K k fd lens)) = interest k"
  using assms by (auto simp: kernel_contract_def)

text \<open>A change of the kernel state that keeps the interest list keeps the poller consistent.\<close>

lemma reactor_inv_kern:
  assumes "reactor_inv interest w" "interest k = interest (kern w)" "heap v = heap w" "channels v = channels w"
    "kern v = k" "inLoopThread v = inLoopThread w"
  shows "reactor_inv interest v"
proof -
  have "watched v = watched w" by (rule ext) (simp add: watched_def assms cong: option.case_cong)
  moreover have "chan_inv v = chan_inv w" by (intro ext) (simp add: chan_inv_def assms)
  ultimately show ?thesis using assms by (simp add: reactor_inv_def)
qed

text \<open>A switch of the channel leaves the fields of the connection alone.\<close>

lemma updated_conn [simp]:
  "c_state (updated p c k w) = c_state w" "c_reading (updated p c k w) = c_reading w"
  "c_channel (updated p c k w) = c_channel w" "c_inputBuffer (updated p c k w) = c_inputBuffer w"
  "c_outputBuffer (updated p c k w) = c_outputBuffer w" "c_highWaterMark (updated p c k w) = c_highWaterMark w"
  "c_tasks (updated p c k w) = c_tasks w" "c_shutdown (updated p c k w) = c_shutdown w"
  "c_sent (updated p c k w) = c_sent w" "c_accepted (updated p c k w) = c_accepted w"
  "eventHandling (updated p c k w) = eventHandling w" "activeChannels (updated p c k w) = activeChannels w"
  "currentActiveChannel (updated p c k w) = currentActiveChannel w" "tcp.more (updated p c k w) = tcp.more w"
  by (simp_all add: updated_def)

lemma updated_heap: "heap (updated p c k w) p = Some (c\<lparr>ch_addedToLoop := True, ch_index := next_index c\<rparr>)"
  by (simp add: updated_def)

lemma mask_cong:
  "ch_events c = ch_events d \<Longrightarrow> isWriting c = isWriting d"
  "ch_events c = ch_events d \<Longrightarrow> isReading c = isReading d"
  "ch_events c = ch_events d \<Longrightarrow> isNoneEvent c = isNoneEvent d"
  by (simp_all add: isWriting_def isReading_def isNoneEvent_def)

lemma switch_conn:
  assumes "kernel_contract K interest" "reactor_inv interest w" "heap w p = Some ch"
    "ch_index ch = kNew \<Longrightarrow> channels w (ch_fd ch) = None" "switch f"
  shows "\<exists>k' ch'. deref p w (\<lambda>c. chan_update (k_ctl K) p (set_chan p (f c) w)) = Inr (updated p (f ch) k' w) \<and>
    reactor_inv interest (updated p (f ch) k' w) \<and> heap (updated p (f ch) k' w) p = Some ch' \<and>
    ch_events ch' = ch_events (f ch) \<and> ch_index ch' \<noteq> kNew \<and> ch_fd ch' = ch_fd ch"
proof -
  obtain k' where k': "deref p w (\<lambda>c. chan_update (k_ctl K) p (set_chan p (f c) w)) = Inr (updated p (f ch) k' w)"
      "reactor_inv interest (updated p (f ch) k' w)"
    using switch_ok [OF kernel_contractD(1) [OF assms(1)] assms(2,3,4,5)] by blast
  obtain e where e: "f ch = ch\<lparr>ch_events := e\<rparr>" using assms(5) by (auto simp: switch_def)
  show ?thesis
    using k' by (intro exI [of _ k'] exI [of _ "(f ch)\<lparr>ch_addedToLoop := True, ch_index := next_index (f ch)\<rparr>"])
      (simp add: updated_heap e next_index_def index_defs)
qed

lemma readable_zero: "buffer_inv b \<Longrightarrow> readableBytes b = 0 \<longleftrightarrow> content b = []"
  by (metis readable_content length_0_conv)

subsection \<open>Sending\<close>

definition out_room :: "byte list \<Rightarrow> ('k, 'z) conn \<Rightarrow> bool" where
  "out_room message w \<longleftrightarrow> used_bytes (c_outputBuffer w) + length message \<le> vec_max"

text \<open>The part of the invariant that does not speak of the channel's mask.\<close>

definition base_inv :: "('k \<Rightarrow> int \<Rightarrow> epoll_event option) \<Rightarrow> channel \<Rightarrow> ('k, 'z) conn \<Rightarrow> bool" where
  "base_inv interest ch w \<longleftrightarrow>
     reactor_inv interest w \<and> buffer_inv (c_inputBuffer w) \<and> buffer_inv (c_outputBuffer w) \<and>
     c_sent w @ content (c_outputBuffer w) = c_accepted w \<and> heap w (c_channel w) = Some ch \<and>
     lib_mask (ch_events ch) \<and> ch_index ch \<noteq> kNew"

lemma base_invD:
  assumes "base_inv interest ch w"
  shows "reactor_inv interest w" "buffer_inv (c_inputBuffer w)" "buffer_inv (c_outputBuffer w)"
    "heap w (c_channel w) = Some ch" "lib_mask (ch_events ch)" "ch_index ch \<noteq> kNew"
    "c_sent w @ content (c_outputBuffer w) = c_accepted w"
  using assms unfolding base_inv_def by blast+

lemma base_invI:
  assumes "reactor_inv interest w" "buffer_inv (c_inputBuffer w)" "buffer_inv (c_outputBuffer w)"
    "heap w (c_channel w) = Some ch" "lib_mask (ch_events ch)" "ch_index ch \<noteq> kNew"
    "c_sent w @ content (c_outputBuffer w) = c_accepted w"
  shows "base_inv interest ch w"
  using assms unfolding base_inv_def by blast

lemma conn_inv_up:
  assumes "conn_inv interest w" "up w"
  obtains ch where "base_inv interest ch w" "isWriting ch \<longleftrightarrow> content (c_outputBuffer w) \<noteq> []"
proof -
  obtain ch where ch: "heap w (c_channel w) = Some ch" "lib_mask (ch_events ch)"
      "chan_state_ok (c_state w) (content (c_outputBuffer w)) w ch" by (rule conn_inv_chan [OF assms(1)])
  with up_chan [OF ch(3) assms(2)] assms(1) show thesis
    by (intro that [of ch]) (auto simp: base_inv_def conn_inv_def)
qed

lemma base_inv_up:
  assumes "base_inv interest ch w" "up w" "isWriting ch \<longleftrightarrow> content (c_outputBuffer w) \<noteq> []"
  shows "conn_inv interest w"
  using assms by (auto simp: base_inv_def conn_inv_def chan_state_ok_def up_def)

text \<open>The fields that no step of sending touches.\<close>

definition same_conn :: "('k, 'z) conn \<Rightarrow> ('k, 'z) conn \<Rightarrow> bool" where
  "same_conn w w' \<longleftrightarrow> c_state w' = c_state w \<and> c_shutdown w' = c_shutdown w \<and> c_inputBuffer w' = c_inputBuffer w \<and>
     c_channel w' = c_channel w \<and> c_highWaterMark w' = c_highWaterMark w \<and> (\<exists>ts. c_tasks w' = c_tasks w @ ts) \<and>
     tcp.more w' = tcp.more w"

lemma same_conn_refl: "same_conn w w"
  by (simp add: same_conn_def)

lemma same_conn_trans: "same_conn w w' \<Longrightarrow> same_conn w' w'' \<Longrightarrow> same_conn w w''"
  by (auto simp: same_conn_def)

text \<open>The kernel answers the write of a message with an error that tells that the peer is gone.\<close>

definition write_fails :: "'k kernel \<Rightarrow> byte list \<Rightarrow> channel \<Rightarrow> 'k \<Rightarrow> bool" where
  "write_fails K message ch k \<longleftrightarrow>
     (case snd (k_write K k (ch_fd ch) message) of WriteError en \<Rightarrow> en = EPIPE \<or> en = ECONNRESET | Wrote n \<Rightarrow> False)"

definition peer_gone :: "'k kernel \<Rightarrow> byte list \<Rightarrow> ('k, 'z) conn \<Rightarrow> bool" where
  "peer_gone K message w \<longleftrightarrow> content (c_outputBuffer w) = [] \<and>
     (\<exists>ch. heap w (c_channel w) = Some ch \<and> write_fails K message ch (kern w))"

lemma write_direct_ok:
  assumes K: "kernel_contract K interest" and inv: "base_inv interest ch w" and len: "length message \<le> vec_max"
    and w1: "write_direct K cbs message ch w = (w1, nwrote, remaining, faultError)"
  shows "base_inv interest ch w1" "same_conn w w1" "remaining = length message - nwrote" "nwrote \<le> length message"
    "c_accepted w1 = c_accepted w @ take nwrote message" "c_outputBuffer w1 = c_outputBuffer w"
    "isWriting ch \<Longrightarrow> nwrote = 0 \<and> \<not> faultError" "faultError \<Longrightarrow> nwrote = 0 \<and> write_fails K message ch (kern w)"
proof -
  obtain k' r where kr: "k_write K (kern w) (ch_fd ch) message = (k', r)" by (cases "k_write K (kern w) (ch_fd ch) message")
  have ik: "interest k' = interest (kern w)" and le: "\<And>n. r = Wrote n \<Longrightarrow> n \<le> length message"
    using kernel_contractD(2,3) [OF K, of "kern w" "ch_fd ch" message] kr by auto
  have lt: "length message < 2 ^ 64" using len by (simp add: vec_max_def)
  have empty: "content (c_outputBuffer w) = []" if "readableBytes (c_outputBuffer w) = 0"
    using that inv readable_zero by (auto simp: base_inv_def)
  have "base_inv interest ch w1 \<and> same_conn w w1 \<and> remaining = length message - nwrote \<and> nwrote \<le> length message \<and>
    c_accepted w1 = c_accepted w @ take nwrote message \<and> c_outputBuffer w1 = c_outputBuffer w \<and>
    (isWriting ch \<longrightarrow> nwrote = 0 \<and> \<not> faultError) \<and> (faultError \<longrightarrow> nwrote = 0 \<and> write_fails K message ch (kern w))"
  proof (cases "\<not> isWriting ch \<and> readableBytes (c_outputBuffer w) = 0")
    case False
    then show ?thesis using w1 inv by (auto simp: write_direct_def Let_def same_conn_refl)
  next
    case True
    have re: "reactor_inv interest v" if "heap v = heap w" "channels v = channels w" "kern v = k'" "inLoopThread v = inLoopThread w"
      for v :: "('a, 'b) conn"
      using reactor_inv_kern [OF _ ik that] inv by (simp add: base_inv_def)
    show ?thesis
    proof (cases r)
      case (Wrote n)
      then show ?thesis using True w1 kr inv le lt empty re
        by (auto simp: write_direct_def Let_def same_conn_def base_inv_def queue_task_def split: if_splits)
    next
      case (WriteError en)
      then show ?thesis using True w1 kr inv re
        by (auto simp: write_direct_def Let_def same_conn_def base_inv_def write_fails_def)
    qed
  qed
  then show "base_inv interest ch w1" "same_conn w w1" "remaining = length message - nwrote" "nwrote \<le> length message"
    "c_accepted w1 = c_accepted w @ take nwrote message" "c_outputBuffer w1 = c_outputBuffer w"
    "isWriting ch \<Longrightarrow> nwrote = 0 \<and> \<not> faultError" "faultError \<Longrightarrow> nwrote = 0 \<and> write_fails K message ch (kern w)" by blast+
qed

lemma enableWriting_ok:
  assumes K: "kernel_contract K interest" and inv: "base_inv interest ch w"
  shows "\<exists>w' ch'. enableWriting (k_ctl K) (c_channel w) w = Inr w' \<and> base_inv interest ch' w' \<and> isWriting ch' \<and>
    isReading ch' = isReading ch \<and> same_conn w w' \<and> c_outputBuffer w' = c_outputBuffer w \<and> c_accepted w' = c_accepted w \<and>
    c_sent w' = c_sent w \<and> c_tasks w' = c_tasks w"
proof -
  have b: "reactor_inv interest w" "heap w (c_channel w) = Some ch" "lib_mask (ch_events ch)" "ch_index ch \<noteq> kNew"
    using inv by (simp_all add: base_inv_def)
  from switch_conn [OF K b(1,2) _ switches(3)] b(4) obtain k' ch' where
    k': "enableWriting (k_ctl K) (c_channel w) w = Inr (updated (c_channel w) (writing_on ch) k' w)"
      "reactor_inv interest (updated (c_channel w) (writing_on ch) k' w)"
      "heap (updated (c_channel w) (writing_on ch) k' w) (c_channel w) = Some ch'"
      "ch_events ch' = ch_events (writing_on ch)" "ch_index ch' \<noteq> kNew"
    by (auto simp: switch_defs)
  have "isWriting ch'" "isReading ch' = isReading ch" using mask_cong [OF k'(4)] by simp_all
  moreover have "lib_mask (ch_events ch')" using k'(4) b(3) by simp
  ultimately show ?thesis using k' inv
    by (intro exI [of _ "updated (c_channel w) (writing_on ch) k' w"] exI [of _ ch']) (simp add: base_inv_def same_conn_def)
qed

lemma tcp_tasks_id: "w\<lparr>c_tasks := c_tasks w\<rparr> = (w :: ('k, 'z) conn)"
  by (cases w) simp

lemma high_water_tasks:
  fixes w :: "('k, 'z) conn"
  shows "(if n \<ge> m \<and> old < m \<and> cb \<noteq> None then queue_task (HighWaterMark n) w else w) =
    w\<lparr>c_tasks := c_tasks w @ (if m \<le> n \<and> old < m \<and> cb \<noteq> None then [HighWaterMark n] else [])\<rparr>"
  by (cases "n \<ge> m \<and> old < m \<and> cb \<noteq> None") (simp_all only: if_True if_False append_Nil2 tcp_tasks_id simp_thms queue_task_def)

text \<open>The rest of a message goes to the output buffer and to the books.\<close>

lemma enqueue_inv:
  assumes inv: "base_inv interest ch w" and b': "buffer_inv b'" "content b' = content (c_outputBuffer w) @ d"
  shows "base_inv interest ch (w\<lparr>c_tasks := ts, c_outputBuffer := b', c_accepted := c_accepted w @ d\<rparr>)"
proof (intro base_invI)
  let ?w2 = "w\<lparr>c_tasks := ts, c_outputBuffer := b', c_accepted := c_accepted w @ d\<rparr>"
  show "reactor_inv interest ?w2" by (rule reactor_inv_cong [THEN iffD2, rotated 4, OF base_invD(1) [OF inv]]) simp_all
  have e: "c_sent w @ content (c_outputBuffer w) = c_accepted w" using inv unfolding base_inv_def by blast
  have "c_sent w @ content b' = c_accepted w @ d" unfolding b'(2) append_assoc [symmetric] e ..
  then show "c_sent ?w2 @ content (c_outputBuffer ?w2) = c_accepted ?w2" by (simp del: append_eq_append_conv2)
qed (use b'(1) base_invD [OF inv] in simp_all)

lemma queue_output_ok:
  assumes K: "kernel_contract K interest" and inv: "base_inv interest ch w" and room: "out_room message w"
    and n: "nwrote < length message"
  shows "\<exists>w' ch'. queue_output K cbs message nwrote (length message - nwrote) w = Inr w' \<and> base_inv interest ch' w' \<and>
    isWriting ch' \<and> same_conn w w' \<and> content (c_outputBuffer w') = content (c_outputBuffer w) @ drop nwrote message \<and>
    c_accepted w' = c_accepted w @ drop nwrote message \<and>
    c_tasks w' = c_tasks w @
      (if c_highWaterMark w \<le> length (content (c_outputBuffer w')) \<and>
          length (content (c_outputBuffer w)) < c_highWaterMark w \<and> highWaterMarkCallback cbs \<noteq> None
       then [HighWaterMark (length (content (c_outputBuffer w')))] else [])"
proof -
  have b: "buffer_inv (c_outputBuffer w)" using inv by (simp add: base_inv_def)
  have "used_bytes (c_outputBuffer w) + length (drop nwrote message) \<le> vec_max" using room by (simp add: out_room_def)
  from buffer_queue.app_spec [OF b this] obtain b' where
    b': "append_buf (drop nwrote message) (c_outputBuffer w) = Inr b'" "buffer_inv b'"
      "content b' = content (c_outputBuffer w) @ drop nwrote message" by blast
  have old: "readableBytes (c_outputBuffer w) = length (content (c_outputBuffer w))" using b by (rule readable_content)
  have "length (content b') \<le> vec_max" using b'(2) buffer_inv_bounds [OF b'(2)] by (simp add: content_def vec_max_def)
  then have sz: "sz_add (readableBytes (c_outputBuffer w)) (length message - nwrote) = length (content b')"
    using old b'(3) by (simp add: vec_max_def)
  define ts where "ts = (if c_highWaterMark w \<le> length (content b') \<and>
      length (content (c_outputBuffer w)) < c_highWaterMark w \<and> highWaterMarkCallback cbs \<noteq> None
    then [HighWaterMark (length (content b'))] else [])"
  let ?w2 = "w\<lparr>c_tasks := c_tasks w @ ts, c_outputBuffer := b', c_accepted := c_accepted w @ drop nwrote message\<rparr>"
  have i2: "base_inv interest ch ?w2" by (rule enqueue_inv [OF inv b'(2,3)])
  have s2: "same_conn w ?w2" by (simp add: same_conn_def)
  have hw: "(if sz_add (readableBytes (c_outputBuffer w)) (length message - nwrote) \<ge> c_highWaterMark w \<and>
        readableBytes (c_outputBuffer w) < c_highWaterMark w \<and> highWaterMarkCallback cbs \<noteq> None
      then queue_task (HighWaterMark (sz_add (readableBytes (c_outputBuffer w)) (length message - nwrote))) w else w) =
      w\<lparr>c_tasks := c_tasks w @ ts\<rparr>"
    unfolding old sz [unfolded old] ts_def by (rule high_water_tasks)
  have h: "heap ?w2 (c_channel ?w2) = Some ch" using inv by (simp add: base_inv_def)
  have q: "queue_output K cbs message nwrote (length message - nwrote) w =
      (if \<not> isWriting ch then enableWriting (k_ctl K) (c_channel ?w2) ?w2 else Inr ?w2)"
    using b'(1) h unfolding queue_output_def Let_def hw deref_def by simp
  have fin: "c_tasks w' = c_tasks w @
      (if c_highWaterMark w \<le> length (content (c_outputBuffer w')) \<and>
          length (content (c_outputBuffer w)) < c_highWaterMark w \<and> highWaterMarkCallback cbs \<noteq> None
       then [HighWaterMark (length (content (c_outputBuffer w')))] else [])"
    if "c_tasks w' = c_tasks ?w2" "c_outputBuffer w' = b'" for w' :: "('a, 'b) conn"
    using that by (simp add: ts_def)
  show ?thesis
  proof (cases "isWriting ch")
    case True
    then show ?thesis using q i2 s2 b'(3) fin [of ?w2] by (intro exI [of _ ?w2] exI [of _ ch] conjI) simp_all
  next
    case False
    from enableWriting_ok [OF K i2] obtain w' ch' where
      "enableWriting (k_ctl K) (c_channel ?w2) ?w2 = Inr w'" "base_inv interest ch' w'" "isWriting ch'" "same_conn ?w2 w'"
      "c_outputBuffer w' = c_outputBuffer ?w2" "c_accepted w' = c_accepted ?w2" "c_tasks w' = c_tasks ?w2" by blast
    moreover from this have "same_conn w w'" using same_conn_trans [OF s2] by blast
    ultimately show ?thesis using False q b'(3) fin [of w'] by (intro exI [of _ w'] exI [of _ ch'] conjI) simp_all
  qed
qed

text \<open>
  What \<open>sendInLoop\<close> does to a connection that is up: it gives the kernel a prefix if nothing is queued, queues the
  rest and watches for writability, or gives the whole message up when the peer is gone.
\<close>

lemma up_same: "same_conn w w' \<Longrightarrow> up w' = up w"
  by (simp add: same_conn_def up_def)

lemma sendInLoop_ok:
  assumes K: "kernel_contract K interest" and inv: "conn_inv interest w" and up: "up w" and room: "out_room message w"
  shows "\<exists>w' d. sendInLoop K cbs message w = Inr w' \<and> conn_inv interest w' \<and> c_accepted w' = c_accepted w @ d \<and>
    (d = message \<or> d = [] \<and> peer_gone K message w) \<and> same_conn w w'"
proof -
  obtain ch where ch: "base_inv interest ch w" "isWriting ch \<longleftrightarrow> content (c_outputBuffer w) \<noteq> []"
    by (rule conn_inv_up [OF inv up])
  obtain w1 n r f where w1: "write_direct K cbs message ch w = (w1, n, r, f)"
    by (cases "write_direct K cbs message ch w") auto
  have len: "length message \<le> vec_max" using room by (simp add: out_room_def)
  note W = write_direct_ok [OF K ch(1) len w1]
  have nd: "c_state w \<noteq> kDisconnected" "inLoopThread w" "heap w (c_channel w) = Some ch"
    using up ch(1) conn_invD(2) [OF inv] by (auto simp: up_def base_inv_def)
  have s: "sendInLoop K cbs message w =
      (if \<not> f \<and> r > 0 then queue_output K cbs message n r w1 else Inr w1)"
    using nd W(3) by (simp add: sendInLoop_def assertInLoopThread_def deref_def w1)
  show ?thesis
  proof (cases "\<not> f \<and> r > 0")
    case True
    have n: "n < length message" and r: "r = length message - n" using True W(3,4) by auto
    have "out_room message w1" using room W(6) by (simp add: out_room_def)
    from queue_output_ok [OF K W(1) this n, of cbs] obtain w' ch' where
      w': "queue_output K cbs message n (length message - n) w1 = Inr w'" "base_inv interest ch' w'" "isWriting ch'"
        "same_conn w1 w'" "content (c_outputBuffer w') = content (c_outputBuffer w1) @ drop n message"
        "c_accepted w' = c_accepted w1 @ drop n message" by blast
    have sc: "same_conn w w'" using same_conn_trans [OF W(2) w'(4)] .
    have "conn_inv interest w'"
      by (rule base_inv_up [OF w'(2)]) (use up_same [OF sc] up w'(3,5) n in simp_all)
    then show ?thesis using s True w'(1,6) r W(5) sc by auto
  next
    case False
    have "isWriting ch \<longleftrightarrow> content (c_outputBuffer w1) \<noteq> []" using ch(2) W(6) by simp
    from base_inv_up [OF W(1) _ this] have "conn_inv interest w1" using up_same [OF W(2)] up by simp
    moreover have "take n message = message \<or> take n message = [] \<and> peer_gone K message w"
    proof (cases f)
      case True
      then show ?thesis using W(7,8) ch(2) nd(3) by (auto simp: peer_gone_def)
    next
      case f: False
      with False W(3,4) have "n = length message" by simp
      then show ?thesis by simp
    qed
    ultimately show ?thesis using s False W(2,5) by (intro exI [of _ w1] exI [of _ "take n message"]) auto
  qed
qed

subsection \<open>Closing\<close>

lemma reactor_inv_same:
  assumes "reactor_inv interest w" "heap v = heap w" "channels v = channels w" "kern v = kern w"
    "inLoopThread v = inLoopThread w"
  shows "reactor_inv interest v"
  using reactor_inv_cong [OF assms(2-5)] assms(1) by blast

lemma conn_inv_input:
  assumes "conn_inv interest w" "heap v = heap w" "channels v = channels w" "kern v = kern w"
    "inLoopThread v = inLoopThread w" "c_channel v = c_channel w" "c_state v = c_state w"
    "buffer_inv (c_inputBuffer v)" "c_outputBuffer v = c_outputBuffer w" "c_sent v = c_sent w" "c_accepted v = c_accepted w"
  shows "conn_inv interest v"
proof -
  obtain ch where ch: "heap w (c_channel w) = Some ch" "lib_mask (ch_events ch)"
      "chan_state_ok (c_state w) (content (c_outputBuffer w)) w ch" by (rule conn_inv_chan [OF assms(1)])
  have "chan_state_ok (c_state w) (content (c_outputBuffer w)) v ch" using ch(3) assms(3)
    by (simp add: chan_state_ok_def split: conn_state.splits)
  then show ?thesis
    using conn_invD [OF assms(1)] ch assms(2-11) reactor_inv_same [OF _ assms(2-5)]
    by (intro conn_invI [of interest v ch]) simp_all
qed

lemma conn_inv_same:
  assumes "conn_inv interest w" "heap v = heap w" "channels v = channels w" "kern v = kern w"
    "inLoopThread v = inLoopThread w" "c_channel v = c_channel w" "c_state v = c_state w"
    "c_inputBuffer v = c_inputBuffer w" "c_outputBuffer v = c_outputBuffer w" "c_sent v = c_sent w" "c_accepted v = c_accepted w"
  shows "conn_inv interest v"
  by (rule conn_inv_input [OF assms(1-7) _ assms(9-11)]) (simp add: assms(8) conn_invD(3) [OF assms(1)])

lemma queue_task_inv: "conn_inv interest w \<Longrightarrow> conn_inv interest (queue_task t w)"
  by (rule conn_inv_same [of interest w]) (simp_all add: queue_task_def)

lemma disconnecting_inv: "conn_inv interest w \<Longrightarrow> up w \<Longrightarrow> conn_inv interest (setState kDisconnecting w)"
proof -
  assume inv: "conn_inv interest w" and up: "up w"
  obtain ch where ch: "base_inv interest ch w" "isWriting ch \<longleftrightarrow> content (c_outputBuffer w) \<noteq> []"
    by (rule conn_inv_up [OF inv up])
  note B = base_invD [OF ch(1)]
  have "reactor_inv interest (setState kDisconnecting w)"
    by (rule reactor_inv_same [OF B(1)]) (simp_all add: setState_def)
  then have "base_inv interest ch (setState kDisconnecting w)" using B(2-7) by (simp add: base_inv_def setState_def)
  then show ?thesis by (rule base_inv_up) (use ch(2) in \<open>simp_all add: setState_def up_def\<close>)
qed

text \<open>The write side is shut down only when nothing is queued.\<close>

lemma shutdownInLoop_ok:
  assumes inv: "conn_inv interest w" and up: "up w"
  shows "\<exists>w'. shutdownInLoop w = Inr w' \<and> conn_inv interest w' \<and>
    w' = w\<lparr>c_shutdown := c_shutdown w \<or> content (c_outputBuffer w) = []\<rparr>"
proof -
  obtain ch where ch: "base_inv interest ch w" "isWriting ch \<longleftrightarrow> content (c_outputBuffer w) \<noteq> []"
    by (rule conn_inv_up [OF inv up])
  let ?w = "w\<lparr>c_shutdown := c_shutdown w \<or> content (c_outputBuffer w) = []\<rparr>"
  have "shutdownInLoop w = Inr ?w"
  proof (cases "isWriting ch")
    case True
    then have "?w = w" using ch(2) by (cases w) simp
    then show ?thesis using True conn_invD(2) [OF inv] base_invD(4) [OF ch(1)]
      by (simp add: shutdownInLoop_def assertInLoopThread_def deref_def)
  next
    case False
    then show ?thesis using ch(2) conn_invD(2) [OF inv] base_invD(4) [OF ch(1)]
      by (simp add: shutdownInLoop_def assertInLoopThread_def deref_def)
  qed
  moreover have "conn_inv interest ?w" by (rule conn_inv_same [OF inv]) simp_all
  ultimately show ?thesis by blast
qed

lemma shutdown_ok:
  assumes "conn_inv interest w"
  shows "\<exists>w'. shutdown w = Inr w' \<and> conn_inv interest w' \<and>
    (c_shutdown w' \<longrightarrow> c_shutdown w \<or> c_sent w' = c_accepted w') \<and> c_accepted w' = c_accepted w \<and>
    c_state w' = (if c_state w = kConnected then kDisconnecting else c_state w) \<and> c_inputBuffer w' = c_inputBuffer w \<and>
    tcp.more w' = tcp.more w"
proof (cases "c_state w = kConnected")
  case True
  then have up: "up w" by (simp add: up_def)
  let ?w = "setState kDisconnecting w"
  have i: "conn_inv interest ?w" by (rule disconnecting_inv [OF assms up])
  have u: "up ?w" by (simp add: up_def setState_def)
  obtain w' where w': "shutdownInLoop ?w = Inr w'" "conn_inv interest w'"
      "w' = ?w\<lparr>c_shutdown := c_shutdown ?w \<or> content (c_outputBuffer ?w) = []\<rparr>"
    using shutdownInLoop_ok [OF i u] by blast
  have "shutdown w = Inr w'" using True w'(1) conn_invD(2) [OF i] by (simp add: shutdown_def)
  moreover have "c_shutdown w' \<longrightarrow> c_shutdown w \<or> c_sent w' = c_accepted w'"
    using w'(3) conn_invD(5) [OF w'(2)] by (auto simp: setState_def)
  ultimately show ?thesis using True w'(2,3) by (intro exI [of _ w']) (simp add: setState_def)
qed (use assms in \<open>simp add: shutdown_def\<close>)

text \<open>The contract of the callbacks of a connection.\<close>

definition cbs_ok :: "('w \<Rightarrow> bool) \<Rightarrow> 'w conn_callbacks \<Rightarrow> bool" where
  "cbs_ok I cbs \<longleftrightarrow>
     (\<exists>f. connectionCallback cbs = Some f \<and> cb_keeps I f) \<and>
     (\<exists>f. messageCallback cbs = Some f \<and> (\<forall>t. cb_keeps I (f t))) \<and>
     (\<exists>f. conn_closeCallback cbs = Some f \<and> cb_keeps I f) \<and>
     (\<forall>f. writeCompleteCallback cbs = Some f \<longrightarrow> cb_keeps I f) \<and>
     (\<forall>f n. highWaterMarkCallback cbs = Some f \<longrightarrow> cb_keeps I (f n))"

lemma cbs_okD:
  assumes "cbs_ok I cbs" "I w"
  shows "\<exists>w'. call_fun (connectionCallback cbs) w = Inr w' \<and> I w'"
    "\<exists>w'. call_fun (map_option (\<lambda>f. f t) (messageCallback cbs)) w = Inr w' \<and> I w'"
    "\<exists>w'. call_fun (conn_closeCallback cbs) w = Inr w' \<and> I w'"
  using assms by (auto simp: cbs_ok_def cb_keeps_def call_fun_def)

lemma disableAll_ok:
  assumes K: "kernel_contract K interest" and inv: "conn_inv interest w" and up: "up w"
  shows "\<exists>w'. disableAll (k_ctl K) (c_channel w) (setState kDisconnected w) = Inr w' \<and> conn_inv interest w' \<and>
    c_state w' = kDisconnected \<and> same_conn (setState kDisconnected w) w' \<and> c_tasks w' = c_tasks w"
proof -
  obtain ch where ch: "base_inv interest ch w" by (rule conn_inv_up [OF inv up])
  note B = base_invD [OF ch]
  let ?w = "setState kDisconnected w"
  have r: "reactor_inv interest ?w" by (rule reactor_inv_same [OF B(1)]) (simp_all add: setState_def)
  have h: "heap ?w (c_channel w) = Some ch" using B(4) by (simp add: setState_def)
  from switch_conn [OF K r h _ switches(5)] B(6) obtain k' ch' where
    k': "disableAll (k_ctl K) (c_channel w) ?w = Inr (updated (c_channel w) (all_off ch) k' ?w)"
      "reactor_inv interest (updated (c_channel w) (all_off ch) k' ?w)"
      "heap (updated (c_channel w) (all_off ch) k' ?w) (c_channel w) = Some ch'"
      "ch_events ch' = ch_events (all_off ch)"
    by (auto simp: switch_defs)
  have "isNoneEvent ch'" "lib_mask (ch_events ch')" using mask_cong(3) [OF k'(4)] k'(4) B(5) by simp_all
  with k' B have "conn_inv interest (updated (c_channel w) (all_off ch) k' ?w)"
    by (intro conn_invI [of _ _ ch']) (simp_all add: setState_def chan_state_ok_def)
  then show ?thesis using k'(1) by (simp add: setState_def same_conn_def)
qed

lemma handleClose_ok:
  assumes K: "kernel_contract K interest" and inv: "conn_inv interest w" and up: "up w" and cbs: "cbs_ok (conn_inv interest) cbs"
  shows "\<exists>w'. handleClose K cbs w = Inr w' \<and> conn_inv interest w'"
proof -
  obtain w1 where w1: "disableAll (k_ctl K) (c_channel w) (setState kDisconnected w) = Inr w1" "conn_inv interest w1"
    using disableAll_ok [OF K inv up] by blast
  obtain w2 where w2: "call_fun (connectionCallback cbs) w1 = Inr w2" "conn_inv interest w2"
    using cbs_okD(1) [OF cbs w1(2)] by blast
  obtain w3 where w3: "call_fun (conn_closeCallback cbs) w2 = Inr w3" "conn_inv interest w3"
    using cbs_okD(3) [OF cbs w2(2)] by blast
  have "c_channel (setState kDisconnected w) = c_channel w" by (simp add: setState_def)
  then show ?thesis using w1(1) w2(1) w3 up conn_invD(2) [OF inv]
    by (simp add: handleClose_def assertInLoopThread_def up_def Let_def)
qed

subsection \<open>Reading and writing\<close>

definition in_room :: "('k, 'z) conn \<Rightarrow> bool" where
  "in_room w \<longleftrightarrow> length (vec (c_inputBuffer w)) + extrabuf_size \<le> vec_max"

text \<open>A read event ends in one of three branches, after the bytes were appended to the input buffer.\<close>

lemma handleRead_split:
  assumes K: "kernel_contract K interest" and inv: "conn_inv interest w" and up: "up w" and room: "in_room w"
  shows "\<exists>n w1. conn_inv interest w1 \<and> c_state w1 = c_state w \<and> handleRead K cbs t w =
    (if n > (0 :: int) then call_fun (map_option (\<lambda>f. f t) (messageCallback cbs)) w1
     else if n = 0 then handleClose K cbs w1 else Inr w1)"
proof -
  obtain ch where ch: "base_inv interest ch w" "isWriting ch \<longleftrightarrow> content (c_outputBuffer w) \<noteq> []"
    by (rule conn_inv_up [OF inv up])
  note B = base_invD [OF ch(1)]
  let ?rd = "\<lambda>lens. k_readv K (kern w) (ch_fd ch) lens"
  obtain b n en where b: "readFd (\<lambda>lens. snd (?rd lens)) (c_inputBuffer w) = Inr (b, n, en)" "buffer_inv b"
    using readFd_ok [OF B(2) kernel_contractD(4) [OF K]] room unfolding in_room_def by blast
  let ?w = "w\<lparr>kern := fst (?rd (iovecs (writableBytes (c_inputBuffer w)))), c_inputBuffer := b\<rparr>"
  have "reactor_inv interest ?w" by (rule reactor_inv_kern [OF B(1) kernel_contractD(5) [OF K]]) simp_all
  then have "base_inv interest ch ?w" using B(2-7) b(2) by (simp add: base_inv_def)
  moreover have u: "up ?w" using up by (simp add: up_def)
  ultimately have i: "conn_inv interest ?w" by (rule base_inv_up) (use ch(2) in simp)
  have "handleRead K cbs t w = (if n > 0 then call_fun (map_option (\<lambda>f. f t) (messageCallback cbs)) ?w
      else if n = 0 then handleClose K cbs ?w else Inr ?w)"
    using b(1) B(4) conn_invD(2) [OF inv] by (simp add: handleRead_def handleError_def assertInLoopThread_def deref_def Let_def)
  then show ?thesis using i by (intro exI [of _ n] exI [of _ ?w]) simp
qed

lemma handleRead_ok:
  assumes K: "kernel_contract K interest" and inv: "conn_inv interest w" and up: "up w" and cbs: "cbs_ok (conn_inv interest) cbs"
    and room: "in_room w"
  shows "\<exists>w'. handleRead K cbs t w = Inr w' \<and> conn_inv interest w'"
proof -
  obtain n w1 where r: "conn_inv interest w1" "c_state w1 = c_state w" "handleRead K cbs t w =
      (if n > (0 :: int) then call_fun (map_option (\<lambda>f. f t) (messageCallback cbs)) w1
       else if n = 0 then handleClose K cbs w1 else Inr w1)"
    using handleRead_split [OF K inv up room] by blast
  have "up w1" using up r(2) by (simp add: up_def)
  then show ?thesis using cbs_okD(2) [OF cbs r(1), of t] handleClose_ok [OF K r(1) _ cbs] r by auto
qed

lemma disableWriting_ok:
  assumes K: "kernel_contract K interest" and inv: "base_inv interest ch w"
  shows "\<exists>w' ch'. disableWriting (k_ctl K) (c_channel w) w = Inr w' \<and> base_inv interest ch' w' \<and> \<not> isWriting ch' \<and>
    same_conn w w' \<and> c_outputBuffer w' = c_outputBuffer w \<and> c_accepted w' = c_accepted w \<and>
    c_sent w' = c_sent w \<and> c_tasks w' = c_tasks w"
proof -
  note b = base_invD [OF inv]
  from switch_conn [OF K b(1,4) _ switches(4)] b(6) obtain k' ch' where
    k': "disableWriting (k_ctl K) (c_channel w) w = Inr (updated (c_channel w) (writing_off ch) k' w)"
      "reactor_inv interest (updated (c_channel w) (writing_off ch) k' w)"
      "heap (updated (c_channel w) (writing_off ch) k' w) (c_channel w) = Some ch'"
      "ch_events ch' = ch_events (writing_off ch)" "ch_index ch' \<noteq> kNew"
    by (auto simp: switch_defs)
  have "\<not> isWriting ch'" using mask_cong(1) [OF k'(4)] by simp
  moreover have "lib_mask (ch_events ch')" using k'(4) b(5) by simp
  ultimately show ?thesis using k' inv
    by (intro exI [of _ "updated (c_channel w) (writing_off ch) k' w"] exI [of _ ch']) (simp add: base_inv_def same_conn_def)
qed

definition taken :: "write_result \<Rightarrow> nat" where
  "taken r = (case r of Wrote n \<Rightarrow> n | WriteError _ \<Rightarrow> 0)"

lemma output_drained_ok:
  assumes K: "kernel_contract K interest" and inv: "base_inv interest ch w" and up: "up w" and dr: "content (c_outputBuffer w) = []"
  shows "\<exists>w'. bindR (disableWriting (k_ctl K) (c_channel w) w) (\<lambda>w3.
        let w4 = (if writeCompleteCallback cbs \<noteq> None then queue_task WriteComplete w3 else w3)
        in if c_state w4 = kDisconnecting then shutdownInLoop w4 else Inr w4) = Inr w' \<and> conn_inv interest w' \<and>
    c_state w' = c_state w \<and> c_sent w' = c_sent w \<and> c_outputBuffer w' = c_outputBuffer w \<and> c_accepted w' = c_accepted w \<and>
    c_shutdown w' = (c_shutdown w \<or> c_state w = kDisconnecting) \<and>
    c_tasks w' = c_tasks w @ (if writeCompleteCallback cbs \<noteq> None then [WriteComplete] else [])"
proof -
  obtain w3 ch3 where w3: "disableWriting (k_ctl K) (c_channel w) w = Inr w3" "base_inv interest ch3 w3"
      "\<not> isWriting ch3" "same_conn w w3" "c_outputBuffer w3 = c_outputBuffer w" "c_accepted w3 = c_accepted w"
      "c_sent w3 = c_sent w" "c_tasks w3 = c_tasks w"
    using disableWriting_ok [OF K inv] by blast
  have u3: "up w3" "c_state w3 = c_state w" "c_shutdown w3 = c_shutdown w" using w3(4) up by (simp_all add: same_conn_def up_def)
  have c3: "conn_inv interest w3" by (rule base_inv_up [OF w3(2) u3(1)]) (use w3(3,5) dr in simp)
  define w4 where "w4 = (if writeCompleteCallback cbs \<noteq> None then queue_task WriteComplete w3 else w3)"
  have c4: "conn_inv interest w4" "up w4" "c_state w4 = c_state w" "c_sent w4 = c_sent w" "c_outputBuffer w4 = c_outputBuffer w"
      "c_accepted w4 = c_accepted w" "c_shutdown w4 = c_shutdown w"
      "c_tasks w4 = c_tasks w @ (if writeCompleteCallback cbs \<noteq> None then [WriteComplete] else [])"
    using queue_task_inv [OF c3] c3 u3 w3(5-8) by (auto simp: w4_def queue_task_def up_def)
  obtain w5 where w5: "shutdownInLoop w4 = Inr w5" "conn_inv interest w5"
      "w5 = w4\<lparr>c_shutdown := c_shutdown w4 \<or> content (c_outputBuffer w4) = []\<rparr>"
    using shutdownInLoop_ok [OF c4(1,2)] by blast
  have "bindR (disableWriting (k_ctl K) (c_channel w) w) (\<lambda>w3.
        let w4 = (if writeCompleteCallback cbs \<noteq> None then queue_task WriteComplete w3 else w3)
        in if c_state w4 = kDisconnecting then shutdownInLoop w4 else Inr w4) = Inr (if c_state w = kDisconnecting then w5 else w4)"
    using w3(1) w5(1) c4(3) by (simp add: w4_def [symmetric] Let_def del: not_None_eq)
  then show ?thesis using c4 w5(2,3) dr by (cases "c_state w = kDisconnecting") auto
qed

text \<open>The answer of the kernel to the queued bytes, and what is done with it.\<close>

lemma handleWrite_reply:
  assumes K: "kernel_contract K interest" and inv: "conn_inv interest w" and up: "up w"
    and out: "content (c_outputBuffer w) = bs" "bs \<noteq> []"
    and ch: "heap w (c_channel w) = Some ch" and kr: "k_write K (kern w) (ch_fd ch) bs = (k', r)"
  shows "base_inv interest ch (w\<lparr>kern := k'\<rparr>)" "isWriting ch" "taken r \<le> length bs"
    "handleWrite K cbs w = (if taken r > 0
        then bindR (retrieve (taken r) (c_outputBuffer w)) (\<lambda>b.
             let w2 = w\<lparr>kern := k', c_outputBuffer := b, c_sent := c_sent w @ take (taken r) bs\<rparr>
             in if readableBytes b = 0
                then bindR (disableWriting (k_ctl K) (c_channel w2) w2) (\<lambda>w3.
                     let w4 = (if writeCompleteCallback cbs \<noteq> None then queue_task WriteComplete w3 else w3)
                     in if c_state w4 = kDisconnecting then shutdownInLoop w4 else Inr w4)
                else Inr w2)
        else Inr (w\<lparr>kern := k'\<rparr>))"
proof -
  obtain ch0 where ch0: "base_inv interest ch0 w" "isWriting ch0 \<longleftrightarrow> content (c_outputBuffer w) \<noteq> []"
    by (rule conn_inv_up [OF inv up])
  note B = base_invD [OF ch0(1)]
  have cc: "ch0 = ch" using B(4) ch by simp
  show wr: "isWriting ch" using ch0(2) out cc by simp
  show "taken r \<le> length bs"
    using kernel_contractD(3) [OF K, of "kern w" "ch_fd ch" bs] kr by (cases r) (auto simp: taken_def)
  have "reactor_inv interest (w\<lparr>kern := k'\<rparr>)"
    by (rule reactor_inv_kern [OF B(1), of k']) (use kernel_contractD(2) [OF K, of "kern w" "ch_fd ch" bs] kr in simp_all)
  then show "base_inv interest ch (w\<lparr>kern := k'\<rparr>)" using B(2-7) cc by (simp add: base_inv_def)
  have rd: "mem_read (peek (c_outputBuffer w)) (readableBytes (c_outputBuffer w)) (vec (c_outputBuffer w)) = Inr bs"
    using mem_read_all_content [OF B(3)] out(1) by (simp add: peek_def)
  show "handleWrite K cbs w = (if taken r > 0
        then bindR (retrieve (taken r) (c_outputBuffer w)) (\<lambda>b.
             let w2 = w\<lparr>kern := k', c_outputBuffer := b, c_sent := c_sent w @ take (taken r) bs\<rparr>
             in if readableBytes b = 0
                then bindR (disableWriting (k_ctl K) (c_channel w2) w2) (\<lambda>w3.
                     let w4 = (if writeCompleteCallback cbs \<noteq> None then queue_task WriteComplete w3 else w3)
                     in if c_state w4 = kDisconnecting then shutdownInLoop w4 else Inr w4)
                else Inr w2)
        else Inr (w\<lparr>kern := k'\<rparr>))"
    using conn_invD(2) [OF inv] wr ch rd kr
    by (cases r) (simp_all add: handleWrite_def assertInLoopThread_def deref_def Let_def taken_def)
qed

text \<open>What a write event does, in terms of the answer of the kernel to the bytes offered.\<close>

lemma handleWrite_ok:
  assumes K: "kernel_contract K interest" and inv: "conn_inv interest w" and up: "up w"
    and out: "content (c_outputBuffer w) = bs" "bs \<noteq> []"
    and ch: "heap w (c_channel w) = Some ch" and n: "taken (snd (k_write K (kern w) (ch_fd ch) bs)) = n"
  shows "\<exists>w'. handleWrite K cbs w = Inr w' \<and> conn_inv interest w' \<and> c_state w' = c_state w \<and>
    c_sent w' = c_sent w @ take n bs \<and> content (c_outputBuffer w') = drop n bs \<and> c_accepted w' = c_accepted w \<and>
    c_shutdown w' = (c_shutdown w \<or> length bs \<le> n \<and> c_state w = kDisconnecting) \<and>
    c_tasks w' = c_tasks w @ (if length bs \<le> n \<and> writeCompleteCallback cbs \<noteq> None then [WriteComplete] else [])"
proof -
  obtain k' r where kr: "k_write K (kern w) (ch_fd ch) bs = (k', r)" by (cases "k_write K (kern w) (ch_fd ch) bs")
  have tn: "taken r = n" using n kr by simp
  note H = handleWrite_reply [OF K inv up out ch kr, unfolded tn] and I = base_invD [OF handleWrite_reply(1) [OF K inv up out ch kr]]
  let ?w1 = "w\<lparr>kern := k'\<rparr>"
  show ?thesis
  proof (cases "n = 0")
    case True
    have "conn_inv interest ?w1" using base_inv_up [OF H(1)] H(2) out up by (simp add: up_def)
    then show ?thesis using H(4) [of cbs] True out by (intro exI [of _ ?w1]) simp
  next
    case False
    obtain b where b: "retrieve n (c_outputBuffer w) = Inr b" "buffer_inv b" "content b = drop n bs"
      using retrieve_ok [of "c_outputBuffer w" n] I(3) H(3) out(1) by auto
    let ?w2 = "w\<lparr>kern := k', c_outputBuffer := b, c_sent := c_sent w @ take n bs\<rparr>"
    have r2: "reactor_inv interest ?w2" by (rule reactor_inv_same [OF I(1)]) simp_all
    have "(c_sent w @ take n bs) @ drop n bs = c_accepted w" using I(7) out(1) by simp
    with r2 have i2: "base_inv interest ch ?w2" using H(1) b by (simp add: base_inv_def)
    have u2: "up ?w2" using up by (simp add: up_def)
    show ?thesis
    proof (cases "readableBytes b = 0")
      case ne: False
      then have dr: "drop n bs \<noteq> []" using readable_zero [OF b(2)] b(3) by simp
      have "conn_inv interest ?w2" by (rule base_inv_up [OF i2 u2]) (use H(2) b(3) dr in simp)
      moreover have "handleWrite K cbs w = Inr ?w2" using H(4) [of cbs] False b(1) ne by (simp add: Let_def)
      ultimately show ?thesis using b(3) dr by (intro exI [of _ ?w2]) simp
    next
      case True
      then have dr: "drop n bs = []" using readable_zero [OF b(2)] b(3) by simp
      from output_drained_ok [OF K i2 u2, of cbs] b(3) dr obtain w' where
        w': "bindR (disableWriting (k_ctl K) (c_channel ?w2) ?w2) (\<lambda>w3.
            let w4 = (if writeCompleteCallback cbs \<noteq> None then queue_task WriteComplete w3 else w3)
            in if c_state w4 = kDisconnecting then shutdownInLoop w4 else Inr w4) = Inr w'" "conn_inv interest w'"
          "c_state w' = c_state w" "c_sent w' = c_sent w @ take n bs" "c_outputBuffer w' = b" "c_accepted w' = c_accepted w"
          "c_shutdown w' = (c_shutdown w \<or> c_state w = kDisconnecting)"
          "c_tasks w' = c_tasks w @ (if writeCompleteCallback cbs \<noteq> None then [WriteComplete] else [])"
        by auto
      have "handleWrite K cbs w = Inr w'" using H(4) [of cbs] False b(1) True w'(1) by simp
      then show ?thesis using w' b(3) dr H(3) by (intro exI [of _ w']) simp
    qed
  qed
qed

subsection \<open>Starting and ending\<close>

lemma enableReading_conn:
  assumes K: "kernel_contract K interest" and r: "reactor_inv interest w" and h: "heap w p = Some ch" and m: "lib_mask (ch_events ch)"
    and free: "ch_index ch = kNew \<Longrightarrow> channels w (ch_fd ch) = None"
  shows "\<exists>k' ch'. enableReading (k_ctl K) p w = Inr (updated p (reading_on ch) k' w) \<and>
    reactor_inv interest (updated p (reading_on ch) k' w) \<and> heap (updated p (reading_on ch) k' w) p = Some ch' \<and>
    isReading ch' \<and> isWriting ch' = isWriting ch \<and> lib_mask (ch_events ch') \<and> ch_index ch' \<noteq> kNew"
proof -
  from switch_conn [OF K r h free switches(1)] obtain k' ch' where
    k': "enableReading (k_ctl K) p w = Inr (updated p (reading_on ch) k' w)"
      "reactor_inv interest (updated p (reading_on ch) k' w)"
      "heap (updated p (reading_on ch) k' w) p = Some ch'"
      "ch_events ch' = ch_events (reading_on ch)" "ch_index ch' \<noteq> kNew"
    by (auto simp: switch_defs)
  have "isReading ch'" "isWriting ch' = isWriting ch" "lib_mask (ch_events ch')"
    using mask_cong [OF k'(4)] k'(4) m by simp_all
  with k' show ?thesis by blast
qed

lemma connectEstablished_ok:
  assumes K: "kernel_contract K interest" and inv: "conn_inv interest w" and st: "c_state w = kConnecting"
    and cbs: "cbs_ok (conn_inv interest) cbs"
  shows "\<exists>w' w1 ch. connectEstablished K cbs w = Inr w' \<and> conn_inv interest w' \<and>
    call_fun (connectionCallback cbs) w1 = Inr w' \<and> conn_inv interest w1 \<and> c_state w1 = kConnected \<and>
    heap w1 (c_channel w1) = Some ch \<and> isReading ch \<and> c_reading w1 = c_reading w"
proof -
  obtain ch where ch: "heap w (c_channel w) = Some ch" "lib_mask (ch_events ch)"
      "ch_index ch = kNew" "channels w (ch_fd ch) = None" "content (c_outputBuffer w) = []"
    using conn_inv_chan [OF inv] st by (auto simp: chan_state_ok_def)
  note D = conn_invD [OF inv]
  let ?w = "set_chan (c_channel w) (tie 0 ch) (setState kConnected w)"
  have none: "isNoneEvent ch" using reactor_invD(2) [OF D(1) ch(1)] ch(3) by (auto simp: chan_inv_def index_defs)
  have tie_ev: "ch_events (tie 0 ch) = ch_events ch" "ch_index (tie 0 ch) = ch_index ch" "ch_fd (tie 0 ch) = ch_fd ch"
    "ch_addedToLoop (tie 0 ch) = ch_addedToLoop ch" by (simp_all add: tie_def)
  have r: "reactor_inv interest ?w"
  proof -
    note invD = reactor_invD [OF D(1)]
    have "watched ?w = watched w" using ch(1) tie_ev
      by (auto simp: watched_def setState_def set_chan_def fun_eq_iff split: option.splits)
    moreover have "chan_inv ?w q d" if "heap ?w q = Some d" for q d
      using that invD(2) [of q] invD(2) [OF ch(1)] tie_ev mask_cong(3) [OF tie_ev(1)]
      by (auto simp: chan_inv_def setState_def set_chan_def split: if_splits)
    moreover have "\<exists>d. heap ?w q = Some d \<and> ch_fd d = fd" if "channels ?w fd = Some q" for fd q
      using that invD(3) [of fd q] ch(1) tie_ev by (auto simp: setState_def set_chan_def)
    ultimately show ?thesis using invD(1,4) by (simp add: reactor_inv_def) (simp add: setState_def set_chan_def)
  qed
  have h: "heap ?w (c_channel w) = Some (tie 0 ch)" "lib_mask (ch_events (tie 0 ch))" using ch(2) tie_ev by simp_all
  have fr: "ch_index (tie 0 ch) = kNew \<Longrightarrow> channels ?w (ch_fd (tie 0 ch)) = None"
    using ch(4) tie_ev by (simp add: setState_def set_chan_def)
  from enableReading_conn [OF K r h fr] obtain k' ch' where
    k': "enableReading (k_ctl K) (c_channel w) ?w = Inr (updated (c_channel w) (reading_on (tie 0 ch)) k' ?w)"
      "reactor_inv interest (updated (c_channel w) (reading_on (tie 0 ch)) k' ?w)"
      "heap (updated (c_channel w) (reading_on (tie 0 ch)) k' ?w) (c_channel w) = Some ch'"
      "isReading ch'" "isWriting ch' = isWriting (tie 0 ch)" "lib_mask (ch_events ch')" "ch_index ch' \<noteq> kNew" by blast
  let ?w1 = "updated (c_channel w) (reading_on (tie 0 ch)) k' ?w"
  have f: "c_state ?w1 = kConnected" "c_channel ?w1 = c_channel w" "c_inputBuffer ?w1 = c_inputBuffer w"
    "c_outputBuffer ?w1 = c_outputBuffer w" "c_sent ?w1 = c_sent w" "c_accepted ?w1 = c_accepted w" "c_reading ?w1 = c_reading w"
    by (simp_all add: setState_def set_chan_def)
  have nw: "\<not> isWriting ch'" using k'(5) none mask_cong(1) [OF tie_ev(1)] by (simp add: isNoneEvent_def isWriting_def kNoneEvent_def)
  have "base_inv interest ch' ?w1" using k' D f by (simp add: base_inv_def)
  then have i1: "conn_inv interest ?w1" by (rule base_inv_up) (use f nw ch(5) in \<open>simp_all add: up_def\<close>)
  obtain w' where w': "call_fun (connectionCallback cbs) ?w1 = Inr w'" "conn_inv interest w'"
    using cbs_okD(1) [OF cbs i1] by blast
  have "connectEstablished K cbs w = Inr w'"
    using D(2) st ch(1) k'(1) w'(1)
    by (simp add: connectEstablished_def assertInLoopThread_def deref_def setState_def)
  then show ?thesis using w' i1 f k'(3,4) by (intro exI [of _ w'] exI [of _ ?w1] exI [of _ ch']) simp
qed

lemma read_switch_ok:
  assumes K: "kernel_contract K interest" and inv: "conn_inv interest w" and up: "up w"
    and f: "switch f" "\<And>c. isWriting (f c) = isWriting c" "\<And>c. lib_mask (ch_events c) \<Longrightarrow> lib_mask (ch_events (f c))"
  shows "\<exists>w'. deref (c_channel w) w (\<lambda>c. chan_update (k_ctl K) (c_channel w) (set_chan (c_channel w) (f c) w)) = Inr w' \<and>
    conn_inv interest (w'\<lparr>c_reading := b\<rparr>)"
proof -
  obtain ch where ch: "base_inv interest ch w" "isWriting ch \<longleftrightarrow> content (c_outputBuffer w) \<noteq> []"
    by (rule conn_inv_up [OF inv up])
  note B = base_invD [OF ch(1)]
  from switch_conn [OF K B(1,4) _ f(1)] B(6) obtain k' ch' where
    k': "deref (c_channel w) w (\<lambda>c. chan_update (k_ctl K) (c_channel w) (set_chan (c_channel w) (f c) w)) =
        Inr (updated (c_channel w) (f ch) k' w)"
      "reactor_inv interest (updated (c_channel w) (f ch) k' w)"
      "heap (updated (c_channel w) (f ch) k' w) (c_channel w) = Some ch'"
      "ch_events ch' = ch_events (f ch)" "ch_index ch' \<noteq> kNew" by blast
  have "isWriting ch' = isWriting ch" "lib_mask (ch_events ch')" using mask_cong(1) [OF k'(4)] f(2,3) k'(4) B(5) by simp_all
  then have "conn_inv interest (updated (c_channel w) (f ch) k' w)"
    using k' B ch(2) up by (intro base_inv_up [of _ ch']) (simp_all add: base_inv_def up_def)
  then have "conn_inv interest ((updated (c_channel w) (f ch) k' w)\<lparr>c_reading := b\<rparr>)"
    by (rule conn_inv_same) simp_all
  with k'(1) show ?thesis by blast
qed

lemma startReadInLoop_ok:
  assumes "kernel_contract K interest" "conn_inv interest w" "up w"
  shows "\<exists>w'. startReadInLoop K w = Inr w' \<and> conn_inv interest w'"
proof -
  obtain ch where ch: "heap w (c_channel w) = Some ch" by (rule conn_inv_chan [OF assms(2)])
  obtain w' where w': "enableReading (k_ctl K) (c_channel w) w = Inr w'" "conn_inv interest (w'\<lparr>c_reading := True\<rparr>)"
    using read_switch_ok [OF assms switches(1) switch_flags(2) switch_mask(1), of True] unfolding enableReading_def by blast
  have "startReadInLoop K w = (if \<not> c_reading w \<or> \<not> isReading ch then Inr (w'\<lparr>c_reading := True\<rparr>) else Inr w)"
    using ch w'(1) conn_invD(2) [OF assms(2)] by (simp add: startReadInLoop_def assertInLoopThread_def deref_def)
  then show ?thesis using w'(2) assms(2) by (cases "\<not> c_reading w \<or> \<not> isReading ch") simp_all
qed

lemma stopReadInLoop_ok:
  assumes "kernel_contract K interest" "conn_inv interest w" "up w"
  shows "\<exists>w'. stopReadInLoop K w = Inr w' \<and> conn_inv interest w'"
proof -
  obtain ch where ch: "heap w (c_channel w) = Some ch" by (rule conn_inv_chan [OF assms(2)])
  obtain w' where w': "disableReading (k_ctl K) (c_channel w) w = Inr w'" "conn_inv interest (w'\<lparr>c_reading := False\<rparr>)"
    using read_switch_ok [OF assms switches(2) switch_flags(4) switch_mask(2), of False] unfolding disableReading_def by blast
  have "stopReadInLoop K w = (if c_reading w \<or> isReading ch then Inr (w'\<lparr>c_reading := False\<rparr>) else Inr w)"
    using ch w'(1) conn_invD(2) [OF assms(2)] by (simp add: stopReadInLoop_def assertInLoopThread_def deref_def)
  then show ?thesis using w'(2) assms(2) by (cases "c_reading w \<or> isReading ch") simp_all
qed

text \<open>A closed connection whose channel is still registered can be destroyed when its loop may remove the channel.\<close>

definition destroyable :: "('k, 'z) conn \<Rightarrow> bool" where
  "destroyable w \<longleftrightarrow> c_state w = kDisconnected \<and>
     (case heap w (c_channel w) of None \<Rightarrow> False | Some ch \<Rightarrow> ch_index ch \<noteq> kNew) \<and>
     (eventHandling w \<longrightarrow> currentActiveChannel w = Some (c_channel w) \<or> c_channel w \<notin> set (activeChannels w))"

lemma connectDestroyed_removes:
  assumes K: "kernel_contract K interest" and inv: "conn_inv interest w" and d: "destroyable w"
  shows "\<exists>k ch. heap w (c_channel w) = Some ch \<and> connectDestroyed K cbs w = Inr (removed (c_channel w) ch k w) \<and>
    reactor_inv interest (removed (c_channel w) ch k w)"
proof -
  obtain ch where ch: "heap w (c_channel w) = Some ch" "lib_mask (ch_events ch)" "isNoneEvent ch"
    using conn_inv_chan [OF inv] d by (auto simp: chan_state_ok_def destroyable_def)
  note D = conn_invD [OF inv]
  from chan_remove_ok [OF kernel_contractD(1) [OF K] D(1) ch(1) _ ch(3)] d ch(1) obtain k' where
    k': "chan_remove (k_ctl K) (c_channel w) w = Inr (removed (c_channel w) ch k' w)"
      "reactor_inv interest (removed (c_channel w) ch k' w)"
    by (auto simp: destroyable_def split: option.splits)
  then show ?thesis using ch(1) D(2) d
    by (intro exI [of _ k'] exI [of _ ch]) (simp add: connectDestroyed_def assertInLoopThread_def destroyable_def)
qed

lemma connectDestroyed_ok:
  assumes K: "kernel_contract K interest" and inv: "conn_inv interest w" and d: "destroyable w"
  shows "\<exists>w' ch. connectDestroyed K cbs w = Inr w' \<and> conn_inv interest w' \<and> c_state w' = kDisconnected \<and>
    heap w' (c_channel w') = Some ch \<and> ch_index ch = kNew \<and> interest (kern w') (ch_fd ch) = None"
proof -
  obtain ch where ch: "heap w (c_channel w) = Some ch" "lib_mask (ch_events ch)" "isNoneEvent ch"
    using conn_inv_chan [OF inv] d by (auto simp: chan_state_ok_def destroyable_def)
  note D = conn_invD [OF inv]
  obtain k' where k': "connectDestroyed K cbs w = Inr (removed (c_channel w) ch k' w)"
      "reactor_inv interest (removed (c_channel w) ch k' w)"
    using connectDestroyed_removes [OF K inv d, of cbs] ch(1) by auto
  let ?w = "removed (c_channel w) ch k' w" and ?ch = "ch\<lparr>ch_addedToLoop := False, ch_index := kNew\<rparr>"
  have f: "c_state ?w = c_state w" "c_channel ?w = c_channel w" "c_inputBuffer ?w = c_inputBuffer w"
    "c_outputBuffer ?w = c_outputBuffer w" "c_sent ?w = c_sent w" "c_accepted ?w = c_accepted w"
    "heap ?w (c_channel w) = Some ?ch" "channels ?w (ch_fd ch) = None" by (simp_all add: removed_def)
  have "isNoneEvent ?ch" "lib_mask (ch_events ?ch)" using ch(2,3) by (simp_all add: isNoneEvent_def)
  then have i: "conn_inv interest ?w"
    using k'(2) D f d by (intro conn_invI [of _ _ ?ch]) (simp_all add: chan_state_ok_def destroyable_def)
  have "interest (kern ?w) (ch_fd ch) = None" using reactor_invD(4) [OF k'(2)] f(8) by (simp add: watched_def)
  with k'(1) show ?thesis using i f d by (intro exI [of _ ?w] exI [of _ ?ch]) (simp add: destroyable_def)
qed

section \<open>Sequences of operations\<close>

datatype conn_cmd =
    Establish | Send string | Shutdown | ForceClose | StartRead | StopRead
  | ReadEvent timestamp | WriteEvent | CloseEvent | ErrorEvent | RunTask

text \<open>The operations of a user in the loop thread, the events of the poller, and the next queued functor.\<close>

fun conn_exec ::
  "'k kernel \<Rightarrow> ('k, 'z) conn conn_callbacks \<Rightarrow> conn_cmd \<Rightarrow> ('k, 'z) conn \<Rightarrow> ('k, 'z) conn result" where
  "conn_exec K cbs Establish w = connectEstablished K cbs w"
| "conn_exec K cbs (Send m) w = send K cbs m w"
| "conn_exec K cbs Shutdown w = shutdown w"
| "conn_exec K cbs ForceClose w = forceClose w"
| "conn_exec K cbs StartRead w = startRead K w"
| "conn_exec K cbs StopRead w = stopRead K w"
| "conn_exec K cbs (ReadEvent t) w = handleRead K cbs t w"
| "conn_exec K cbs WriteEvent w = handleWrite K cbs w"
| "conn_exec K cbs CloseEvent w = handleClose K cbs w"
| "conn_exec K cbs ErrorEvent w = handleError w"
| "conn_exec K cbs RunTask w =
     (case c_tasks w of [] \<Rightarrow> Inr w | t # ts \<Rightarrow> run_task K cbs t (w\<lparr>c_tasks := ts\<rparr>))"

fun task_ok :: "('k, 'z) conn conn_callbacks \<Rightarrow> conn_task \<Rightarrow> ('k, 'z) conn \<Rightarrow> bool" where
  "task_ok cbs (SendInLoop m) w = (disconnected w \<or> up w \<and> out_room m w)"
| "task_ok cbs ShutdownInLoop w = up w"
| "task_ok cbs StartReadInLoop w = up w"
| "task_ok cbs StopReadInLoop w = up w"
| "task_ok cbs ConnectDestroyed w = destroyable w"
| "task_ok cbs WriteComplete w = (writeCompleteCallback cbs \<noteq> None)"
| "task_ok cbs (HighWaterMark n) w = (highWaterMarkCallback cbs \<noteq> None)"
| "task_ok cbs ForceCloseInLoop w = True"
| "task_ok cbs ForceCloseLater w = True"

text \<open>
  What the callers respect: a connection is established once; events arrive only while it is up (afterwards its
  channel is not registered); reading is switched only while it is up; and there is memory for the buffers.
\<close>

fun conn_ok :: "('k, 'z) conn conn_callbacks \<Rightarrow> conn_cmd \<Rightarrow> ('k, 'z) conn \<Rightarrow> bool" where
  "conn_ok cbs Establish w = (c_state w = kConnecting)"
| "conn_ok cbs (Send m) w = (connected w \<longrightarrow> out_room m w)"
| "conn_ok cbs StartRead w = up w"
| "conn_ok cbs StopRead w = up w"
| "conn_ok cbs (ReadEvent t) w = (up w \<and> in_room w)"
| "conn_ok cbs WriteEvent w = up w"
| "conn_ok cbs CloseEvent w = up w"
| "conn_ok cbs RunTask w = (case c_tasks w of [] \<Rightarrow> True | t # ts \<Rightarrow> task_ok cbs t w)"
| "conn_ok cbs Shutdown w = True"
| "conn_ok cbs ForceClose w = True"
| "conn_ok cbs ErrorEvent w = True"

lemma handleWrite_safe:
  assumes K: "kernel_contract K interest" and inv: "conn_inv interest w" and up: "up w"
  shows "\<exists>w'. handleWrite K cbs w = Inr w' \<and> conn_inv interest w'"
proof -
  obtain ch where ch: "base_inv interest ch w" "isWriting ch \<longleftrightarrow> content (c_outputBuffer w) \<noteq> []"
    by (rule conn_inv_up [OF inv up])
  note h = base_invD(4) [OF ch(1)]
  show ?thesis
  proof (cases "content (c_outputBuffer w) = []")
    case True
    then show ?thesis using ch(2) h inv conn_invD(2) [OF inv]
      by (simp add: handleWrite_def assertInLoopThread_def deref_def)
  next
    case False
    from handleWrite_ok [OF K inv up refl False h refl, of cbs] show ?thesis by blast
  qed
qed

lemma forceClose_ok: "conn_inv interest w \<Longrightarrow> \<exists>w'. forceClose w = Inr w' \<and> conn_inv interest w'"
  using disconnecting_inv [of interest w] queue_task_inv by (auto simp: forceClose_def up_def)

lemma run_task_ok:
  assumes K: "kernel_contract K interest" and cbs: "cbs_ok (conn_inv interest) cbs" and inv: "conn_inv interest w"
    and ok: "task_ok cbs t w"
  shows "\<exists>w'. run_task K cbs t w = Inr w' \<and> conn_inv interest w'"
proof (cases t)
  case WriteComplete
  then show ?thesis using ok cbs inv by (auto simp: run_task_def cbs_ok_def cb_keeps_def call_fun_def)
next
  case (HighWaterMark n)
  then show ?thesis using ok cbs inv by (auto simp: run_task_def cbs_ok_def cb_keeps_def call_fun_def)
next
  case (SendInLoop m)
  then show ?thesis using ok inv conn_invD(2) [OF inv] sendInLoop_ok [OF K inv, of m cbs]
    by (auto simp: run_task_def disconnected_def sendInLoop_def assertInLoopThread_def)
next
  case ShutdownInLoop
  then show ?thesis using ok shutdownInLoop_ok [OF inv] by (auto simp: run_task_def)
next
  case ForceCloseInLoop
  then show ?thesis using handleClose_ok [OF K inv _ cbs] inv conn_invD(2) [OF inv]
    by (auto simp: run_task_def forceCloseInLoop_def assertInLoopThread_def up_def)
next
  case ForceCloseLater
  then show ?thesis using forceClose_ok [OF inv] by (simp add: run_task_def)
next
  case StartReadInLoop
  then show ?thesis using ok startReadInLoop_ok [OF K inv] by (simp add: run_task_def)
next
  case StopReadInLoop
  then show ?thesis using ok stopReadInLoop_ok [OF K inv] by (simp add: run_task_def)
next
  case ConnectDestroyed
  then show ?thesis using ok connectDestroyed_ok [OF K inv, of cbs] by (auto simp: run_task_def)
qed

interpretation tcp_conn: safe_commands "conn_exec K cbs"
  "\<lambda>w. kernel_contract K interest \<and> cbs_ok (conn_inv interest) cbs \<and> conn_inv interest w" "conn_ok cbs"
  for K cbs interest
proof
  fix w c
  assume "kernel_contract K interest \<and> cbs_ok (conn_inv interest) cbs \<and> conn_inv interest w" and ok: "conn_ok cbs c w"
  then have K: "kernel_contract K interest" and cbs: "cbs_ok (conn_inv interest) cbs" and inv: "conn_inv interest w" by auto
  have "\<exists>w'. conn_exec K cbs c w = Inr w' \<and> conn_inv interest w'"
  proof (cases c)
    case Establish
    then show ?thesis using ok connectEstablished_ok [OF K inv _ cbs] by auto
  next
    case (Send m)
    then show ?thesis using ok inv sendInLoop_ok [OF K inv, of m cbs] conn_invD(2) [OF inv]
      by (auto simp: send_def connected_def up_def)
  next
    case RunTask
    show ?thesis
    proof (cases "c_tasks w")
      case (Cons t ts)
      have i: "conn_inv interest (w\<lparr>c_tasks := ts\<rparr>)" by (rule conn_inv_same [OF inv]) simp_all
      have "task_ok cbs t (w\<lparr>c_tasks := ts\<rparr>)" using ok RunTask Cons
        by (cases t) (auto simp: disconnected_def up_def out_room_def destroyable_def)
      from run_task_ok [OF K cbs i this] show ?thesis using RunTask Cons by simp
    qed (use inv RunTask in simp)
  qed (use ok inv shutdown_ok [OF inv] forceClose_ok [OF inv] startReadInLoop_ok [OF K inv] stopReadInLoop_ok [OF K inv]
      handleRead_ok [OF K inv _ cbs] handleWrite_safe [OF K inv] handleClose_ok [OF K inv _ cbs] conn_invD(2) [OF inv]
      in \<open>auto simp: startRead_def stopRead_def handleError_def\<close>)
  with K cbs show "\<exists>w'. conn_exec K cbs c w = Inr w' \<and> kernel_contract K interest \<and>
      cbs_ok (conn_inv interest) cbs \<and> conn_inv interest w'" by blast
qed

section \<open>Properties of connections\<close>

lemma TCPConnection_ok:
  assumes "reactor_inv interest w" "heap w p = None" "channels w fd = None"
  shows "\<exists>w'. TCPConnection p fd w = Inr w' \<and> conn_inv interest w' \<and> c_state w' = kConnecting \<and> c_channel w' = p \<and>
    heap w' p = Some (Channel fd) \<and> \<not> c_reading w' \<and> c_sent w' = [] \<and> c_accepted w' = [] \<and> c_tasks w' = []"
proof -
  obtain b where b: "Buffer kInitialSize = Inr b" "buffer_inv b" "content b = []"
    using Buffer_ok [of kInitialSize] by (auto simp: kInitialSize_def vec_max_def)
  let ?w = "(set_chan p (Channel fd) w)\<lparr>c_state := kConnecting, c_reading := False, c_channel := p, c_inputBuffer := b,
    c_outputBuffer := b, c_highWaterMark := 64 * 1024 * 1024, c_tasks := [], c_shutdown := False, c_sent := [], c_accepted := []\<rparr>"
  have t: "TCPConnection p fd w = Inr ?w" using b(1) by (simp add: TCPConnection_def new_channel_def)
  have r: "reactor_inv interest ?w"
    by (rule reactor_inv_same [OF new_channel_inv [OF assms(1,2)]]) simp_all
  have "conn_inv interest ?w"
    by (rule conn_invI [OF r, of "Channel fd"])
      (use b assms(3) in \<open>simp_all add: Channel_def lib_mask_def chan_state_ok_def index_defs\<close>)
  with t show ?thesis by (intro exI [of _ ?w]) simp
qed

text \<open>A kernel for the examples: it takes all bytes it is offered, and every read finds the same message.\<close>

definition echo_kernel :: "(int \<Rightarrow> epoll_event option) kernel" where
  "echo_kernel = \<lparr>k_ctl = map_ctl, k_write = (\<lambda>k fd bs. (k, Wrote (length bs))),
     k_readv = (\<lambda>k fd lens. (k, IoData (take (sum_list lens) ''ping'')))\<rparr>"

lemma echo_kernel_contract: "kernel_contract echo_kernel (\<lambda>k. k)"
  using map_ctl_contract by (auto simp: kernel_contract_def echo_kernel_def readv_contract_def)

definition idle_callbacks :: "'w conn_callbacks" where
  "idle_callbacks = \<lparr>connectionCallback = Some Inr, messageCallback = Some (\<lambda>t. Inr), writeCompleteCallback = None,
     highWaterMarkCallback = None, conn_closeCallback = Some Inr\<rparr>"

lemma idle_callbacks_ok: "cbs_ok I idle_callbacks"
  by (auto simp: cbs_ok_def idle_callbacks_def cb_keeps_def)

definition blank_tcp :: "'z \<Rightarrow> (int \<Rightarrow> epoll_event option, 'z) conn" where
  "blank_tcp m = \<lparr>heap = Map.empty, channels = Map.empty, events_size = 16, kern = Map.empty, inLoopThread = True,
     eventHandling = False, activeChannels = [], currentActiveChannel = None,
     c_state = kDisconnected, c_reading = False, c_channel = 0,
     c_inputBuffer = \<lparr>vec = [], readerIndex = 0, writerIndex = 0\<rparr>, c_outputBuffer = \<lparr>vec = [], readerIndex = 0, writerIndex = 0\<rparr>,
     c_highWaterMark = 0, c_tasks = [], c_shutdown = False, c_sent = [], c_accepted = [], \<dots> = m\<rparr>"

abbreviation blank_conn :: "(int \<Rightarrow> epoll_event option) tcp" where
  "blank_conn \<equiv> blank_tcp ()"

lemma blank_conn_inv: "reactor_inv (\<lambda>k. k) (blank_tcp m)"
  by (auto simp: reactor_inv_def blank_tcp_def watched_def)

text \<open>A connection for the examples: its channel 1 for the socket 5 watches \<open>ev\<close>, and \<open>out\<close> is queued.\<close>

definition sample_tcp :: "'z \<Rightarrow> conn_state \<Rightarrow> events \<Rightarrow> byte list \<Rightarrow> (int \<Rightarrow> epoll_event option, 'z) conn" where
  "sample_tcp m s ev out = (blank_tcp m)\<lparr>heap := [1 \<mapsto> (Channel 5)\<lparr>ch_events := ev, ch_index := (if ev = 0 then kDeleted else kAdded),
       ch_addedToLoop := True\<rparr>], channels := [5 \<mapsto> 1], kern := (if ev = 0 then Map.empty else [5 \<mapsto> (ev, 1)]),
     c_state := s, c_channel := 1, c_inputBuffer := \<lparr>vec = replicate 8 (CHR 0x00), readerIndex = 8, writerIndex = 8\<rparr>,
     c_outputBuffer := \<lparr>vec = replicate 8 (CHR 0x00) @ out, readerIndex = 8, writerIndex = 8 + length out\<rparr>,
     c_highWaterMark := 4, c_accepted := out\<rparr>"

abbreviation sample_conn :: "conn_state \<Rightarrow> events \<Rightarrow> byte list \<Rightarrow> (int \<Rightarrow> epoll_event option) tcp" where
  "sample_conn \<equiv> sample_tcp ()"

lemma sample_conn_inv:
  assumes "lib_mask ev" "length out \<le> 100" "chan_state_ok s out (sample_tcp m s ev out) ((Channel 5)\<lparr>ch_events := ev,
    ch_index := (if ev = 0 then kDeleted else kAdded), ch_addedToLoop := True\<rparr>)"
  shows "conn_inv (\<lambda>k. k) (sample_tcp m s ev out)"
proof -
  let ?w = "sample_tcp m s ev out"
  have "watched ?w = kern ?w"
    by (auto simp: watched_def sample_tcp_def Channel_def index_defs fun_eq_iff)
  then have "reactor_inv (\<lambda>k. k) ?w"
    by (auto simp: reactor_inv_def chan_inv_def sample_tcp_def blank_tcp_def Channel_def index_defs isNoneEvent_def
        kNoneEvent_def split: if_splits)
  then show ?thesis
    by (rule conn_invI) (use assms in \<open>simp_all add: sample_tcp_def blank_tcp_def buffer_inv_def content_def
      kCheapPrepend_def vec_max_def\<close>)
qed

lemma sample_conn_simps:
  "c_state (sample_tcp m s ev out) = s" "content (c_outputBuffer (sample_tcp m s ev out)) = out"
  "c_accepted (sample_tcp m s ev out) = out" "c_shutdown (sample_tcp m s ev out) = False" "c_tasks (sample_tcp m s ev out) = []"
  "c_highWaterMark (sample_tcp m s ev out) = 4" "up (sample_tcp m s ev out) = (s = kConnected \<or> s = kDisconnecting)"
  "out_room msg (sample_tcp m s ev out) = (8 + length out + length msg \<le> vec_max)"
  by (auto simp: sample_tcp_def blank_tcp_def content_def up_def out_room_def used_bytes_def kCheapPrepend_def)

text \<open>Reading connections, with and without output.\<close>

lemma sample_reading_inv: "s = kConnected \<or> s = kDisconnecting \<Longrightarrow> conn_inv (\<lambda>k. k) (sample_tcp m s kReadEvent [])"
  by (rule sample_conn_inv)
    (auto simp: lib_mask_def chan_state_ok_def isWriting_def kReadEvent_def kWriteEvent_def poll_bits index_defs)

lemma sample_writing_inv:
  "s = kConnected \<or> s = kDisconnecting \<Longrightarrow> conn_inv (\<lambda>k. k) (sample_tcp m s (kReadEvent OR kWriteEvent) ''abc'')"
  by (rule sample_conn_inv)
    (auto simp: lib_mask_def chan_state_ok_def isWriting_def kReadEvent_def kWriteEvent_def poll_bits index_defs)

lemma sample_closed_inv: "conn_inv (\<lambda>k. k) (sample_tcp m kDisconnected 0 [])"
  by (rule sample_conn_inv)
    (auto simp: lib_mask_def chan_state_ok_def isNoneEvent_def kNoneEvent_def)



text \<open>A message is taken whole or not at all: on a connection that is up, \<^verbatim>\<open>sendInLoop\<close> succeeds, and the connection
  takes charge of the whole message, unless nothing was queued and the kernel answers its
  write with \<^verbatim>\<open>EPIPE\<close> or \<^verbatim>\<open>ECONNRESET\<close>.\<close>

theorem send_all_or_nothing:
  assumes "kernel_contract K interest" "conn_inv interest w" "up w" "out_room message w"
  shows "\<exists>w'. sendInLoop K cbs message w = Inr w' \<and> conn_inv interest w' \<and> c_state w' = c_state w \<and>
    (c_accepted w' = c_accepted w @ message \<or> c_accepted w' = c_accepted w \<and> peer_gone K message w)"
  using sendInLoop_ok [OF assms, of cbs] by (auto simp: same_conn_def)

theorem send_all_or_nothing_witness:
  "\<exists>w'. sendInLoop echo_kernel idle_callbacks ''hello'' (sample_conn kConnected kReadEvent []) = Inr w' \<and>
    c_state w' = kConnected"
  using send_all_or_nothing [OF echo_kernel_contract sample_reading_inv [where m = "()" and s = kConnected], of "''hello''" idle_callbacks]
  by (auto simp: sample_conn_simps vec_max_def)

lemma established_ok:
  assumes K: "kernel_contract K interest" and w: "reactor_inv interest w" "heap w p = None" "channels w fd = None"
    and w0: "TCPConnection p fd w = Inr w0" and cb: "connectionCallback cbs = Some Inr"
  shows "\<exists>w' ch. connectEstablished K cbs w0 = Inr w' \<and> conn_inv interest w' \<and> c_state w' = kConnected \<and>
    heap w' (c_channel w') = Some ch \<and> isReading ch \<and> \<not> c_reading w'"
proof -
  have 0: "conn_inv interest w0" "c_state w0 = kConnecting" "\<not> c_reading w0"
    using TCPConnection_ok [OF w] w0 by auto
  have e: "connectEstablished K cbs w0 = connectEstablished K idle_callbacks w0"
    by (simp add: connectEstablished_def cb idle_callbacks_def)
  from connectEstablished_ok [OF K 0(1,2) idle_callbacks_ok] obtain w' w1 ch where
    "connectEstablished K idle_callbacks w0 = Inr w'" "conn_inv interest w'"
    "call_fun (connectionCallback idle_callbacks) w1 = Inr w'" "c_state w1 = kConnected"
    "heap w1 (c_channel w1) = Some ch" "isReading ch" "c_reading w1 = c_reading w0" by blast
  then show ?thesis using e 0(3) by (auto simp: idle_callbacks_def call_fun_def)
qed

lemma handleWrite_idle:
  assumes "conn_inv interest w" "up w" "content (c_outputBuffer w) = []"
  shows "handleWrite K cbs w = Inr w"
proof -
  obtain ch where ch: "base_inv interest ch w" "isWriting ch \<longleftrightarrow> content (c_outputBuffer w) \<noteq> []"
    by (rule conn_inv_up [OF assms(1,2)])
  then show ?thesis using base_invD(4) [OF ch(1)] conn_invD(2) [OF assms(1)] assms(3)
    by (simp add: handleWrite_def assertInLoopThread_def deref_def)
qed

text \<open>C15. Queued output drains: if every write event finds room for at least one byte, then after at most as many write
  events as there are bytes queued all of them have been given to the kernel in order, and a connection that was
  shut down meanwhile has its write side closed then.\<close>

theorem output_drains:
  assumes "kernel_contract K interest" "conn_inv interest w" "up w"
    "\<And>k fd bs. bs \<noteq> [] \<Longrightarrow> 0 < taken (snd (k_write K k fd bs))"
  shows "\<exists>w'. foldR (\<lambda>_. handleWrite K cbs) (replicate (length (content (c_outputBuffer w))) ()) w = Inr w' \<and>
    content (c_outputBuffer w') = [] \<and> c_sent w' = c_accepted w \<and> c_state w' = c_state w \<and>
    (c_state w = kDisconnecting \<longrightarrow> content (c_outputBuffer w) \<noteq> [] \<longrightarrow> c_shutdown w')"
proof -
  have drain: "\<exists>w'. foldR (\<lambda>_. handleWrite K cbs) (replicate m ()) w = Inr w' \<and> conn_inv interest w' \<and>
      content (c_outputBuffer w') = [] \<and> c_sent w' = c_accepted w \<and> c_state w' = c_state w \<and>
      (c_state w = kDisconnecting \<longrightarrow> content (c_outputBuffer w) \<noteq> [] \<or> c_shutdown w \<longrightarrow> c_shutdown w')"
    if "conn_inv interest w" "up w" "length (content (c_outputBuffer w)) \<le> m" for m w
    using that
  proof (induction m arbitrary: w)
    case 0
    then show ?case using conn_invD(5) [OF 0(1)] by simp
  next
    case (Suc m)
    obtain ch where ch: "base_inv interest ch w" "isWriting ch \<longleftrightarrow> content (c_outputBuffer w) \<noteq> []"
      by (rule conn_inv_up [OF Suc.prems(1,2)])
    note h = base_invD(4) [OF ch(1)]
    let ?bs = "content (c_outputBuffer w)"
    show ?case
    proof (cases "?bs = []")
      case True
      have id: "handleWrite K cbs w = Inr w" by (rule handleWrite_idle [OF Suc.prems(1,2) True])
      show ?thesis using Suc.IH [OF Suc.prems(1,2)] True id by simp
    next
      case False
      define n where "n = taken (snd (k_write K (kern w) (ch_fd ch) ?bs))"
      have n: "0 < n" using assms(4) [OF False] by (simp add: n_def)
      from handleWrite_ok [OF assms(1) Suc.prems(1,2) refl False h n_def [symmetric], of cbs] obtain w1 where
        w1: "handleWrite K cbs w = Inr w1" "conn_inv interest w1" "c_state w1 = c_state w"
          "content (c_outputBuffer w1) = drop n ?bs" "c_accepted w1 = c_accepted w"
          "c_shutdown w1 = (c_shutdown w \<or> length ?bs \<le> n \<and> c_state w = kDisconnecting)" by blast
      have "up w1" "length (content (c_outputBuffer w1)) \<le> m"
        using Suc.prems(2,3) w1(3,4) n False by (auto simp: up_def)
      from Suc.IH [OF w1(2) this] obtain w' where
        "foldR (\<lambda>_. handleWrite K cbs) (replicate m ()) w1 = Inr w'" "conn_inv interest w'"
        "content (c_outputBuffer w') = []" "c_sent w' = c_accepted w1" "c_state w' = c_state w1"
        "c_state w1 = kDisconnecting \<longrightarrow> content (c_outputBuffer w1) \<noteq> [] \<or> c_shutdown w1 \<longrightarrow> c_shutdown w'" by blast
      then show ?thesis using w1 by (intro exI [of _ w']) (auto simp: not_le)
    qed
  qed
  from drain [OF assms(2,3) order_refl] show ?thesis by blast
qed

theorem output_drains_witness:
  "\<exists>w'. foldR (\<lambda>_. handleWrite echo_kernel idle_callbacks) (replicate 3 ())
      (sample_conn kDisconnecting (kReadEvent OR kWriteEvent) ''abc'') = Inr w' \<and>
    c_sent w' = ''abc'' \<and> c_shutdown w'"
  using output_drains [OF echo_kernel_contract sample_writing_inv [where m = "()" and s = kDisconnecting], of idle_callbacks]
  by (simp add: sample_conn_simps echo_kernel_def taken_def numeral_3_eq_3) blast

text \<open>C23. The write side is shut down only when all bytes the connection took charge of have been given to the kernel:
  whichever of \<^verbatim>\<open>shutdown\<close>, \<^verbatim>\<open>shutdownInLoop\<close> and a write event does it.\<close>

theorem shutdown_after_drain:
  assumes "kernel_contract K interest" "conn_inv interest w" "up w" "\<not> c_shutdown w"
    "shutdown w = Inr w' \<or> shutdownInLoop w = Inr w' \<or> handleWrite K cbs w = Inr w'" "c_shutdown w'"
  shows "c_sent w' = c_accepted w' \<and> content (c_outputBuffer w') = [] \<and> c_accepted w' = c_accepted w"
proof -
  obtain ch where h: "heap w (c_channel w) = Some ch" by (rule conn_inv_chan [OF assms(2)])
  have "c_sent w' = c_accepted w' \<and> c_accepted w' = c_accepted w \<and> conn_inv interest w'"
    using assms(5)
  proof (elim disjE)
    assume "shutdown w = Inr w'"
    then show ?thesis using shutdown_ok [OF assms(2)] assms(4,6) by auto
  next
    assume "shutdownInLoop w = Inr w'"
    then show ?thesis using shutdownInLoop_ok [OF assms(2,3)] assms(4,6) conn_invD(5) [OF assms(2)] by auto
  next
    assume hw: "handleWrite K cbs w = Inr w'"
    show ?thesis
    proof (cases "content (c_outputBuffer w) = []")
      case True
      then show ?thesis using hw assms(4,6) handleWrite_idle [OF assms(2,3), of K cbs] by simp
    next
      case False
      from handleWrite_ok [OF assms(1-3) refl False h refl, of cbs] show ?thesis
        using hw assms(4,6) conn_invD(5) [OF assms(2)] by auto
    qed
  qed
  then show ?thesis using conn_invD(5) [of interest w'] by auto
qed

theorem shutdown_after_drain_witness:
  "\<exists>w'. shutdown (sample_conn kConnected kReadEvent []) = Inr w' \<and> c_shutdown w' \<and> c_sent w' = c_accepted w'"
proof -
  let ?w = "sample_conn kConnected kReadEvent []"
  obtain w' where w': "shutdown ?w = Inr w'" "c_shutdown w'"
    by (simp add: shutdown_def setState_def shutdownInLoop_def assertInLoopThread_def deref_def sample_tcp_def blank_tcp_def
        isWriting_def kReadEvent_def kWriteEvent_def Channel_def poll_bits)
  have "c_sent w' = c_accepted w'"
    using shutdown_after_drain [OF echo_kernel_contract sample_reading_inv [where m = "()" and s = kConnected], of w'] w'
    by (simp add: sample_conn_simps)
  then show ?thesis using w' by blast
qed

text \<open>Destroying a connection that is shutting down fails: \<^verbatim>\<open>connectDestroyed\<close> handles the state \<^verbatim>\<open>kConnected\<close> only, so
  a channel that still watches is removed, which the assert of \<^verbatim>\<open>Channel::remove\<close> forbids.\<close>

theorem destroy_disconnecting_fails:
  assumes "inLoopThread w" "c_state w = kDisconnecting" "heap w (c_channel w) = Some ch" "isReading ch"
  shows "connectDestroyed K cbs w = Inl AssertFailed"
proof -
  have "\<not> isNoneEvent ch" using assms(4) by (auto simp: isReading_def isNoneEvent_def kNoneEvent_def)
  then show ?thesis using assms by (simp add: connectDestroyed_def assertInLoopThread_def chan_remove_def deref_def)
qed

theorem destroy_disconnecting_fails_witness:
  "connectDestroyed echo_kernel idle_callbacks (sample_conn kDisconnecting kReadEvent []) = Inl AssertFailed"
  by (rule destroy_disconnecting_fails [where ch = "(Channel 5)\<lparr>ch_events := kReadEvent, ch_index := kAdded, ch_addedToLoop := True\<rparr>"])
    (simp_all add: sample_tcp_def blank_tcp_def isReading_def kReadEvent_def poll_bits)

text \<open>Starting to read on a connection that was closed registers its channel again, so that destroying it fails.\<close>

theorem read_after_close_fails:
  assumes "kernel_contract K interest" "conn_inv interest w" "destroyable w"
  shows "\<exists>w1. startReadInLoop K w = Inr w1 \<and> connectDestroyed K cbs w1 = Inl AssertFailed"
proof -
  obtain ch where c: "heap w (c_channel w) = Some ch" "lib_mask (ch_events ch)"
      "chan_state_ok (c_state w) (content (c_outputBuffer w)) w ch" by (rule conn_inv_chan [OF assms(2)])
  have ch: "heap w (c_channel w) = Some ch" "lib_mask (ch_events ch)" "isNoneEvent ch" "ch_index ch \<noteq> kNew"
    using c assms(3) by (simp_all add: chan_state_ok_def destroyable_def)
  note D = conn_invD [OF assms(2)]
  obtain k' ch' where k': "enableReading (k_ctl K) (c_channel w) w = Inr (updated (c_channel w) (reading_on ch) k' w)"
      "heap (updated (c_channel w) (reading_on ch) k' w) (c_channel w) = Some ch'" "isReading ch'"
    using enableReading_conn [OF assms(1) D(1) ch(1,2)] ch(4) by blast
  have nr: "\<not> isReading ch" using ch(3) by (simp add: isReading_def isNoneEvent_def kNoneEvent_def)
  let ?w1 = "(updated (c_channel w) (reading_on ch) k' w)\<lparr>c_reading := True\<rparr>"
  have s: "startReadInLoop K w = Inr ?w1"
    using ch(1) nr k'(1) D(2) by (simp add: startReadInLoop_def assertInLoopThread_def deref_def)
  have "\<not> isNoneEvent ch'" using k'(3) by (auto simp: isReading_def isNoneEvent_def kNoneEvent_def)
  moreover have "inLoopThread ?w1" using D(2) by (simp add: updated_def)
  ultimately have "connectDestroyed K cbs ?w1 = Inl AssertFailed" using assms(3) k'(2)
    by (simp add: connectDestroyed_def assertInLoopThread_def chan_remove_def deref_def destroyable_def)
  with s show ?thesis by blast
qed

theorem read_after_close_fails_witness:
  "\<exists>w1. startReadInLoop echo_kernel (sample_conn kDisconnected 0 []) = Inr w1 \<and>
    connectDestroyed echo_kernel idle_callbacks w1 = Inl AssertFailed"
  by (rule read_after_close_fails [OF echo_kernel_contract sample_closed_inv [of "()"]])
    (simp add: destroyable_def sample_tcp_def blank_tcp_def Channel_def index_defs)

text \<open>The high water mark callback is queued exactly when a message makes the queued output reach the mark from below.\<close>

theorem high_water_mark_once:
  assumes "kernel_contract K interest" "conn_inv interest w" "up w" "out_room message w" "message \<noteq> []"
    "content (c_outputBuffer w) \<noteq> []"
  shows "\<exists>w'. sendInLoop K cbs message w = Inr w' \<and> content (c_outputBuffer w') = content (c_outputBuffer w) @ message \<and>
    c_tasks w' = c_tasks w @
      (if length (content (c_outputBuffer w)) < c_highWaterMark w \<and> c_highWaterMark w \<le> length (content (c_outputBuffer w')) \<and>
          highWaterMarkCallback cbs \<noteq> None
       then [HighWaterMark (length (content (c_outputBuffer w')))] else [])"
proof -
  obtain ch where ch: "base_inv interest ch w" "isWriting ch \<longleftrightarrow> content (c_outputBuffer w) \<noteq> []"
    by (rule conn_inv_up [OF assms(2,3)])
  have wd: "write_direct K cbs message ch w = (w, 0, length message, False)"
    using ch(2) assms(6) by (simp add: write_direct_def Let_def)
  have "sendInLoop K cbs message w = queue_output K cbs message 0 (length message - 0) w"
    using base_invD(4) [OF ch(1)] conn_invD(2) [OF assms(2)] assms(3,5)
    by (auto simp: sendInLoop_def assertInLoopThread_def deref_def wd up_def)
  moreover from queue_output_ok [OF assms(1) ch(1) assms(4), of 0 cbs] assms(5) obtain w' where
    "queue_output K cbs message 0 (length message - 0) w = Inr w'"
    "content (c_outputBuffer w') = content (c_outputBuffer w) @ drop 0 message"
    "c_tasks w' = c_tasks w @
      (if c_highWaterMark w \<le> length (content (c_outputBuffer w')) \<and>
          length (content (c_outputBuffer w)) < c_highWaterMark w \<and> highWaterMarkCallback cbs \<noteq> None
       then [HighWaterMark (length (content (c_outputBuffer w')))] else [])" by blast
  ultimately show ?thesis by (intro exI [of _ w']) (simp add: conj_commute)
qed

theorem high_water_mark_once_witness:
  "\<exists>w'. sendInLoop echo_kernel (idle_callbacks\<lparr>highWaterMarkCallback := Some (\<lambda>n. Inr)\<rparr>) ''de''
      (sample_conn kConnected (kReadEvent OR kWriteEvent) ''abc'') = Inr w' \<and> c_tasks w' = [HighWaterMark 5]"
  using high_water_mark_once [OF echo_kernel_contract sample_writing_inv [where m = "()" and s = kConnected], of "''de''"
      "idle_callbacks\<lparr>highWaterMarkCallback := Some (\<lambda>n. Inr)\<rparr>"]
  by (auto simp: sample_conn_simps vec_max_def)

text \<open>After \<^verbatim>\<open>connectEstablished\<close> the channel reads, but \<^verbatim>\<open>isReading()\<close> of the connection answers no.\<close>

theorem established_isReading:
  assumes "kernel_contract K interest" "reactor_inv interest w" "heap w p = None" "channels w fd = None"
    "TCPConnection p fd w = Inr w0" "connectionCallback cbs = Some Inr"
  shows "\<exists>w' ch. connectEstablished K cbs w0 = Inr w' \<and> c_state w' = kConnected \<and> heap w' (c_channel w') = Some ch \<and>
    isReading ch \<and> \<not> conn_isReading w'"
  using established_ok [OF assms] by (auto simp: conn_isReading_def)

theorem established_isReading_witness:
  "\<exists>w0 w'. TCPConnection 1 5 blank_conn = Inr w0 \<and> connectEstablished echo_kernel idle_callbacks w0 = Inr w' \<and>
    c_state w' = kConnected \<and> \<not> conn_isReading w'"
proof -
  obtain w0 where w0: "TCPConnection 1 5 blank_conn = Inr w0"
    using TCPConnection_ok [OF blank_conn_inv [of "()"], of 1 5] by (auto simp: blank_tcp_def)
  from established_isReading [OF echo_kernel_contract blank_conn_inv [of "()"] _ _ w0, of idle_callbacks] w0 show ?thesis
    by (auto simp: blank_tcp_def idle_callbacks_def)
qed

end
