(* ===== verification/Lute_InetAddress.thy ===== *)
theory Lute_InetAddress
  imports Lute_Endian
begin

text \<open>
  Socket addresses: \<^verbatim>\<open>polaris/src/InetAddress.cc\<close>, \<^verbatim>\<open>polaris/include/polaris/InetAddress.h\<close> and the address functions of
  \<^verbatim>\<open>polaris/src/Sockets.cc\<close>.  The object is a union of \<^verbatim>\<open>sockaddr_in\<close> and \<^verbatim>\<open>sockaddr_in6\<close>, so it is modelled as its 28
  bytes: every member is a range of them, read and written through the byte order of the host, and a write through
  one of the two structures is seen through the other.  The text of an IPv4 address is modelled; the two library
  functions for the text of an IPv6 address are parameters (\<open>ntop6\<close>, \<open>pton6\<close>) with the laws of their manual page.
\<close>

section \<open>The bytes of an address\<close>

type_synonym inetAddress = "byte list"

definition field :: "nat \<Rightarrow> nat \<Rightarrow> byte list \<Rightarrow> byte list" where
  "field i n a = take n (drop i a)"

definition poke :: "nat \<Rightarrow> byte list \<Rightarrow> byte list \<Rightarrow> byte list" where
  "poke i bs a = take i a @ bs @ drop (i + length bs) a"

lemma length_poke [simp]: "i + length bs \<le> length a \<Longrightarrow> length (poke i bs a) = length a"
  by (simp add: poke_def)

lemma length_field [simp]: "i + n \<le> length a \<Longrightarrow> length (field i n a) = n"
  by (simp add: field_def)

lemma field_poke_same [simp]: "i \<le> length a \<Longrightarrow> n = length bs \<Longrightarrow> field i n (poke i bs a) = bs"
  by (simp add: poke_def field_def)

lemma field_poke_other [simp]:
  "i + length bs \<le> length a \<Longrightarrow> j + n \<le> i \<or> i + length bs \<le> j \<Longrightarrow> field j n (poke i bs a) = field j n a"
proof -
  assume a: "i + length bs \<le> length a" and b: "j + n \<le> i \<or> i + length bs \<le> j"
  from b show ?thesis
  proof
    assume "j + n \<le> i"
    then show ?thesis using a by (simp add: poke_def field_def take_drop)
  next
    assume "i + length bs \<le> j"
    then have "drop j (poke i bs a) = drop (j - (i + length bs)) (drop (i + length bs) a)"
      using a by (simp add: poke_def)
    then show ?thesis using \<open>i + length bs \<le> j\<close> by (simp add: field_def)
  qed
qed

lemma field_replicate [simp]: "i + n \<le> m \<Longrightarrow> field i n (replicate m x) = replicate n x"
  by (simp add: field_def)

definition AF_INET :: "16 word" where "AF_INET = 2"
definition AF_INET6 :: "16 word" where "AF_INET6 = 10"

text \<open>
  \<^verbatim>\<open>sin_family\<close> and \<^verbatim>\<open>sin6_family\<close> are at offset 0 and \<^verbatim>\<open>sin_port\<close> and \<^verbatim>\<open>sin6_port\<close> at offset 2, as the
  static assertions of the source say; \<^verbatim>\<open>sin_addr\<close> shares its bytes with \<^verbatim>\<open>sin6_flowinfo\<close>.
\<close>

definition family :: "endian \<Rightarrow> inetAddress \<Rightarrow> 16 word" where
  "family e a = word_of_mem e (field 0 2 a)"

definition portNetEndian :: "endian \<Rightarrow> inetAddress \<Rightarrow> 16 word" where
  "portNetEndian e a = word_of_mem e (field 2 2 a)"

abbreviation sin_addr :: "inetAddress \<Rightarrow> byte list" where
  "sin_addr a \<equiv> field 4 4 a"

abbreviation sin6_flowinfo :: "inetAddress \<Rightarrow> byte list" where
  "sin6_flowinfo a \<equiv> field 4 4 a"

abbreviation sin6_addr :: "inetAddress \<Rightarrow> byte list" where
  "sin6_addr a \<equiv> field 8 16 a"

abbreviation sin6_scope_id :: "inetAddress \<Rightarrow> byte list" where
  "sin6_scope_id a \<equiv> field 24 4 a"

abbreviation put_family :: "endian \<Rightarrow> 16 word \<Rightarrow> inetAddress \<Rightarrow> inetAddress" where
  "put_family e f a \<equiv> poke 0 (mem_of_word e f) a"

abbreviation put_port :: "endian \<Rightarrow> 16 word \<Rightarrow> inetAddress \<Rightarrow> inetAddress" where
  "put_port e p a \<equiv> poke 2 (mem_of_word e p) a"

section \<open>Addresses as text\<close>

text \<open>A C string ends at its first zero byte.\<close>

definition c_str :: "string \<Rightarrow> string" where
  "c_str s = takeWhile (\<lambda>c. c \<noteq> CHR 0x00) s"

text \<open>\<^verbatim>\<open>inet_ntop(AF_INET, ...)\<close>, and \<^verbatim>\<open>inet_pton(AF_INET, ...)\<close>, which takes four numbers up to 255 without leading zeros.\<close>

fun join_dots :: "string list \<Rightarrow> string" where
  "join_dots [] = []"
| "join_dots [s] = s"
| "join_dots (s # t # r) = s @ CHR ''.'' # join_dots (t # r)"

definition inet_ntop4 :: "byte list \<Rightarrow> string" where
  "inet_ntop4 bs = join_dots (map (\<lambda>b. dec (of_char b)) bs)"

fun split_dots :: "string \<Rightarrow> string list" where
  "split_dots [] = [[]]"
| "split_dots (c # s) =
     (if c = CHR ''.'' then [] # split_dots s
      else case split_dots s of [] \<Rightarrow> [[c]] | t # r \<Rightarrow> (c # t) # r)"

definition octet :: "string \<Rightarrow> byte option" where
  "octet s =
     (if s \<noteq> [] \<and> length s \<le> 3 \<and> list_all (\<lambda>c. 48 \<le> (of_char c :: nat) \<and> (of_char c :: nat) \<le> 57) s \<and>
         (1 < length s \<longrightarrow> hd s \<noteq> CHR ''0'') \<and> undec s \<le> 255
      then Some (char_of (undec s)) else None)"

fun octets :: "string list \<Rightarrow> byte list option" where
  "octets [] = Some []"
| "octets (s # ss) =
     (case octet s of None \<Rightarrow> None
      | Some b \<Rightarrow> (case octets ss of None \<Rightarrow> None | Some bs \<Rightarrow> Some (b # bs)))"

definition inet_pton4 :: "string \<Rightarrow> byte list option" where
  "inet_pton4 s = (let ss = split_dots s in if length ss = 4 then octets ss else None)"

text \<open>What the manual page promises of the IPv6 functions: \<^verbatim>\<open>INET6_ADDRSTRLEN\<close> is 46 with the final zero.\<close>

definition inet6_text :: "(byte list \<Rightarrow> string) \<Rightarrow> (string \<Rightarrow> byte list option) \<Rightarrow> bool" where
  "inet6_text ntop6 pton6 \<longleftrightarrow>
     (\<forall>bs. length bs = 16 \<longrightarrow>
        length (ntop6 bs) \<le> 45 \<and> CHR 0x00 \<notin> set (ntop6 bs) \<and> pton6 (ntop6 bs) = Some bs) \<and>
     (\<forall>s bs. pton6 s = Some bs \<longrightarrow> length bs = 16)"

section \<open>Operations\<close>

definition kInaddrAny :: "32 word" where "kInaddrAny = 0"
definition kInaddrLoopback :: "32 word" where "kInaddrLoopback = 0x7F000001"
definition in6addr_any :: "byte list" where "in6addr_any = replicate 16 (CHR 0x00)"
definition in6addr_loopback :: "byte list" where "in6addr_loopback = replicate 15 (CHR 0x00) @ [CHR 0x01]"

definition memZero :: "nat \<Rightarrow> byte list \<Rightarrow> byte list" where
  "memZero n a = poke 0 (replicate n (CHR 0x00)) a"

text \<open>\<open>mem\<close> is what the object's memory holds before: the IPv4 branch of the first constructor clears 16 bytes only.\<close>

definition InetAddress_port :: "endian \<Rightarrow> byte list \<Rightarrow> 16 word \<Rightarrow> bool \<Rightarrow> bool \<Rightarrow> inetAddress" where
  "InetAddress_port e mem port loopbackOnly ipv6 =
     (if ipv6
      then let a0 = memZero 28 mem;
               a1 = put_family e AF_INET6 a0;
               a2 = poke 8 (if loopbackOnly then in6addr_loopback else in6addr_any) a1
           in put_port e (hostToNetwork16 e port) a2
      else let a0 = memZero 16 mem;
               a1 = put_family e AF_INET a0;
               ip = (if loopbackOnly then kInaddrLoopback else kInaddrAny);
               a2 = poke 4 (mem_of_word e (hostToNetwork32 e ip)) a1
           in put_port e (hostToNetwork16 e port) a2)"

text \<open>An unreadable text is logged and leaves the address as it is.\<close>

definition fromIpPort :: "endian \<Rightarrow> string \<Rightarrow> 16 word \<Rightarrow> inetAddress \<Rightarrow> inetAddress" where
  "fromIpPort e ip port a =
     (let a1 = put_port e (hostToNetwork16 e port) (put_family e AF_INET a)
      in case inet_pton4 ip of None \<Rightarrow> a1 | Some bs \<Rightarrow> poke 4 bs a1)"

definition fromIpPort6 ::
  "(string \<Rightarrow> byte list option) \<Rightarrow> endian \<Rightarrow> string \<Rightarrow> 16 word \<Rightarrow> inetAddress \<Rightarrow> inetAddress" where
  "fromIpPort6 pton6 e ip port a =
     (let a1 = put_port e (hostToNetwork16 e port) (put_family e AF_INET6 a)
      in case pton6 ip of None \<Rightarrow> a1 | Some bs \<Rightarrow> poke 8 bs a1)"

definition InetAddress_ip ::
  "(string \<Rightarrow> byte list option) \<Rightarrow> endian \<Rightarrow> byte list \<Rightarrow> string \<Rightarrow> 16 word \<Rightarrow> bool \<Rightarrow> inetAddress" where
  "InetAddress_ip pton6 e mem ip port ipv6 =
     (if ipv6 then fromIpPort6 pton6 e (c_str ip) port (memZero 28 mem)
      else fromIpPort e (c_str ip) port (memZero 28 mem))"

text \<open>\<open>buf\<close> is the string in the buffer of \<open>sz\<close> bytes before the call.\<close>

definition toIp :: "(byte list \<Rightarrow> string) \<Rightarrow> endian \<Rightarrow> string \<Rightarrow> nat \<Rightarrow> inetAddress \<Rightarrow> string result" where
  "toIp ntop6 e buf sz a =
     (if family e a = AF_INET then assertR (16 \<le> sz) (Inr (inet_ntop4 (sin_addr a)))
      else if family e a = AF_INET6 then assertR (46 \<le> sz) (Inr (ntop6 (sin6_addr a)))
      else Inr buf)"

definition toIpPort :: "(byte list \<Rightarrow> string) \<Rightarrow> endian \<Rightarrow> string \<Rightarrow> nat \<Rightarrow> inetAddress \<Rightarrow> string result" where
  "toIpPort ntop6 e buf sz a =
     bindR (toIp ntop6 e buf sz a) (\<lambda>buf1.
       let end = length buf1; port = networkToHost16 e (portNetEndian e a)
       in assertR (end < sz) (Inr (buf1 @ take (sz - end - 1) (CHR '':'' # dec (unat port)))))"

definition inet_toIp :: "(byte list \<Rightarrow> string) \<Rightarrow> endian \<Rightarrow> inetAddress \<Rightarrow> string result" where
  "inet_toIp ntop6 e a = toIp ntop6 e [] 64 a"

definition inet_toIpPort :: "(byte list \<Rightarrow> string) \<Rightarrow> endian \<Rightarrow> inetAddress \<Rightarrow> string result" where
  "inet_toIpPort ntop6 e a = toIpPort ntop6 e [] 64 a"

definition toPort :: "endian \<Rightarrow> inetAddress \<Rightarrow> 16 word" where
  "toPort e a = networkToHost16 e (portNetEndian e a)"

definition ipNetEndian :: "endian \<Rightarrow> inetAddress \<Rightarrow> 32 word result" where
  "ipNetEndian e a = assertR (family e a = AF_INET) (Inr (word_of_mem e (sin_addr a)))"

definition setSockAddrInet6 :: "byte list \<Rightarrow> inetAddress \<Rightarrow> inetAddress" where
  "setSockAddrInet6 addr6 a = addr6"

definition setScopeId :: "endian \<Rightarrow> 32 word \<Rightarrow> inetAddress \<Rightarrow> inetAddress" where
  "setScopeId e scope_id a = (if family e a = AF_INET6 then poke 24 (mem_of_word e scope_id) a else a)"

text \<open>\<open>ret\<close> and \<open>he\<close> are the answer of \<^verbatim>\<open>gethostbyname_r\<close>: the address type and the first address.\<close>

definition resolve ::
  "int \<Rightarrow> (16 word \<times> byte list) option \<Rightarrow> inetAddress \<Rightarrow> (bool \<times> inetAddress) result" where
  "resolve ret he out =
     (case he of
        Some (h_addrtype, h_addr) \<Rightarrow>
          if ret = 0
          then assertR (h_addrtype = AF_INET \<and> length h_addr = 4) (Inr (True, poke 4 h_addr out))
          else Inr (False, out)
      | None \<Rightarrow> Inr (False, out))"

text \<open>\<open>name\<close> is what the kernel writes into the cleared address, or nothing on an error.\<close>

definition getLocalAddr :: "byte list option \<Rightarrow> inetAddress" where
  "getLocalAddr name = (case name of None \<Rightarrow> replicate 28 (CHR 0x00) | Some bs \<Rightarrow> poke 0 (take 28 bs) (replicate 28 (CHR 0x00)))"

definition getPeerAddr :: "byte list option \<Rightarrow> inetAddress" where
  "getPeerAddr name = (case name of None \<Rightarrow> replicate 28 (CHR 0x00) | Some bs \<Rightarrow> poke 0 (take 28 bs) (replicate 28 (CHR 0x00)))"

definition isSelfConnect :: "endian \<Rightarrow> byte list option \<Rightarrow> byte list option \<Rightarrow> bool" where
  "isSelfConnect e sockname peername =
     (let localaddr = getLocalAddr sockname; peeraddr = getPeerAddr peername
      in if family e localaddr = AF_INET
         then portNetEndian e localaddr = portNetEndian e peeraddr \<and> sin_addr localaddr = sin_addr peeraddr
         else if family e localaddr = AF_INET6
         then portNetEndian e localaddr = portNetEndian e peeraddr \<and> sin6_addr localaddr = sin6_addr peeraddr
         else False)"

section \<open>Text of an IPv4 address\<close>

lemma dec_not_Nil [simp]: "dec n \<noteq> []"
  by (subst dec.simps) simp

lemma of_char_digit: "d \<le> 9 \<Longrightarrow> of_char (digit d) = (48 + d :: nat)"
  by (simp add: digit_def)

lemma dec_chars: "c \<in> set (dec n) \<Longrightarrow> 48 \<le> (of_char c :: nat) \<and> (of_char c :: nat) \<le> 57"
proof -
  assume "c \<in> set (dec n)"
  then obtain d where "d \<le> 9" "c = digit d" using dec_digits [of n] by fastforce
  then show ?thesis by (simp add: of_char_digit)
qed

lemma dec_not_in: "\<not> (48 \<le> (of_char c :: nat) \<and> (of_char c :: nat) \<le> 57) \<Longrightarrow> c \<notin> set (dec n)"
  using dec_chars by blast

lemma dec_hd: "1 < length (dec n) \<Longrightarrow> hd (dec n) \<noteq> CHR ''0''"
proof (induction n rule: dec.induct)
  case (1 n)
  show ?case
  proof (cases "n < 10")
    case True
    then show ?thesis using 1(2) by (simp add: dec.simps [of n])
  next
    case False
    have "hd (dec (n div 10)) \<noteq> CHR ''0''"
    proof (cases "n div 10 < 10")
      case True
      have "of_char (digit (n div 10)) = 48 + n div 10" using True by (simp add: of_char_digit)
      moreover have "n div 10 \<noteq> 0" using False by simp
      moreover have "of_char (CHR ''0'') = (48 :: nat)" by simp
      ultimately have "digit (n div 10) \<noteq> CHR ''0''" by (metis add_cancel_left_right)
      then show ?thesis using True by (simp add: dec.simps [of "n div 10"])
    next
      case F: False
      then have "1 < length (dec (n div 10))" by (subst dec.simps) simp
      then show ?thesis using 1(1) False by blast
    qed
    then show ?thesis using False by (subst dec.simps) simp
  qed
qed

lemma dec_octet: "of_char b \<le> (255 :: nat)" "length (dec (of_char b)) \<le> 3"
proof -
  have "(of_char b :: nat) < Suc 255" by (rule less_le_trans [OF of_char_less]) simp
  then show le: "of_char b \<le> (255 :: nat)" by (rule less_Suc_eq_le [THEN iffD1])
  show "length (dec (of_char b)) \<le> 3" by (rule dec_length) (use le in simp_all)
qed

lemma octet_dec: "octet (dec (of_char b)) = Some b"
proof -
  show ?thesis using dec_octet [of b] dec_hd [of "of_char b"] dec_chars [of _ "of_char b"]
    by (auto simp: octet_def undec_dec list_all_iff)
qed

lemma octets_dec: "octets (map (\<lambda>b. dec (of_char b)) bs) = Some bs"
  by (induction bs) (simp_all add: octet_dec)

lemma split_dots_no_dot: "CHR ''.'' \<notin> set s \<Longrightarrow> split_dots s = [s]"
  by (induction s) auto

lemma split_dots_Cons: "CHR ''.'' \<notin> set s \<Longrightarrow> split_dots (s @ CHR ''.'' # t) = s # split_dots t"
  by (induction s) auto

lemma split_join: "ss \<noteq> [] \<Longrightarrow> \<forall>s \<in> set ss. CHR ''.'' \<notin> set s \<Longrightarrow> split_dots (join_dots ss) = ss"
  by (induction ss rule: join_dots.induct) (auto simp: split_dots_no_dot split_dots_Cons)

lemma pton4_ntop4: "length bs = 4 \<Longrightarrow> inet_pton4 (inet_ntop4 bs) = Some bs"
proof -
  assume l: "length bs = 4"
  have "split_dots (inet_ntop4 bs) = map (\<lambda>b. dec (of_char b)) bs"
    unfolding inet_ntop4_def using l by (intro split_join) (auto intro!: dec_not_in)
  then show ?thesis using l by (simp add: inet_pton4_def octets_dec)
qed

lemma octets_length: "octets ss = Some bs \<Longrightarrow> length bs = length ss"
  by (induction ss arbitrary: bs) (auto split: option.splits)

lemma pton4_length: "inet_pton4 s = Some bs \<Longrightarrow> length bs = 4"
  by (auto simp: inet_pton4_def Let_def dest: octets_length split: if_splits)

lemma length_join_dots: "\<forall>s \<in> set ss. length s \<le> k \<Longrightarrow> length (join_dots ss) \<le> length ss * (k + 1) - 1"
proof (induction ss rule: join_dots.induct)
  case (3 s t r)
  then have "length (join_dots (t # r)) \<le> length (t # r) * (k + 1) - 1" "length s \<le> k" by simp_all
  then show ?case by simp
qed auto

lemma ntop4_length: "length bs = 4 \<Longrightarrow> length (inet_ntop4 bs) \<le> 15"
proof -
  assume l: "length bs = 4"
  have "\<forall>s \<in> set (map (\<lambda>b. dec (of_char b)) bs). length s \<le> 3"
    using dec_octet(2) by simp
  from length_join_dots [OF this] l show ?thesis by (simp add: inet_ntop4_def)
qed

lemma set_join_dots: "set (join_dots ss) \<subseteq> insert (CHR ''.'') (\<Union> (set ` set ss))"
  by (induction ss rule: join_dots.induct) auto

lemma ntop4_chars: "c \<in> set (inet_ntop4 bs) \<Longrightarrow> c = CHR ''.'' \<or> 48 \<le> (of_char c :: nat) \<and> (of_char c :: nat) \<le> 57"
proof -
  assume "c \<in> set (inet_ntop4 bs)"
  then have "c \<in> insert (CHR ''.'') (\<Union> (set ` set (map (\<lambda>b. dec (of_char b)) bs)))"
    unfolding inet_ntop4_def using set_join_dots by blast
  then show ?thesis by (auto dest: dec_chars)
qed

lemma c_str_id: "CHR 0x00 \<notin> set s \<Longrightarrow> c_str s = s"
  unfolding c_str_def by (rule takeWhile_eq_all_conv [THEN iffD2]) auto

lemma c_str_ntop4: "c_str (inet_ntop4 bs) = inet_ntop4 bs"
  using ntop4_chars [of "CHR 0x00" bs] by (intro c_str_id) auto

section \<open>Members\<close>

lemma family_put [simp]: "2 \<le> length a \<Longrightarrow> family e (put_family e f a) = f"
  by (simp add: family_def word_of_mem_of_word)

lemma family_poke [simp]: "2 \<le> i \<Longrightarrow> i + length bs \<le> length a \<Longrightarrow> family e (poke i bs a) = family e a"
  by (simp add: family_def)

lemma port_put [simp]: "4 \<le> length a \<Longrightarrow> portNetEndian e (put_port e p a) = p"
  by (simp add: portNetEndian_def word_of_mem_of_word)

lemma port_poke [simp]:
  "i + length bs \<le> 2 \<or> 4 \<le> i \<Longrightarrow> i + length bs \<le> length a \<Longrightarrow> portNetEndian e (poke i bs a) = portNetEndian e a"
  by (auto simp: portNetEndian_def)

lemma network16_id [simp]: "networkToHost16 e (hostToNetwork16 e p) = p"
  by (cases e) (simp_all add: network_defs htobe_def bswap_bswap)

lemma AF_neq [simp]: "AF_INET6 \<noteq> AF_INET" "AF_INET \<noteq> AF_INET6"
  by (simp_all add: AF_INET_def AF_INET6_def)

lemma length_memZero [simp]: "n \<le> length a \<Longrightarrow> length (memZero n a) = length a"
  by (simp add: memZero_def)

lemma port_text: "length (dec (unat (p :: 16 word))) \<le> 5"
proof (rule dec_length)
  show "unat p < 10 ^ 5" using unsigned_less [of p, where ?'a = nat] by simp
qed simp

text \<open>The text of an address and its port fits the buffers of \<^verbatim>\<open>InetAddress\<close>: nothing is cut off.\<close>

lemma toIp_some:
  assumes "inet6_text ntop6 pton6" "length a = 28"
  obtains s where "inet_toIp ntop6 e a = Inr s" "length s \<le> 45"
proof -
  consider "family e a = AF_INET" | "family e a = AF_INET6" | "family e a \<noteq> AF_INET" "family e a \<noteq> AF_INET6" by blast
  then show thesis
  proof cases
    case 1
    then show ?thesis using ntop4_length [of "sin_addr a"] assms(2)
      by (intro that [of "inet_ntop4 (sin_addr a)"]) (simp_all add: inet_toIp_def toIp_def)
  next
    case 2
    then show ?thesis using assms
      by (intro that [of "ntop6 (sin6_addr a)"]) (simp_all add: inet_toIp_def toIp_def inet6_text_def)
  qed (rule that [of "[]"], simp_all add: inet_toIp_def toIp_def)
qed

lemma toIpPort_text:
  assumes "inet_toIp ntop6 e a = Inr s" "length s \<le> 45"
  shows "inet_toIpPort ntop6 e a = Inr (s @ CHR '':'' # dec (unat (toPort e a)))"
  using assms port_text [of "toPort e a"] by (simp add: inet_toIp_def inet_toIpPort_def toIpPort_def toPort_def Let_def)

lemma InetAddress_ip_fields:
  assumes "inet6_text ntop6 pton6" "length mem = 28"
    "length bs = (if ipv6 then 16 else 4)" "ip = (if ipv6 then ntop6 bs else inet_ntop4 bs)"
    "a = InetAddress_ip pton6 e mem ip port ipv6"
  shows "length a = 28" "family e a = (if ipv6 then AF_INET6 else AF_INET)" "toPort e a = port"
    "field (if ipv6 then 8 else 4) (length bs) a = bs"
proof -
  have six: "pton6 (c_str (ntop6 bs)) = Some bs" if ipv6
    using assms(1,3) that by (simp add: inet6_text_def c_str_id)
  have four: "inet_pton4 (c_str (inet_ntop4 bs)) = Some bs" if "\<not> ipv6"
    using assms(3) that by (simp add: c_str_ntop4 pton4_ntop4)
  show "length a = 28" "family e a = (if ipv6 then AF_INET6 else AF_INET)" "toPort e a = port"
    "field (if ipv6 then 8 else 4) (length bs) a = bs"
    using six four assms(2-5)
    by (auto simp: InetAddress_ip_def fromIpPort_def fromIpPort6_def Let_def toPort_def)
qed

lemma toIp_family:
  "family e a = AF_INET \<Longrightarrow> inet_toIp ntop6 e a = Inr (inet_ntop4 (sin_addr a))"
  "family e a = AF_INET6 \<Longrightarrow> inet_toIp ntop6 e a = Inr (ntop6 (sin6_addr a))"
  by (simp_all add: inet_toIp_def toIp_def)

lemma text_length:
  assumes "inet6_text ntop6 pton6" "length bs = (if ipv6 then 16 else 4)"
  shows "length (if ipv6 then ntop6 bs else inet_ntop4 bs) \<le> 45"
  using assms ntop4_length [of bs] by (auto simp: inet6_text_def)

lemma toIpPort_length: "inet6_text ntop6 pton6 \<Longrightarrow> length a = 28 \<Longrightarrow> inet_toIpPort ntop6 e a = Inr s \<Longrightarrow> length s \<le> 51"
proof -
  assume asm: "inet6_text ntop6 pton6" "length a = 28" "inet_toIpPort ntop6 e a = Inr s"
  obtain ip where ip: "inet_toIp ntop6 e a = Inr ip" "length ip \<le> 45" by (rule toIp_some [OF asm(1,2)])
  show ?thesis using toIpPort_text [OF ip] asm(3) ip(2) port_text [of "toPort e a"] by auto
qed

section \<open>Properties of addresses\<close>

text \<open>A concrete pair of functions with the laws asked of the library: all eight groups in full.\<close>

definition hex_char :: "nat \<Rightarrow> char" where
  "hex_char n = (if n < 10 then char_of (48 + n) else char_of (87 + n))"

definition hex_value :: "char \<Rightarrow> nat" where
  "hex_value c = (let n = of_char c in if n < 87 then n - 48 else n - 87)"

definition hex_byte :: "byte \<Rightarrow> string" where
  "hex_byte b = [hex_char (of_char b div 16), hex_char (of_char b mod 16)]"

fun full_ntop6 :: "byte list \<Rightarrow> string" where
  "full_ntop6 (a # b # c # r) = hex_byte a @ hex_byte b @ CHR '':'' # full_ntop6 (c # r)"
| "full_ntop6 bs = concat (map hex_byte bs)"

fun unhex :: "string \<Rightarrow> byte list" where
  "unhex (c # d # r) = char_of (16 * hex_value c + hex_value d) # unhex r"
| "unhex _ = []"

definition full_pton6 :: "string \<Rightarrow> byte list option" where
  "full_pton6 s = (let bs = unhex (filter (\<lambda>c. c \<noteq> CHR '':'') s) in if length bs = 16 then Some bs else None)"

lemma of_char_hex: "n < 16 \<Longrightarrow> of_char (hex_char n) = (if n < 10 then 48 + n else 87 + n)"
  by (simp add: hex_char_def)

lemma hex_value_char: "n < 16 \<Longrightarrow> hex_value (hex_char n) = n"
  by (simp add: hex_value_def of_char_hex Let_def)

lemma hex_char_neq: "n < 16 \<Longrightarrow> hex_char n \<noteq> CHR '':''" "n < 16 \<Longrightarrow> hex_char n \<noteq> CHR 0x00"
  using of_char_hex [of n] by (auto split: if_splits)

lemma hex_nibbles: "(of_char b :: nat) div 16 < 16" "(of_char b :: nat) mod 16 < 16"
  using dec_octet(1) [of b] by linarith+

lemma hex_byte_no: "CHR '':'' \<notin> set (hex_byte b)" "CHR 0x00 \<notin> set (hex_byte b)"
  by (auto simp: hex_byte_def hex_char_neq [symmetric] hex_nibbles)

lemma filter_full: "filter (\<lambda>c. c \<noteq> CHR '':'') (full_ntop6 bs) = concat (map hex_byte bs)"
proof -
  have *: "filter (\<lambda>c. c \<noteq> CHR '':'') (hex_byte b) = hex_byte b" for b
    using hex_byte_no(1) [of b] by (auto simp: filter_id_conv)
  show ?thesis by (induction bs rule: full_ntop6.induct) (simp_all add: *)
qed

lemma unhex_bytes: "unhex (concat (map hex_byte bs)) = bs"
proof (induction bs)
  case (Cons b bs)
  have "char_of (16 * (of_char b div 16) + of_char b mod 16 :: nat) = b" by simp
  with Cons show ?case by (simp add: hex_byte_def hex_value_char hex_nibbles)
qed simp

lemma length_full: "2 * length (full_ntop6 bs) \<le> 5 * length bs"
  by (induction bs rule: full_ntop6.induct) (simp_all add: hex_byte_def)

lemma full_zero: "CHR 0x00 \<notin> set (full_ntop6 bs)"
  by (induction bs rule: full_ntop6.induct) (simp_all add: hex_byte_no)

lemma inet6_text_full: "inet6_text full_ntop6 full_pton6"
proof -
  have "length (full_ntop6 bs) \<le> 45" if "length bs = 16" for bs using length_full [of bs] that by simp
  then show ?thesis
    using full_zero by (auto simp: inet6_text_def full_pton6_def filter_full unhex_bytes Let_def split: if_splits)
qed

lemma sample_ipv4: "inet_ntop4 [CHR 0xC0, CHR 0xA8, CHR 0x01, CHR 0x02] = ''192.168.1.2''" "dec 8080 = ''8080''"
proof -
  have "dec 192 = ''192''" "dec 168 = ''168''" "dec (Suc 0) = ''1''" "dec (Suc (Suc 0)) = ''2''"
    by (simp_all add: dec.simps digit_def char_of_def bit_iff_odd_drop_bit drop_bit_eq_div)
  then show "inet_ntop4 [CHR 0xC0, CHR 0xA8, CHR 0x01, CHR 0x02] = ''192.168.1.2''" by (simp add: inet_ntop4_def)
  show "dec 8080 = ''8080''" by (simp add: dec.simps digit_def char_of_def bit_iff_odd_drop_bit drop_bit_eq_div)
qed

text \<open>C34. The text of an address and a port, given to the constructor, is read back from the object, on a host of either
  byte order and for both families: the family, the port, the address and the text of both.\<close>

theorem inet_text_roundtrip:
  assumes "inet6_text ntop6 pton6" "length mem = 28"
    "length bs = (if ipv6 then 16 else 4)" "ip = (if ipv6 then ntop6 bs else inet_ntop4 bs)"
    "a = InetAddress_ip pton6 e mem ip port ipv6"
  shows "family e a = (if ipv6 then AF_INET6 else AF_INET) \<and> toPort e a = port \<and>
    inet_toIp ntop6 e a = Inr ip \<and> inet_toIpPort ntop6 e a = Inr (ip @ CHR '':'' # dec (unat port))"
proof -
  note F = InetAddress_ip_fields [OF assms]
  have ip: "inet_toIp ntop6 e a = Inr ip"
    using F(2,4) assms(3,4) by (cases ipv6) (simp_all add: toIp_family)
  show ?thesis
    using F(2,3) ip toIpPort_text [OF ip] text_length [OF assms(1,3)] assms(4) by simp
qed

theorem inet_text_roundtrip_witness:
  "inet_toIpPort full_ntop6 LittleEndian
     (InetAddress_ip full_pton6 LittleEndian (replicate 28 (CHR 0x00)) ''192.168.1.2'' 8080 False) = Inr ''192.168.1.2:8080''"
  using inet_text_roundtrip [OF inet6_text_full, of "replicate 28 (CHR 0x00)" "[CHR 0xC0, CHR 0xA8, CHR 0x01, CHR 0x02]" False
      "''192.168.1.2''" _ LittleEndian 8080] by (simp add: sample_ipv4)

text \<open>The text of any address with its port has at most 51 characters, is not cut off by the buffer of 64 bytes it is
  printed into, and fails no assert; an address of an unknown family is printed as its port alone.\<close>

theorem toIpPort_fits:
  assumes "inet6_text ntop6 pton6" "length a = 28"
  shows "\<exists>ip. inet_toIp ntop6 e a = Inr ip \<and> inet_toIpPort ntop6 e a = Inr (ip @ CHR '':'' # dec (unat (toPort e a))) \<and>
    length (ip @ CHR '':'' # dec (unat (toPort e a))) \<le> 51 \<and>
    (family e a \<notin> {AF_INET, AF_INET6} \<longrightarrow> ip = [])"
proof -
  obtain s where s: "inet_toIp ntop6 e a = Inr s" "length s \<le> 45" by (rule toIp_some [OF assms])
  then show ?thesis using toIpPort_text [OF s] port_text [of "toPort e a"]
    by (auto simp: inet_toIp_def toIp_def)
qed

theorem toIpPort_fits_witness:
  "\<exists>s. inet_toIpPort full_ntop6 BigEndian (replicate 28 (CHR 0x00)) = Inr s \<and> length s \<le> 51"
  using toIpPort_fits [OF inet6_text_full, of "replicate 28 (CHR 0x00)" BigEndian] by auto

lemma colon_unique:
  assumes "s @ CHR '':'' # dec m = t @ CHR '':'' # dec n"
  shows "s = t \<and> m = n"
proof -
  have cut: "takeWhile (\<lambda>c. c \<noteq> CHR '':'') (rev (u @ CHR '':'' # dec k)) = rev (dec k)" for u k
  proof -
    have "\<forall>c \<in> set (rev (dec k)). c \<noteq> CHR '':''" using dec_not_in [of "CHR '':''" k] by auto
    then show ?thesis by (subst rev_append, simp, subst takeWhile_append2) auto
  qed
  have "rev (dec m) = rev (dec n)" using cut [of s m] cut [of t n] assms by simp
  then have "dec m = dec n" by simp
  moreover from this have "m = n" by (metis undec_dec)
  ultimately show ?thesis using assms by simp
qed

lemma length_getLocalAddr [simp]: "length (getLocalAddr n) = 28" "length (getPeerAddr n) = 28"
  by (auto simp: getLocalAddr_def getPeerAddr_def split: option.splits)

lemma toIpPort_eq_iff:
  assumes "inet6_text ntop6 pton6" "length a = 28" "length b = 28"
  shows "inet_toIpPort ntop6 e a = inet_toIpPort ntop6 e b \<longleftrightarrow>
    inet_toIp ntop6 e a = inet_toIp ntop6 e b \<and> toPort e a = toPort e b"
proof -
  obtain s where s: "inet_toIp ntop6 e a = Inr s" "length s \<le> 45" by (rule toIp_some [OF assms(1,2)])
  obtain t where t: "inet_toIp ntop6 e b = Inr t" "length t \<le> 45" by (rule toIp_some [OF assms(1,3)])
  show ?thesis
    unfolding toIpPort_text [OF s] toIpPort_text [OF t] s(1) t(1) sum.inject
    using colon_unique [of s "unat (toPort e a)" t "unat (toPort e b)"] by (metis unsigned_word_eqI)
qed

lemma toPort_eq_iff: "toPort e a = toPort e b \<longleftrightarrow> portNetEndian e a = portNetEndian e b"
proof -
  have "bswap v = bswap w \<longleftrightarrow> v = w" for v w :: "16 word"
    by (metis bswap_bswap [where ?'a = 16, simplified])
  then show ?thesis by (cases e) (simp_all add: toPort_def network_defs htobe_def)
qed

lemma ntop4_inj: "length bs = 4 \<Longrightarrow> length cs = 4 \<Longrightarrow> inet_ntop4 bs = inet_ntop4 cs \<longleftrightarrow> bs = cs"
  by (metis pton4_ntop4 option.inject)

lemma ntop6_inj: "inet6_text ntop6 pton6 \<Longrightarrow> length bs = 16 \<Longrightarrow> length cs = 16 \<Longrightarrow> ntop6 bs = ntop6 cs \<longleftrightarrow> bs = cs"
  by (metis inet6_text_def option.inject)

text \<open>A socket is taken for connected to itself exactly if its two ends have the same address and port, as their texts
  show; a socket whose own address the kernel does not tell never is.\<close>

theorem isSelfConnect_iff:
  assumes "inet6_text ntop6 pton6" "family e (getLocalAddr sockname) = family e (getPeerAddr peername)"
  shows "isSelfConnect e sockname peername \<longleftrightarrow>
    family e (getLocalAddr sockname) \<in> {AF_INET, AF_INET6} \<and>
    inet_toIpPort ntop6 e (getLocalAddr sockname) = inet_toIpPort ntop6 e (getPeerAddr peername)"
proof -
  let ?l = "getLocalAddr sockname" let ?r = "getPeerAddr peername"
  consider "family e ?l = AF_INET" | "family e ?l = AF_INET6" | "family e ?l \<notin> {AF_INET, AF_INET6}" by blast
  then show ?thesis
  proof cases
    case 1
    then show ?thesis using assms(2) ntop4_inj [of "sin_addr ?l" "sin_addr ?r"]
      by (auto simp: isSelfConnect_def Let_def toIpPort_eq_iff [OF assms(1)] toIp_family toPort_eq_iff)
  next
    case 2
    then show ?thesis using assms(2) ntop6_inj [OF assms(1), of "sin6_addr ?l" "sin6_addr ?r"]
      by (auto simp: isSelfConnect_def Let_def toIpPort_eq_iff [OF assms(1)] toIp_family toPort_eq_iff)
  qed (simp add: isSelfConnect_def Let_def)
qed

theorem isSelfConnect_iff_witness:
  "isSelfConnect BigEndian (Some [CHR 0x00, CHR 0x02]) (Some [CHR 0x00, CHR 0x02])"
proof -
  have "family BigEndian (getLocalAddr (Some [CHR 0x00, CHR 0x02])) = AF_INET"
    by (simp add: family_def getLocalAddr_def AF_INET_def word_of_mem_def poke_def field_def)
  then show ?thesis
    using isSelfConnect_iff [OF inet6_text_full, of BigEndian "Some [CHR 0x00, CHR 0x02]" "Some [CHR 0x00, CHR 0x02]"]
    by (simp add: getLocalAddr_def getPeerAddr_def)
qed

text \<open>\<^verbatim>\<open>InetAddress::resolve\<close> keeps the family and the port.  On an IPv4 object it sets the address that was found.  On an
  IPv6 object it reports success and leaves the address as it was: it has overwritten the flow information.\<close>

theorem resolve_effect:
  assumes "length out = 28" "length h = 4" "family e out \<in> {AF_INET, AF_INET6}"
  shows "\<exists>out'. resolve 0 (Some (AF_INET, h)) out = Inr (True, out') \<and> family e out' = family e out \<and>
    toPort e out' = toPort e out \<and>
    inet_toIp ntop6 e out' = (if family e out = AF_INET then Inr (inet_ntop4 h) else inet_toIp ntop6 e out) \<and>
    sin6_flowinfo out' = h"
  using assms by (auto simp: resolve_def toPort_def toIp_family)

theorem resolve_effect_witness:
  "\<exists>out'. resolve 0 (Some (AF_INET, [CHR 0xC0, CHR 0xA8, CHR 0x01, CHR 0x02]))
       (InetAddress_port BigEndian (replicate 28 (CHR 0x00)) 80 True True) = Inr (True, out') \<and>
     inet_toIp full_ntop6 BigEndian out' =
       inet_toIp full_ntop6 BigEndian (InetAddress_port BigEndian (replicate 28 (CHR 0x00)) 80 True True)"
proof -
  let ?out = "InetAddress_port BigEndian (replicate 28 (CHR 0x00)) 80 True True"
  have "length ?out = 28" "family BigEndian ?out = AF_INET6"
    by (simp_all add: InetAddress_port_def Let_def in6addr_loopback_def)
  then show ?thesis
    using resolve_effect [of ?out "[CHR 0xC0, CHR 0xA8, CHR 0x01, CHR 0x02]" BigEndian full_ntop6] by auto
qed



text \<open>An endpoint made from a port alone is the wildcard address, or the loopback address, with that port.\<close>

lemma InetAddress_port_text:
  assumes "length mem = 28"
  shows "inet_toIpPort ntop6 e (InetAddress_port e mem port False False) = Inr (''0.0.0.0:'' @ dec (unat port))"
    "inet_toIpPort ntop6 e (InetAddress_port e mem port True False) = Inr (''127.0.0.1:'' @ dec (unat port))"
proof -
  have *: "inet_toIpPort ntop6 e (InetAddress_port e mem port lo False) =
      Inr (inet_ntop4 (mem_of_word BigEndian (if lo then kInaddrLoopback else kInaddrAny)) @ CHR '':'' # dec (unat port))"
    for lo
  proof -
    let ?a = "InetAddress_port e mem port lo False"
    have a: "family e ?a = AF_INET" "toPort e ?a = port"
      "sin_addr ?a = mem_of_word BigEndian (if lo then kInaddrLoopback else kInaddrAny)"
      using assms by (simp_all add: InetAddress_port_def Let_def toPort_def mem_of_htobe hostToNetwork32_def)
    show ?thesis using toIpPort_text [OF toIp_family(1) [OF a(1)]] ntop4_length [of "sin_addr ?a"] a by simp
  qed
  have d4: "le_digits 4 x = [char_of x, char_of (x div 256), char_of (x div 256 div 256), char_of (x div 256 div 256 div 256)]" for x
  proof -
    have four: "(4 :: nat) = Suc (Suc (Suc (Suc 0)))" by simp
    show ?thesis unfolding four by simp
  qed
  have "mem_of_word BigEndian kInaddrAny = [CHR 0x00, CHR 0x00, CHR 0x00, CHR 0x00]"
    "mem_of_word BigEndian kInaddrLoopback = [CHR 0x7F, CHR 0x00, CHR 0x00, CHR 0x01]"
    by (simp_all add: mem_of_word_def kInaddrAny_def kInaddrLoopback_def d4 char_of_def bit_iff_odd_drop_bit drop_bit_eq_div)
  moreover have "dec 0 = ''0''" "dec (Suc 0) = ''1''" "dec 127 = ''127''"
    by (simp_all add: dec.simps digit_def char_of_def bit_iff_odd_drop_bit drop_bit_eq_div)
  ultimately have "inet_ntop4 (mem_of_word BigEndian kInaddrAny) = ''0.0.0.0''"
    "inet_ntop4 (mem_of_word BigEndian kInaddrLoopback) = ''127.0.0.1''"
    by (simp_all add: inet_ntop4_def)
  then show "inet_toIpPort ntop6 e (InetAddress_port e mem port False False) = Inr (''0.0.0.0:'' @ dec (unat port))"
    "inet_toIpPort ntop6 e (InetAddress_port e mem port True False) = Inr (''127.0.0.1:'' @ dec (unat port))"
    using * [of False] * [of True] by simp_all
qed

lemma InetAddress_port_text_sample:
  "inet_toIpPort full_ntop6 LittleEndian (InetAddress_port LittleEndian (replicate 28 (CHR 0x00)) 8080 True False) =
     Inr ''127.0.0.1:8080''"
  using InetAddress_port_text(2) [of "replicate 28 (CHR 0x00)" full_ntop6 LittleEndian 8080] by (simp add: sample_ipv4)

end
