(* ===== verification/Lute_TCPServer.thy ===== *)
theory Lute_TCPServer
  imports Lute_LoopThread Lute_TCPConnection Lute_InetAddress
begin

text \<open>
  The server, \<^verbatim>\<open>polaris/src/TCPServer.cc\<close>: the map of connections, their names, and their life across loops.  Here a
  connection is its name, its loop and its \<^verbatim>\<open>state_\<close>; what \<^verbatim>\<open>connectEstablished\<close>, \<^verbatim>\<open>handleClose\<close> and
  \<^verbatim>\<open>connectDestroyed\<close> do inside of a connection is modelled in the theory of connections.  Each loop has a queue
  of functors, which other threads fill; the loops run in any interleaving.
\<close>

record sconn =
  sc_name :: string
  sc_loop :: nat
  sc_state :: conn_state

datatype server_functor =
    EstablishConn addr       \<comment> \<open>\<^verbatim>\<open>TCPConnection::connectEstablished\<close>\<close>
  | RemoveInLoop addr        \<comment> \<open>\<^verbatim>\<open>TCPServer::removeConnectionInLoop\<close>\<close>
  | DestroyConn addr         \<comment> \<open>\<^verbatim>\<open>TCPConnection::connectDestroyed\<close>\<close>

text \<open>
  \<open>s_objs\<close> are the connection objects; \<open>s_queues\<close> the functors queued to each loop; \<open>s_alive\<close> is whether the server
  object exists.  For the specification, \<open>s_destroyed\<close> records the connections on which \<^verbatim>\<open>connectDestroyed\<close> was run.
\<close>

record server =
  s_ipPort :: string
  s_name :: string
  s_nextConnId :: nat
  s_connections :: "string \<rightharpoonup> addr"
  s_objs :: "addr \<rightharpoonup> sconn"
  s_pool :: pool
  s_started :: bool
  s_listenning :: bool
  s_queues :: "nat \<Rightarrow> server_functor list"
  s_alive :: bool
  s_destroyed :: "addr list"

section \<open>Operations\<close>

definition TCPServer :: "nat \<Rightarrow> string \<Rightarrow> string \<Rightarrow> server" where
  "TCPServer loop ipPort name = \<lparr>s_ipPort = ipPort, s_name = name, s_nextConnId = 1, s_connections = Map.empty,
     s_objs = Map.empty, s_pool = EventLoopThreadPool loop name, s_started = False, s_listenning = False,
     s_queues = (\<lambda>_. []), s_alive = True, s_destroyed = []\<rparr>"

text \<open>The pool is started in the thread of the base loop, so that \<^verbatim>\<open>runInLoop\<close> runs \<^verbatim>\<open>Acceptor::listen\<close> at once.\<close>

definition server_start :: "(nat \<Rightarrow> nat) \<Rightarrow> bool \<Rightarrow> bool \<Rightarrow> server \<Rightarrow> server result" where
  "server_start startLoop inBase hasCallback s =
     (if \<not> s_started s
      then bindR (pool_start startLoop inBase hasCallback (s_pool s)) (\<lambda>(p, _).
        assertR (\<not> s_listenning s) (Inr (s\<lparr>s_pool := p, s_started := True, s_listenning := True\<rparr>)))
      else Inr s)"

definition server_setThreadNum :: "int \<Rightarrow> server \<Rightarrow> server result" where
  "server_setThreadNum n s = assertR (0 \<le> n) (Inr (s\<lparr>s_pool := setThreadNum n (s_pool s)\<rparr>))"

text \<open>A use of the server object after its destruction.\<close>

definition server_deref :: "server \<Rightarrow> 'a result \<Rightarrow> 'a result" where
  "server_deref s m = (if s_alive s then m else Inl UseAfterFree)"

definition queue_to :: "nat \<Rightarrow> server_functor \<Rightarrow> server \<Rightarrow> server" where
  "queue_to l f s = s\<lparr>s_queues := (s_queues s)(l := s_queues s l @ [f])\<rparr>"

definition conn_deref :: "addr \<Rightarrow> server \<Rightarrow> (sconn \<Rightarrow> 'a result) \<Rightarrow> 'a result" where
  "conn_deref p s f = (case s_objs s p of None \<Rightarrow> Inl UseAfterFree | Some c \<Rightarrow> f c)"

definition set_conn :: "addr \<Rightarrow> sconn \<Rightarrow> server \<Rightarrow> server" where
  "set_conn p c s = s\<lparr>s_objs := (s_objs s)(p \<mapsto> c)\<rparr>"

definition conn_name :: "server \<Rightarrow> string" where
  "conn_name s = s_name s @ take 63 (''-'' @ s_ipPort s @ ''#'' @ dec (s_nextConnId s))"

definition do_establish :: "addr \<Rightarrow> server \<Rightarrow> server result" where
  "do_establish p s =
     conn_deref p s (\<lambda>c. assertR (sc_state c = kConnecting) (Inr (set_conn p (c\<lparr>sc_state := kConnected\<rparr>) s)))"

text \<open>\<^verbatim>\<open>connectDestroyed\<close>: its \<^verbatim>\<open>Channel::remove\<close> fails an assert if the channel still watches (the state
  \<^verbatim>\<open>kDisconnecting\<close>) or is not registered (not established yet, or removed before).\<close>

definition do_destroy :: "addr \<Rightarrow> server \<Rightarrow> server result" where
  "do_destroy p s =
     conn_deref p s (\<lambda>c.
       assertR ((sc_state c = kConnected \<or> sc_state c = kDisconnected) \<and> p \<notin> set (s_destroyed s))
         (Inr ((set_conn p (c\<lparr>sc_state := kDisconnected\<rparr>) s)\<lparr>s_destroyed := s_destroyed s @ [p]\<rparr>)))"

definition shutdown_conn :: "addr \<Rightarrow> server \<Rightarrow> server result" where
  "shutdown_conn p s =
     conn_deref p s (\<lambda>c. Inr (if sc_state c = kConnected then set_conn p (c\<lparr>sc_state := kDisconnecting\<rparr>) s else s))"

text \<open>\<^verbatim>\<open>newConnection\<close>, in the base loop; the new connection is at the address \<open>p\<close>.\<close>

definition newConnection :: "addr \<Rightarrow> server \<Rightarrow> server result" where
  "newConnection p s =
     bindR (getNextLoop True (s_pool s)) (\<lambda>(ioLoop, pool1).
       let connName = conn_name s;
           s1 = s\<lparr>s_pool := pool1, s_nextConnId := s_nextConnId s + 1,
                  s_objs := (s_objs s)(p \<mapsto> \<lparr>sc_name = connName, sc_loop = ioLoop, sc_state = kConnecting\<rparr>),
                  s_connections := (s_connections s)(connName \<mapsto> p)\<rparr>
       in if ioLoop = p_base pool1 then do_establish p s1 else Inr (queue_to ioLoop (EstablishConn p) s1))"

definition removeConnectionInLoop :: "addr \<Rightarrow> server \<Rightarrow> server result" where
  "removeConnectionInLoop p s =
     server_deref s (conn_deref p s (\<lambda>c.
       assertR (s_connections s (sc_name c) \<noteq> None)
         (Inr (queue_to (sc_loop c) (DestroyConn p)
           (s\<lparr>s_connections := (s_connections s)(sc_name c := None)\<rparr>)))))"

text \<open>\<open>l\<close> is the loop whose thread calls.\<close>

definition removeConnection :: "nat \<Rightarrow> addr \<Rightarrow> server \<Rightarrow> server result" where
  "removeConnection l p s =
     server_deref s
       (if l = p_base (s_pool s) then removeConnectionInLoop p s
        else Inr (queue_to (p_base (s_pool s)) (RemoveInLoop p) s))"

text \<open>The close of a connection as the server sees it: \<^verbatim>\<open>handleClose\<close> in the loop of the connection.\<close>

definition close_conn :: "addr \<Rightarrow> server \<Rightarrow> server result" where
  "close_conn p s =
     conn_deref p s (\<lambda>c.
       assertR (sc_state c = kConnected \<or> sc_state c = kDisconnecting)
         (removeConnection (sc_loop c) p (set_conn p (c\<lparr>sc_state := kDisconnected\<rparr>) s)))"

definition run_server_functor :: "server_functor \<Rightarrow> server \<Rightarrow> server result" where
  "run_server_functor f s =
     (case f of EstablishConn p \<Rightarrow> do_establish p s | RemoveInLoop p \<Rightarrow> removeConnectionInLoop p s | DestroyConn p \<Rightarrow> do_destroy p s)"

definition run_next :: "nat \<Rightarrow> server \<Rightarrow> server result" where
  "run_next l s =
     (case s_queues s l of [] \<Rightarrow> Inr s | f # fs \<Rightarrow> run_server_functor f (s\<lparr>s_queues := (s_queues s)(l := fs)\<rparr>))"

text \<open>The destructor, in the base loop: \<open>ps\<close> are the connections in the order of their names.\<close>

definition destroy_one :: "addr \<Rightarrow> server \<Rightarrow> server result" where
  "destroy_one p s =
     conn_deref p s (\<lambda>c. if sc_loop c = p_base (s_pool s) then do_destroy p s
                         else Inr (queue_to (sc_loop c) (DestroyConn p) s))"

definition TCPServer_dtor :: "addr list \<Rightarrow> server \<Rightarrow> server result" where
  "TCPServer_dtor ps s = bindR (foldR destroy_one ps s) (\<lambda>s1. Inr (s1\<lparr>s_connections := Map.empty, s_alive := False\<rparr>))"

section \<open>Names\<close>

text \<open>The longest text of an address is that of an IPv6 address with its port: 45 + 1 + 5 characters.\<close>

definition names_fit :: "server \<Rightarrow> bool" where
  "names_fit s \<longleftrightarrow> length (s_ipPort s) \<le> 51"

definition name_of_id :: "server \<Rightarrow> nat \<Rightarrow> string" where
  "name_of_id s i = s_name s @ ''-'' @ s_ipPort s @ ''#'' @ dec i"

lemma name_of_id_inj: "name_of_id s i = name_of_id s j \<longleftrightarrow> i = j"
  using undec_dec by (metis name_of_id_def same_append_eq)

lemma conn_name_id:
  assumes "names_fit s" "s_nextConnId s < 2 ^ 31"
  shows "conn_name s = name_of_id s (s_nextConnId s)"
proof -
  have "length (dec (s_nextConnId s)) \<le> 10" using assms(2) by (intro dec_length) auto
  then show ?thesis using assms(1) by (simp add: conn_name_def name_of_id_def names_fit_def)
qed

section \<open>The invariant\<close>

text \<open>Where the functors of a connection may be queued, by its state.\<close>

definition functor_ok :: "server \<Rightarrow> nat \<Rightarrow> server_functor \<Rightarrow> bool" where
  "functor_ok s l f \<longleftrightarrow>
     (case f of
        EstablishConn p \<Rightarrow> (\<exists>c. s_objs s p = Some c \<and> sc_loop c = l \<and> sc_state c = kConnecting)
      | RemoveInLoop p \<Rightarrow> (\<exists>c. s_objs s p = Some c \<and> l = p_base (s_pool s) \<and> sc_state c = kDisconnected \<and>
          s_connections s (sc_name c) = Some p)
      | DestroyConn p \<Rightarrow> (\<exists>c. s_objs s p = Some c \<and> sc_loop c = l \<and> sc_state c = kDisconnected \<and>
          s_connections s (sc_name c) = None \<and> p \<notin> set (s_destroyed s)))"

definition phase_ok :: "server \<Rightarrow> addr \<Rightarrow> sconn \<Rightarrow> bool" where
  "phase_ok s p c \<longleftrightarrow>
     (case sc_state c of
        kConnecting \<Rightarrow> s_connections s (sc_name c) = Some p \<and> EstablishConn p \<in> set (s_queues s (sc_loop c))
      | kDisconnected \<Rightarrow>
          RemoveInLoop p \<in> set (s_queues s (p_base (s_pool s))) \<or> DestroyConn p \<in> set (s_queues s (sc_loop c)) \<or> p \<in> set (s_destroyed s)
      | _ \<Rightarrow> s_connections s (sc_name c) = Some p)"

definition server_inv :: "server \<Rightarrow> bool" where
  "server_inv s \<longleftrightarrow>
     s_alive s \<and> names_fit s \<and> pool_inv (s_pool s) \<and> p_started (s_pool s) \<and>
     (\<forall>l. distinct (s_queues s l) \<and> (\<forall>f \<in> set (s_queues s l). functor_ok s l f)) \<and>
     (\<forall>p c. s_objs s p = Some c \<longrightarrow> phase_ok s p c \<and> (\<exists>i < s_nextConnId s. sc_name c = name_of_id s i)) \<and>
     (\<forall>p q c d. s_objs s p = Some c \<longrightarrow> s_objs s q = Some d \<longrightarrow> sc_name c = sc_name d \<longrightarrow> p = q) \<and>
     (\<forall>n p. s_connections s n = Some p \<longrightarrow> (\<exists>c. s_objs s p = Some c \<and> sc_name c = n)) \<and>
     distinct (s_destroyed s) \<and>
     (\<forall>p \<in> set (s_destroyed s). \<exists>c. s_objs s p = Some c \<and> sc_state c = kDisconnected \<and> s_connections s (sc_name c) = None)"

datatype server_cmd = NewConn addr | CloseConn addr | ShutdownConn addr | RunLoop nat

fun server_exec :: "server_cmd \<Rightarrow> server \<Rightarrow> server result" where
  "server_exec (NewConn p) s = newConnection p s"
| "server_exec (CloseConn p) s = close_conn p s"
| "server_exec (ShutdownConn p) s = shutdown_conn p s"
| "server_exec (RunLoop l) s = run_next l s"

fun server_ok :: "server_cmd \<Rightarrow> server \<Rightarrow> bool" where
  "server_ok (NewConn p) s = (s_objs s p = None \<and> s_nextConnId s < 2 ^ 31)"
| "server_ok (CloseConn p) s = (\<exists>c. s_objs s p = Some c \<and> (sc_state c = kConnected \<or> sc_state c = kDisconnecting))"
| "server_ok (ShutdownConn p) s = (s_objs s p \<noteq> None)"
| "server_ok (RunLoop l) s = True"

lemma server_invD:
  assumes "server_inv s"
  shows "s_alive s" "names_fit s" "pool_inv (s_pool s)" "p_started (s_pool s)" "distinct (s_queues s l)"
    "f \<in> set (s_queues s l) \<Longrightarrow> functor_ok s l f" "s_objs s p = Some c \<Longrightarrow> phase_ok s p c"
    "s_objs s p = Some c \<Longrightarrow> \<exists>i < s_nextConnId s. sc_name c = name_of_id s i"
    "s_objs s p = Some c \<Longrightarrow> s_objs s q = Some d \<Longrightarrow> sc_name c = sc_name d \<Longrightarrow> p = q"
    "s_connections s n = Some p \<Longrightarrow> \<exists>c. s_objs s p = Some c \<and> sc_name c = n" "distinct (s_destroyed s)"
    "p \<in> set (s_destroyed s) \<Longrightarrow> \<exists>c. s_objs s p = Some c \<and> sc_state c = kDisconnected \<and> s_connections s (sc_name c) = None"
  using assms unfolding server_inv_def by blast+

text \<open>The connection that a functor concerns; the functors of one connection depend on it alone.\<close>

fun functor_conn :: "server_functor \<Rightarrow> addr" where
  "functor_conn (EstablishConn p) = p"
| "functor_conn (RemoveInLoop p) = p"
| "functor_conn (DestroyConn p) = p"

text \<open>Two server states that agree on a connection: its object, its entry, and whether it was destroyed.\<close>

definition agree :: "addr \<Rightarrow> server \<Rightarrow> server \<Rightarrow> bool" where
  "agree q s t \<longleftrightarrow> s_objs t q = s_objs s q \<and> (q \<in> set (s_destroyed t) \<longleftrightarrow> q \<in> set (s_destroyed s)) \<and>
     p_base (s_pool t) = p_base (s_pool s) \<and>
     (\<forall>c. s_objs s q = Some c \<longrightarrow> s_connections t (sc_name c) = s_connections s (sc_name c))"

lemma agree_functor: "agree (functor_conn f) s t \<Longrightarrow> functor_ok t l f = functor_ok s l f"
  by (cases f) (auto simp: agree_def functor_ok_def)

lemma agree_phase:
  assumes "agree q s t" "s_objs s q = Some c"
    "\<And>l f. functor_conn f = q \<Longrightarrow> f \<in> set (s_queues s l) \<Longrightarrow> f \<in> set (s_queues t l)" "phase_ok s q c"
  shows "phase_ok t q c"
  using assms(1,2,4) assms(3) [of "EstablishConn q"] assms(3) [of "RemoveInLoop q"] assms(3) [of "DestroyConn q"]
  by (auto simp: agree_def phase_ok_def split: conn_state.splits)

text \<open>A step that concerns one connection \<open>p\<close>: what is left to show of the invariant.\<close>

lemma server_inv_step:
  assumes inv: "server_inv s"
    and fixed: "s_alive t" "s_ipPort t = s_ipPort s" "s_name t = s_name s" "pool_inv (s_pool t)" "p_started (s_pool t)"
      "s_nextConnId s \<le> s_nextConnId t"
    and others: "\<And>q. q \<noteq> p \<Longrightarrow> agree q s t"
      "\<And>l f. functor_conn f \<noteq> p \<Longrightarrow> f \<in> set (s_queues t l) \<longleftrightarrow> f \<in> set (s_queues s l)"
    and queues: "\<And>l. distinct (s_queues t l)" "\<And>l f. functor_conn f = p \<Longrightarrow> f \<in> set (s_queues t l) \<Longrightarrow> functor_ok t l f"
    and obj: "s_objs t p = Some c" "phase_ok t p c" "\<exists>i < s_nextConnId t. sc_name c = name_of_id t i"
      "\<And>q d. q \<noteq> p \<Longrightarrow> s_objs s q = Some d \<Longrightarrow> sc_name d \<noteq> sc_name c"
    and conns: "\<And>n. s_connections t n = Some p \<Longrightarrow> n = sc_name c"
      "\<And>n q. q \<noteq> p \<Longrightarrow> s_connections t n = Some q \<Longrightarrow> s_connections s n = Some q"
    and destroyed: "distinct (s_destroyed t)"
      "p \<in> set (s_destroyed t) \<Longrightarrow> sc_state c = kDisconnected \<and> s_connections t (sc_name c) = None"
  shows "server_inv t"
proof -
  note D = server_invD [OF inv]
  have o: "s_objs t q = s_objs s q" "q \<in> set (s_destroyed t) \<longleftrightarrow> q \<in> set (s_destroyed s)" if "q \<noteq> p" for q
    using others(1) [OF that] by (auto simp: agree_def)
  have nm: "name_of_id t i = name_of_id s i" for i using fixed(2,3) by (simp add: name_of_id_def)
  have "functor_ok t l f" if f: "f \<in> set (s_queues t l)" for l f
  proof (cases "functor_conn f = p")
    case False
    then show ?thesis using D(6) others f agree_functor by metis
  qed (use queues(2) f in blast)
  moreover have "phase_ok t q d \<and> (\<exists>i < s_nextConnId t. sc_name d = name_of_id t i)" if d: "s_objs t q = Some d" for q d
  proof (cases "q = p")
    case False
    then have "phase_ok t q d" using agree_phase [OF others(1) [OF False], of d] others(2) D(7) o(1) d by metis
    moreover have "\<exists>i < s_nextConnId t. sc_name d = name_of_id t i"
      using D(8) [of q d] o(1) [OF False] d fixed(6) nm by (metis less_le_trans)
    ultimately show ?thesis by blast
  qed (use obj d in auto)
  moreover have "q = r" if "s_objs t q = Some d" "s_objs t r = Some e" "sc_name d = sc_name e" for q r d e
    using that D(9) [of q d r e] obj(1,4) o(1) by (cases "q = p"; cases "r = p") fastforce+
  moreover have "\<exists>d. s_objs t q = Some d \<and> sc_name d = n" if "s_connections t n = Some q" for n q
    using that conns obj(1) D(10) o(1) by (cases "q = p") fastforce+
  moreover have "\<exists>d. s_objs t q = Some d \<and> sc_state d = kDisconnected \<and> s_connections t (sc_name d) = None"
    if q: "q \<in> set (s_destroyed t)" for q
  proof (cases "q = p")
    case False
    then show ?thesis using D(12) [of q] o [OF False] others(1) [OF False] q by (auto simp: agree_def)
  qed (use destroyed(2) obj(1) q in blast)
  ultimately show ?thesis
    using fixed queues(1) destroyed(1) D(2) unfolding server_inv_def names_fit_def by simp
qed

lemma queue_fresh:
  assumes "server_inv s" "s_objs s p = None"
  shows "functor_conn f = p \<Longrightarrow> f \<notin> set (s_queues s l)" "s_connections s n \<noteq> Some p" "p \<notin> set (s_destroyed s)"
  using server_invD(6) [OF assms(1), of f l] server_invD(10) [OF assms(1), of n p] server_invD(12) [OF assms(1), of p] assms(2)
  by (cases f; auto simp: functor_ok_def)+

text \<open>Which functors of a connection are queued where, by its state.\<close>

lemma queued_where:
  assumes "server_inv s" "s_objs s p = Some c" "f \<in> set (s_queues s l)" "functor_conn f = p"
  shows "f = EstablishConn p \<and> l = sc_loop c \<and> sc_state c = kConnecting \<or>
    f = RemoveInLoop p \<and> l = p_base (s_pool s) \<and> sc_state c = kDisconnected \<and> s_connections s (sc_name c) = Some p \<or>
    f = DestroyConn p \<and> l = sc_loop c \<and> sc_state c = kDisconnected \<and> s_connections s (sc_name c) = None \<and> p \<notin> set (s_destroyed s)"
  using server_invD(6) [OF assms(1,3)] assms(2,4) by (cases f) (auto simp: functor_ok_def)

text \<open>The name of another connection is another name.\<close>

lemma other_name:
  assumes "server_inv s" "s_objs s p = Some c" "q \<noteq> p" "s_objs s q = Some d"
  shows "sc_name d \<noteq> sc_name c"
  using server_invD(9) [OF assms(1,4,2)] assms(3) by blast

lemma own_entry:
  assumes "server_inv s" "s_objs s p = Some c" "s_connections s n = Some p"
  shows "n = sc_name c"
  using server_invD(10) [OF assms(1,3)] assms(2) by auto

lemma entry_None:
  assumes "server_inv s" "s_objs s p = Some c" "s_connections s (sc_name c) \<noteq> Some p"
  shows "s_connections s (sc_name c) = None"
proof (rule ccontr)
  assume "s_connections s (sc_name c) \<noteq> None"
  then obtain q where q: "s_connections s (sc_name c) = Some q" by blast
  with server_invD(10) [OF assms(1) q] server_invD(9) [OF assms(1,2), of q] assms(3) show False by auto
qed

text \<open>A step on a connection that exists: it may change its state, its entry, its functors and whether it is destroyed.\<close>

lemma server_inv_conn:
  assumes inv: "server_inv s" and c: "s_objs s p = Some c" and c': "sc_name c' = sc_name c"
    and t: "t = s\<lparr>s_objs := (s_objs s)(p \<mapsto> c'), s_queues := Q, s_connections := C, s_destroyed := X\<rparr>"
    and C: "\<And>n. n \<noteq> sc_name c \<Longrightarrow> C n = s_connections s n" "C (sc_name c) \<in> {None, Some p}"
    and Q: "\<And>l f. functor_conn f \<noteq> p \<Longrightarrow> f \<in> set (Q l) \<longleftrightarrow> f \<in> set (s_queues s l)" "\<And>l. distinct (Q l)"
      "\<And>l f. functor_conn f = p \<Longrightarrow> f \<in> set (Q l) \<Longrightarrow> functor_ok t l f"
    and ph: "phase_ok t p c'"
    and X: "distinct X" "\<And>q. q \<noteq> p \<Longrightarrow> q \<in> set X \<longleftrightarrow> q \<in> set (s_destroyed s)"
      "p \<in> set X \<Longrightarrow> sc_state c' = kDisconnected \<and> C (sc_name c) = None"
  shows "server_inv t"
proof (rule server_inv_step [OF inv, of t p c'])
  note D = server_invD [OF inv]
  show "\<exists>i < s_nextConnId t. sc_name c' = name_of_id t i" using D(8) [OF c] c' t by (auto simp: name_of_id_def)
  show "agree q s t" if "q \<noteq> p" for q
    using that C(1) other_name [OF inv c that] X(2) by (auto simp: agree_def t)
  show "sc_name d \<noteq> sc_name c'" if "q \<noteq> p" "s_objs s q = Some d" for q d using other_name [OF inv c that] c' by simp
  show "n = sc_name c'" if "s_connections t n = Some p" for n
    using that C(1) [of n] own_entry [OF inv c, of n] c' by (cases "n = sc_name c") (simp_all add: t)
  show "s_connections s n = Some q" if "q \<noteq> p" "s_connections t n = Some q" for n q
    using that C(1) [of n] C(2) by (cases "n = sc_name c") (auto simp: t)
qed (use server_invD(1,3,4) [OF inv] Q X ph t c' in simp_all)

lemma run_establish:
  assumes inv: "server_inv s" and q: "s_queues s l = EstablishConn p # fs"
  shows "\<exists>t. run_next l s = Inr t \<and> server_inv t"
proof -
  note D = server_invD [OF inv]
  obtain c where c: "s_objs s p = Some c" "sc_loop c = l" "sc_state c = kConnecting"
    using D(6) [of "EstablishConn p" l] q by (auto simp: functor_ok_def)
  have e: "s_connections s (sc_name c) = Some p" using D(7) [OF c(1)] c(3) by (simp add: phase_ok_def)
  have nd: "p \<notin> set (s_destroyed s)" using D(12) [of p] c(1,3) by auto
  let ?Q = "(s_queues s)(l := fs)"
  let ?t = "s\<lparr>s_objs := (s_objs s)(p \<mapsto> c\<lparr>sc_state := kConnected\<rparr>), s_queues := ?Q, s_connections := s_connections s,
    s_destroyed := s_destroyed s\<rparr>"
  have none: "f \<notin> set (?Q l')" if "functor_conn f = p" for l' f
  proof
    assume f: "f \<in> set (?Q l')"
    then have "f \<in> set (s_queues s l')" using q by (auto split: if_splits)
    from queued_where [OF inv c(1) this that] c have "f = EstablishConn p" "l' = l" by auto
    then show False using f D(5) [of l] q by auto
  qed
  have "run_next l s = Inr ?t"
    using q c by (simp add: run_next_def run_server_functor_def do_establish_def conn_deref_def set_conn_def)
  moreover have "server_inv ?t"
  proof (rule server_inv_conn [OF inv c(1) _ refl])
    show "distinct (?Q l')" for l' using D(5) [of l'] D(5) [of l] q by simp
    show "f \<in> set (?Q l') \<longleftrightarrow> f \<in> set (s_queues s l')" if "functor_conn f \<noteq> p" for l' f using that q by auto
  qed (use none e nd D(11) in \<open>auto simp: phase_ok_def\<close>)
  ultimately show ?thesis by blast
qed

lemma run_remove:
  assumes inv: "server_inv s" and q: "s_queues s l = RemoveInLoop p # fs"
  shows "\<exists>t. run_next l s = Inr t \<and> server_inv t"
proof -
  note D = server_invD [OF inv]
  obtain c where c: "s_objs s p = Some c" "l = p_base (s_pool s)" "sc_state c = kDisconnected" "s_connections s (sc_name c) = Some p"
    using D(6) [of "RemoveInLoop p" l] q by (auto simp: functor_ok_def)
  have nd: "p \<notin> set (s_destroyed s)" using D(12) [of p] c(1,4) by auto
  let ?R = "(s_queues s)(l := fs)"
  let ?Q = "?R(sc_loop c := ?R (sc_loop c) @ [DestroyConn p])"
  let ?t = "s\<lparr>s_objs := (s_objs s)(p \<mapsto> c), s_queues := ?Q, s_connections := (s_connections s)(sc_name c := None),
    s_destroyed := s_destroyed s\<rparr>"
  have none: "f \<notin> set (?R l')" if "functor_conn f = p" for l' f
  proof
    assume f: "f \<in> set (?R l')"
    then have "f \<in> set (s_queues s l')" using q by (auto split: if_splits)
    from queued_where [OF inv c(1) this that] c have "f = RemoveInLoop p" "l' = l" by auto
    then show False using f D(5) [of l] q by auto
  qed
  have "run_next l s = Inr ?t"
    using q c D(1) fun_upd_idem [of "s_objs s" p]
    by (simp add: run_next_def run_server_functor_def removeConnectionInLoop_def conn_deref_def server_deref_def queue_to_def)
  moreover have "server_inv ?t"
  proof (rule server_inv_conn [OF inv c(1) _ refl])
    show "distinct (?Q l')" for l' using D(5) [of l'] D(5) [of l] q none [of "DestroyConn p" l'] by auto
    show "f \<in> set (?Q l') \<longleftrightarrow> f \<in> set (s_queues s l')" if "functor_conn f \<noteq> p" for l' f using that q by auto
    show "functor_ok ?t l' f" if "functor_conn f = p" "f \<in> set (?Q l')" for l' f
      using that none [OF that(1)] c nd by (auto simp: functor_ok_def split: if_splits)
  qed (use nd c D(11) in \<open>auto simp: phase_ok_def\<close>)
  ultimately show ?thesis by blast
qed

lemma run_destroy:
  assumes inv: "server_inv s" and q: "s_queues s l = DestroyConn p # fs"
  shows "\<exists>t. run_next l s = Inr t \<and> server_inv t"
proof -
  note D = server_invD [OF inv]
  obtain c where c: "s_objs s p = Some c" "sc_loop c = l" "sc_state c = kDisconnected" "s_connections s (sc_name c) = None"
      "p \<notin> set (s_destroyed s)"
    using D(6) [of "DestroyConn p" l] q by (auto simp: functor_ok_def)
  let ?Q = "(s_queues s)(l := fs)"
  let ?t = "s\<lparr>s_objs := (s_objs s)(p \<mapsto> c\<lparr>sc_state := kDisconnected\<rparr>), s_queues := ?Q, s_connections := s_connections s,
    s_destroyed := s_destroyed s @ [p]\<rparr>"
  have none: "f \<notin> set (?Q l')" if "functor_conn f = p" for l' f
  proof
    assume f: "f \<in> set (?Q l')"
    then have "f \<in> set (s_queues s l')" using q by (auto split: if_splits)
    from queued_where [OF inv c(1) this that] c have "f = DestroyConn p" "l' = l" by auto
    then show False using f D(5) [of l] q by auto
  qed
  have "run_next l s = Inr ?t"
    using q c by (simp add: run_next_def run_server_functor_def do_destroy_def conn_deref_def set_conn_def)
  moreover have "server_inv ?t"
  proof (rule server_inv_conn [OF inv c(1) _ refl])
    show "distinct (?Q l')" for l' using D(5) [of l'] D(5) [of l] q by simp
    show "f \<in> set (?Q l') \<longleftrightarrow> f \<in> set (s_queues s l')" if "functor_conn f \<noteq> p" for l' f using that q by auto
  qed (use none c D(11) in \<open>auto simp: phase_ok_def\<close>)
  ultimately show ?thesis by blast
qed

lemma shutdown_conn_ok:
  assumes inv: "server_inv s" and c: "s_objs s p = Some c"
  shows "\<exists>t. shutdown_conn p s = Inr t \<and> server_inv t"
proof (cases "sc_state c = kConnected")
  case True
  note D = server_invD [OF inv]
  have e: "s_connections s (sc_name c) = Some p" using D(7) [OF c] True by (simp add: phase_ok_def)
  let ?t = "s\<lparr>s_objs := (s_objs s)(p \<mapsto> c\<lparr>sc_state := kDisconnecting\<rparr>), s_queues := s_queues s, s_connections := s_connections s,
    s_destroyed := s_destroyed s\<rparr>"
  have "shutdown_conn p s = Inr ?t" using c True by (simp add: shutdown_conn_def conn_deref_def set_conn_def)
  moreover have "server_inv ?t"
  proof (rule server_inv_conn [OF inv c _ refl])
    show "functor_ok ?t l f" if "functor_conn f = p" "f \<in> set (s_queues s l)" for l f
      using queued_where [OF inv c that(2,1)] True by auto
  qed (use e D(5,11) D(12) [of p] c True in \<open>auto simp: phase_ok_def\<close>)
  ultimately show ?thesis by blast
qed (use inv c in \<open>simp add: shutdown_conn_def conn_deref_def\<close>)

lemma close_conn_ok:
  assumes inv: "server_inv s" and c: "s_objs s p = Some c" "sc_state c = kConnected \<or> sc_state c = kDisconnecting"
  shows "\<exists>t. close_conn p s = Inr t \<and> server_inv t"
proof -
  note D = server_invD [OF inv]
  have e: "s_connections s (sc_name c) = Some p" using D(7) [OF c(1)] c(2) by (auto simp: phase_ok_def)
  have nd: "p \<notin> set (s_destroyed s)" using D(12) [of p] c(1) e by auto
  have none: "f \<notin> set (s_queues s l)" if "functor_conn f = p" for l f
    using queued_where [OF inv c(1) _ that] c(2) by auto
  let ?b = "p_base (s_pool s)"
  let ?f = "if sc_loop c = ?b then DestroyConn p else RemoveInLoop p"
  let ?Q = "(s_queues s)(?b := s_queues s ?b @ [?f])"
  let ?C = "if sc_loop c = ?b then (s_connections s)(sc_name c := None) else s_connections s"
  let ?t = "s\<lparr>s_objs := (s_objs s)(p \<mapsto> c\<lparr>sc_state := kDisconnected\<rparr>), s_queues := ?Q, s_connections := ?C,
    s_destroyed := s_destroyed s\<rparr>"
  have "close_conn p s = Inr ?t"
    using c e D(1)
    by (auto simp: close_conn_def conn_deref_def removeConnection_def removeConnectionInLoop_def server_deref_def queue_to_def set_conn_def)
  moreover have "server_inv ?t"
  proof (rule server_inv_conn [OF inv c(1) _ refl])
    show "distinct (?Q l)" for l using D(5) [of l] D(5) [of ?b] none [of ?f] by auto
    show "f \<in> set (?Q l) \<longleftrightarrow> f \<in> set (s_queues s l)" if "functor_conn f \<noteq> p" for l f using that by (cases f) auto
    show "functor_ok ?t l f" if "functor_conn f = p" "f \<in> set (?Q l)" for l f
      using that none [OF that(1)] e nd by (auto simp: functor_ok_def split: if_splits)
  qed (use nd e D(11) in \<open>auto simp: phase_ok_def\<close>)
  ultimately show ?thesis by blast
qed

lemma newConnection_ok:
  assumes inv: "server_inv s" and p: "s_objs s p = None" and id: "s_nextConnId s < 2 ^ 31"
  shows "\<exists>t. newConnection p s = Inr t \<and> server_inv t"
proof -
  note D = server_invD [OF inv]
  note fresh = queue_fresh [OF inv p]
  obtain l pool1 where g: "getNextLoop True (s_pool s) = Inr (l, pool1)" "pool_inv pool1" "p_started pool1"
    using getNextLoop_ok [OF D(3,4), of "p_next (s_pool s)"] by auto
  have base: "p_base pool1 = p_base (s_pool s)"
    using g(1) by (auto simp: getNextLoop_def assertBase_def assertR_def Let_def split: if_splits)
  have name: "conn_name s = name_of_id s (s_nextConnId s)" using conn_name_id [OF D(2) id] .
  have new: "sc_name d \<noteq> conn_name s" if "s_objs s q = Some d" for q d
    using D(8) [OF that] name name_of_id_inj by auto
  let ?st = "if l = p_base pool1 then kConnected else kConnecting"
  let ?c = "\<lparr>sc_name = conn_name s, sc_loop = l, sc_state = ?st\<rparr>"
  let ?Q = "if l = p_base pool1 then s_queues s else (s_queues s)(l := s_queues s l @ [EstablishConn p])"
  let ?t = "s\<lparr>s_pool := pool1, s_nextConnId := s_nextConnId s + 1, s_objs := (s_objs s)(p \<mapsto> ?c),
    s_connections := (s_connections s)(conn_name s \<mapsto> p), s_queues := ?Q\<rparr>"
  have "newConnection p s = Inr ?t"
    using g(1) by (auto simp: newConnection_def do_establish_def conn_deref_def set_conn_def queue_to_def Let_def)
  moreover have "server_inv ?t"
  proof (rule server_inv_step [OF inv, of ?t p ?c])
    show "distinct (s_queues ?t l')" for l' using D(5) [of l'] fresh(1) [of "EstablishConn p" l'] by auto
    show "functor_ok ?t l' f" if "functor_conn f = p" "f \<in> set (s_queues ?t l')" for l' f
      using that fresh(1) [OF that(1)] by (auto simp: functor_ok_def split: if_splits)
    show "f \<in> set (s_queues ?t l') \<longleftrightarrow> f \<in> set (s_queues s l')" if "functor_conn f \<noteq> p" for l' f
      using that by (cases f) auto
    show "agree q s ?t" if "q \<noteq> p" for q using that new [of q] base by (auto simp: agree_def)
    show "\<exists>i < s_nextConnId ?t. sc_name ?c = name_of_id ?t i"
      using name by (intro exI [of _ "s_nextConnId s"]) (simp add: name_of_id_def)
    show "n = sc_name ?c" if "s_connections ?t n = Some p" for n using that fresh(2) [of n] by (auto split: if_splits)
    show "s_connections s n = Some q" if "q \<noteq> p" "s_connections ?t n = Some q" for n q using that by (auto split: if_splits)
    show "sc_name d \<noteq> sc_name ?c" if "q \<noteq> p" "s_objs s q = Some d" for q d using new [OF that(2)] by simp
  qed (use D(1,11) g(2,3) fresh(3) in \<open>auto simp: phase_ok_def\<close>)
  ultimately show ?thesis by blast
qed

interpretation server: safe_commands server_exec server_inv server_ok
proof
  fix s c
  assume inv: "server_inv s" and ok: "server_ok c s"
  show "\<exists>t. server_exec c s = Inr t \<and> server_inv t"
  proof (cases c)
    case (RunLoop l)
    show ?thesis
    proof (cases "s_queues s l")
      case Nil
      then show ?thesis using inv RunLoop by (simp add: run_next_def)
    next
      case (Cons f fs)
      then show ?thesis using run_establish [OF inv] run_remove [OF inv] run_destroy [OF inv] RunLoop by (cases f) auto
    qed
  qed (use ok newConnection_ok [OF inv] close_conn_ok [OF inv] shutdown_conn_ok [OF inv] in auto)
qed

lemma TCPServer_inv:
  assumes "length ipPort \<le> 51" "0 \<le> n"
    "bindR (server_setThreadNum n (TCPServer loop ipPort name)) (server_start startLoop True hasCallback) = Inr s"
  shows "server_inv s"
proof -
  have s: "s = (TCPServer loop ipPort name)\<lparr>s_pool := start_threads startLoop [0..<nat n]
      ((setThreadNum n (EventLoopThreadPool loop name))\<lparr>p_started := True\<rparr>), s_started := True, s_listenning := True\<rparr>"
    using assms(2,3) by (simp add: server_setThreadNum_def server_start_def TCPServer_def pool_start_def assertBase_def Let_def
        setThreadNum_def EventLoopThreadPool_def)
  have "pool_inv (s_pool s)" "p_started (s_pool s)"
    by (auto simp: s pool_inv_def start_threads_loops setThreadNum_def EventLoopThreadPool_def)
  then show ?thesis using assms(1) by (simp add: s server_inv_def TCPServer_def names_fit_def)
qed

section \<open>Properties of the server\<close>

text \<open>C8. A server on any address never loses or confuses a connection and destroys none twice: whatever the order in which connections arrive, shut down
  and close and in which the loops run their functors, no assert fails and no object is used after its end; every
  connection that is not closed is in the map under its own name, no two connections share a name, and when the
  queues have drained exactly the closed connections have been destroyed, each once, and left the map.\<close>

theorem server_connections_safe:
  assumes "inet6_text ntop6 pton6" "length listenAddr = 28" "inet_toIpPort ntop6 e listenAddr = Inr ipPort" "0 \<le> n"
    "bindR (server_setThreadNum n (TCPServer loop ipPort name)) (server_start startLoop True hasCallback) = Inr s0"
    "allowed server_exec server_ok cmds s0"
  shows "\<exists>s. foldR server_exec cmds s0 = Inr s \<and> distinct (s_destroyed s) \<and>
    (\<forall>p c. s_objs s p = Some c \<longrightarrow> sc_state c \<noteq> kDisconnected \<longrightarrow> s_connections s (sc_name c) = Some p) \<and>
    (\<forall>p q c d. s_objs s p = Some c \<longrightarrow> s_objs s q = Some d \<longrightarrow> sc_name c = sc_name d \<longrightarrow> p = q) \<and>
    ((\<forall>l. s_queues s l = []) \<longrightarrow> (\<forall>p c. s_objs s p = Some c \<longrightarrow> sc_state c \<noteq> kConnecting \<and>
       (p \<in> set (s_destroyed s) \<longleftrightarrow> sc_state c = kDisconnected) \<and>
       (p \<in> set (s_destroyed s) \<longleftrightarrow> s_connections s (sc_name c) = None)))"
proof -
  have "server_inv s0" by (rule TCPServer_inv [OF toIpPort_length [OF assms(1-3)] assms(4,5)])
  then obtain s where s: "foldR server_exec cmds s0 = Inr s" "server_inv s" using server.foldR_safe [OF _ assms(6)] by blast
  note D = server_invD [OF s(2)]
  have up: "s_connections s (sc_name c) = Some p" if "s_objs s p = Some c" "sc_state c \<noteq> kDisconnected" for p c
    using D(7) [OF that(1)] that(2) by (auto simp: phase_ok_def split: conn_state.splits)
  have "sc_state c \<noteq> kConnecting \<and> (p \<in> set (s_destroyed s) \<longleftrightarrow> sc_state c = kDisconnected) \<and>
      (p \<in> set (s_destroyed s) \<longleftrightarrow> s_connections s (sc_name c) = None)"
    if "\<forall>l. s_queues s l = []" "s_objs s p = Some c" for p c
  proof -
    have ph: "phase_ok s p c" by (rule D(7) [OF that(2)])
    show ?thesis using ph that(1) D(12) [of p] that(2) up [OF that(2)] by (cases "sc_state c") (auto simp: phase_ok_def)
  qed
  then show ?thesis using s(1) D(9,11) up by blast
qed

theorem server_connections_safe_witness:
  "\<exists>s0 s. bindR (server_setThreadNum 2 (TCPServer 1 ''0.0.0.0:80'' ''srv'')) (server_start (\<lambda>i. 10 + i) True False) = Inr s0 \<and>
    foldR server_exec [NewConn 5, NewConn 6, RunLoop 10, CloseConn 5, RunLoop 1, RunLoop 11, RunLoop 10] s0 = Inr s \<and>
    distinct (s_destroyed s)"
proof -
  let ?cmds = "[NewConn 5, NewConn 6, RunLoop 10, CloseConn 5, RunLoop 1, RunLoop 11, RunLoop 10]"
  obtain s0 where s0: "bindR (server_setThreadNum 2 (TCPServer 1 ''0.0.0.0:80'' ''srv'')) (server_start (\<lambda>i. 10 + i) True False) = Inr s0"
      "s0 = (TCPServer 1 ''0.0.0.0:80'' ''srv'')\<lparr>s_pool := start_threads (\<lambda>i. 10 + i) [0, 1]
        ((setThreadNum 2 (EventLoopThreadPool 1 ''srv''))\<lparr>p_started := True\<rparr>), s_started := True, s_listenning := True\<rparr>"
    by (simp add: server_setThreadNum_def server_start_def TCPServer_def pool_start_def assertBase_def Let_def
        setThreadNum_def EventLoopThreadPool_def upt_rec)
  have dec: "dec (Suc 0) = ''1''" "dec (Suc (Suc 0)) = ''2''" by (simp_all add: dec.simps digit_def char_of_def bit_iff_odd_drop_bit drop_bit_eq_div)
  have "allowed server_exec server_ok ?cmds s0"
    by (simp add: s0(2) Let_def dec TCPServer_def setThreadNum_def EventLoopThreadPool_def newConnection_def getNextLoop_def assertBase_def
        queue_to_def run_next_def run_server_functor_def do_establish_def conn_deref_def set_conn_def close_conn_def
        removeConnection_def server_deref_def removeConnectionInLoop_def do_destroy_def conn_name_def)
  moreover have "inet_toIpPort full_ntop6 LittleEndian (InetAddress_port LittleEndian (replicate 28 (CHR 0x00)) 80 False False) = Inr ''0.0.0.0:80''"
    using InetAddress_port_text(1) [of "replicate 28 (CHR 0x00)" full_ntop6 LittleEndian 80]
    by (simp add: dec.simps digit_def char_of_def bit_iff_odd_drop_bit drop_bit_eq_div)
  moreover have "length (InetAddress_port LittleEndian (replicate 28 (CHR 0x00)) 80 False False) = 28"
    by (simp add: InetAddress_port_def Let_def)
  ultimately show ?thesis using server_connections_safe [OF inet6_text_full _ _ _ s0(1)] s0(1) by fastforce
qed

lemma queue_to_head:
  "s_queues s b = f # fs \<Longrightarrow> \<exists>gs. s_queues (queue_to l g s) b = f # gs" "p_base (s_pool (queue_to l g s)) = p_base (s_pool s)"
  by (auto simp: queue_to_def)

lemma destroy_keeps_head:
  assumes "foldR destroy_one ps s = Inr t" "s_queues s b = f # fs"
  shows "(\<exists>gs. s_queues t b = f # gs) \<and> p_base (s_pool t) = p_base (s_pool s)"
  using assms
proof (induction ps arbitrary: s fs)
  case (Cons p ps)
  then obtain s1 where s1: "destroy_one p s = Inr s1" "foldR destroy_one ps s1 = Inr t" by (auto simp: result_simps)
  have "(\<exists>gs. s_queues s1 b = f # gs) \<and> p_base (s_pool s1) = p_base (s_pool s)"
    using s1(1) Cons.prems(2) queue_to_head(1) [OF Cons.prems(2)]
    by (auto simp: destroy_one_def do_destroy_def conn_deref_def set_conn_def result_simps queue_to_head(2) split: option.splits if_splits)
  then show ?case using Cons.IH [OF s1(2)] by auto
qed simp



end
