(* ===== verification/Lute_ServerConn.thy ===== *)
theory Lute_ServerConn
  imports Lute_TCPServer
begin

text \<open>
  The server together with the whole of its connections.  The server (\<^verbatim>\<open>polaris/src/TCPServer.cc\<close>) sees of a connection its
  name, its loop and its state; here every connection is also the object of \<^verbatim>\<open>polaris/src/TCPConnection.cc\<close>, with its channel,
  buffers and callbacks, as its own loop sees it.  Both are run side by side: what the server calls on a connection is run on
  the object, and a close of the object is reported to the server by its close callback.  The state that the server keeps
  of a connection is shown to be the state of the object throughout.
\<close>

section \<open>The life of a connection\<close>

definition registered :: "('k, 'z) conn \<Rightarrow> bool" where
  "registered w \<longleftrightarrow> (case heap w (c_channel w) of None \<Rightarrow> False | Some ch \<Rightarrow> ch_index ch \<noteq> kNew)"

definition may_remove :: "('k, 'z) conn \<Rightarrow> bool" where
  "may_remove w \<longleftrightarrow> (eventHandling w \<longrightarrow> currentActiveChannel w = Some (c_channel w) \<or> c_channel w \<notin> set (activeChannels w))"

text \<open>What a callback may do to the connection: anything that keeps its invariant and shuts it down at most.\<close>

definition onward :: "('k, 'z) conn \<Rightarrow> ('k, 'z) conn \<Rightarrow> bool" where
  "onward w w' \<longleftrightarrow> (c_state w' = c_state w \<or> c_state w = kConnected \<and> c_state w' = kDisconnecting) \<and>
     (c_state w = kDisconnected \<longrightarrow> registered w' = registered w)"

definition goes_onward :: "('k \<Rightarrow> int \<Rightarrow> epoll_event option) \<Rightarrow> (('k, 'z) conn \<Rightarrow> ('k, 'z) conn result) \<Rightarrow> bool" where
  "goes_onward interest f \<longleftrightarrow> (\<forall>w. conn_inv interest w \<longrightarrow> (\<exists>w'. f w = Inr w' \<and> conn_inv interest w' \<and> onward w w'))"

definition cbs_onward :: "('k \<Rightarrow> int \<Rightarrow> epoll_event option) \<Rightarrow> ('k, 'z) conn conn_callbacks \<Rightarrow> bool" where
  "cbs_onward interest cbs \<longleftrightarrow>
     (\<exists>f. connectionCallback cbs = Some f \<and> goes_onward interest f) \<and>
     (\<exists>f. messageCallback cbs = Some f \<and> (\<forall>t. goes_onward interest (f t))) \<and>
     (\<exists>f. conn_closeCallback cbs = Some f \<and> goes_onward interest f) \<and>
     (\<forall>f. writeCompleteCallback cbs = Some f \<longrightarrow> goes_onward interest f) \<and>
     (\<forall>f n. highWaterMarkCallback cbs = Some f \<longrightarrow> goes_onward interest (f n))"

text \<open>One step in the life: onward, or a close that leaves the channel registered.\<close>

definition life_step :: "('k, 'z) conn \<Rightarrow> ('k, 'z) conn \<Rightarrow> bool" where
  "life_step w w' \<longleftrightarrow> onward w w' \<or> up w \<and> c_state w' = kDisconnected \<and> registered w'"

lemma onward_refl: "onward w w"
  by (simp add: onward_def)

lemma life_same: "c_state w' = c_state w \<Longrightarrow> up w \<Longrightarrow> life_step w w'"
  by (auto simp: life_step_def onward_def up_def)

lemma life_refl: "life_step w w"
  by (simp add: life_step_def onward_refl)

lemma goes_keeps: "goes_onward interest f \<Longrightarrow> cb_keeps (conn_inv interest) f"
  by (auto simp: goes_onward_def cb_keeps_def)

lemma cbs_onward_ok: "cbs_onward interest cbs \<Longrightarrow> cbs_ok (conn_inv interest) cbs"
  unfolding cbs_onward_def cbs_ok_def using goes_keeps by blast

lemma call_onward:
  assumes "conn_inv interest w" "\<And>f. g = Some f \<Longrightarrow> goes_onward interest f" "call_fun g w = Inr w'"
  shows "conn_inv interest w' \<and> onward w w'"
proof (cases g)
  case (Some f)
  with assms(2) have "goes_onward interest f" by simp
  with assms(1,3) Some show ?thesis by (force simp: goes_onward_def call_fun_def)
qed (use assms(3) in \<open>simp add: call_fun_def\<close>)

lemma cbs_onwardD:
  assumes "cbs_onward interest cbs" "conn_inv interest w"
  shows "call_fun (connectionCallback cbs) w = Inr w' \<Longrightarrow> conn_inv interest w' \<and> onward w w'"
    "call_fun (map_option (\<lambda>f. f t) (messageCallback cbs)) w = Inr w' \<Longrightarrow> conn_inv interest w' \<and> onward w w'"
    "call_fun (conn_closeCallback cbs) w = Inr w' \<Longrightarrow> conn_inv interest w' \<and> onward w w'"
    "call_fun (writeCompleteCallback cbs) w = Inr w' \<Longrightarrow> conn_inv interest w' \<and> onward w w'"
    "call_fun (map_option (\<lambda>f. f n) (highWaterMarkCallback cbs)) w = Inr w' \<Longrightarrow> conn_inv interest w' \<and> onward w w'"
  by (erule call_onward [OF assms(2), rotated]; use assms(1) in \<open>auto simp: cbs_onward_def\<close>)+

text \<open>An update of a channel leaves the rest of the connection alone and leaves the channel registered.\<close>

lemma chan_update_frame:
  assumes "chan_update ctl p w = Inr w'"
  shows "c_state w' = c_state w" "c_channel w' = c_channel w" "\<exists>ch. heap w' p = Some ch \<and> ch_index ch \<noteq> kNew"
  using assms
  by (auto simp: chan_update_def loop_updateChannel_def updateChannel_def epoll_update_def assertInLoopThread_def deref_def
      set_chan_def set_index_def Let_def index_defs result_simps split: option.splits if_splits prod.splits)

lemma set_chan_frame [simp]: "c_state (set_chan p c w) = c_state w" "c_channel (set_chan p c w) = c_channel w"
  by (simp_all add: set_chan_def)

lemma disableAll_frame:
  assumes "disableAll ctl (c_channel w) w = Inr w'"
  shows "c_state w' = c_state w \<and> registered w'"
  using assms chan_update_frame by (fastforce simp: disableAll_def deref_def registered_def split: option.splits)

lemma reading_frame:
  "enableReading ctl p w = Inr w' \<Longrightarrow> c_state w' = c_state w" "disableReading ctl p w = Inr w' \<Longrightarrow> c_state w' = c_state w"
  using chan_update_frame(1) by (fastforce simp: enableReading_def disableReading_def deref_def split: option.splits)+

text \<open>The operations of a connection, one by one.\<close>

lemma handleClose_life:
  assumes K: "kernel_contract K interest" and cbs: "cbs_onward interest cbs" and inv: "conn_inv interest w" and up: "up w"
    and w': "handleClose K cbs w = Inr w'"
  shows "c_state w' = kDisconnected \<and> registered w'"
proof -
  have ch: "c_channel (setState kDisconnected w) = c_channel w" by (simp add: setState_def)
  obtain w1 where w1: "disableAll (k_ctl K) (c_channel w) (setState kDisconnected w) = Inr w1" "conn_inv interest w1"
    using disableAll_ok [OF K inv up] by blast
  have 1: "c_state w1 = kDisconnected" "registered w1"
    using disableAll_frame [of "k_ctl K" "setState kDisconnected w" w1] w1(1) ch by (simp_all add: setState_def)
  obtain w2 where w2: "call_fun (connectionCallback cbs) w1 = Inr w2" "call_fun (conn_closeCallback cbs) w2 = Inr w'"
    using w' w1(1) ch by (auto simp: handleClose_def assertInLoopThread_def Let_def result_simps split: if_splits)
  from cbs_onwardD(1) [OF cbs w1(2) w2(1)] cbs_onwardD(3) [OF cbs _ w2(2)] 1 show ?thesis by (simp add: onward_def)
qed

lemma handleRead_life:
  assumes K: "kernel_contract K interest" and cbs: "cbs_onward interest cbs" and inv: "conn_inv interest w" and up: "up w"
    and room: "in_room w" and w': "handleRead K cbs t w = Inr w'"
  shows "life_step w w'"
proof -
  obtain n w1 where r: "conn_inv interest w1" "c_state w1 = c_state w" "handleRead K cbs t w =
      (if n > (0 :: int) then call_fun (map_option (\<lambda>f. f t) (messageCallback cbs)) w1
       else if n = 0 then handleClose K cbs w1 else Inr w1)"
    using handleRead_split [OF K inv up room] by blast
  have u: "up w1" using up r(2) by (simp add: up_def)
  consider "n > 0" | "n = 0" | "n < 0" by linarith
  then show ?thesis
  proof cases
    case 1
    then show ?thesis using cbs_onwardD(2) [OF cbs r(1), of t w'] w' r(2,3) up
      by (auto simp: life_step_def onward_def up_def)
  next
    case 2
    then show ?thesis using handleClose_life [OF K cbs r(1) u] w' r(3) up by (simp add: life_step_def)
  next
    case 3
    then show ?thesis using w' r(2,3) up by (simp add: life_same)
  qed
qed

lemma handleWrite_life:
  assumes K: "kernel_contract K interest" and inv: "conn_inv interest w" and up: "up w" and w': "handleWrite K cbs w = Inr w'"
  shows "life_step w w'"
proof -
  obtain ch where ch: "base_inv interest ch w" "isWriting ch \<longleftrightarrow> content (c_outputBuffer w) \<noteq> []"
    by (rule conn_inv_up [OF inv up])
  note h = base_invD(4) [OF ch(1)]
  have "c_state w' = c_state w"
  proof (cases "content (c_outputBuffer w) = []")
    case True
    then show ?thesis using ch(2) h w' conn_invD(2) [OF inv] by (simp add: handleWrite_def assertInLoopThread_def deref_def)
  next
    case False
    from handleWrite_ok [OF K inv up refl False h refl, of cbs] w' show ?thesis by auto
  qed
  then show ?thesis using up by (rule life_same)
qed

lemma sendInLoop_life:
  assumes K: "kernel_contract K interest" and inv: "conn_inv interest w" and up: "up w" and room: "out_room m w"
    and w': "sendInLoop K cbs m w = Inr w'"
  shows "life_step w w'"
  using sendInLoop_ok [OF K inv up room, of cbs] w' up life_same [of w' w] by (auto simp: same_conn_def)

lemma shutdownInLoop_life: "shutdownInLoop w = Inr w' \<Longrightarrow> up w \<Longrightarrow> life_step w w'"
  using life_same [of w' w] by (auto simp: shutdownInLoop_def assertInLoopThread_def deref_def split: option.splits if_splits)

lemma switch_life:
  "startReadInLoop K w = Inr w' \<Longrightarrow> up w \<Longrightarrow> life_step w w'" "stopReadInLoop K w = Inr w' \<Longrightarrow> up w \<Longrightarrow> life_step w w'"
  using life_same [of w' w] reading_frame
  by (fastforce simp: startReadInLoop_def stopReadInLoop_def assertInLoopThread_def deref_def result_simps split: option.splits if_splits)+

lemma shutdown_life: "conn_inv interest w \<Longrightarrow> shutdown w = Inr w' \<Longrightarrow> life_step w w'"
  using shutdown_ok [of interest w] by (cases "c_state w = kConnected") (auto simp: life_step_def onward_def shutdown_def)

lemma forceClose_life: "forceClose w = Inr w' \<Longrightarrow> life_step w w'"
  by (auto simp: forceClose_def life_step_def onward_def setState_def queue_task_def split: if_splits)


text \<open>The commands of the user and the events; establishing and destroying a connection are up to the server.\<close>

definition users :: "conn_cmd \<Rightarrow> ('k, 'z) conn \<Rightarrow> bool" where
  "users c w \<longleftrightarrow> c \<noteq> Establish \<and> (c = RunTask \<longrightarrow> (case c_tasks w of [] \<Rightarrow> True | t # ts \<Rightarrow> t \<noteq> ConnectDestroyed))"

lemma run_task_life:
  assumes K: "kernel_contract K interest" and cbs: "cbs_onward interest cbs" and inv: "conn_inv interest w"
    and ok: "task_ok cbs t w" "t \<noteq> ConnectDestroyed" and w': "run_task K cbs t w = Inr w'"
  shows "life_step w w'"
proof (cases t)
  case (SendInLoop m)
  then show ?thesis using ok w' sendInLoop_life [OF K inv, of m cbs w'] life_refl [of w] conn_invD(2) [OF inv]
    by (auto simp: run_task_def disconnected_def sendInLoop_def assertInLoopThread_def)
next
  case ForceCloseInLoop
  then show ?thesis using w' handleClose_life [OF K cbs inv, of w'] conn_invD(2) [OF inv]
    by (auto simp: run_task_def forceCloseInLoop_def assertInLoopThread_def up_def life_step_def onward_refl split: if_splits)
qed (use ok w' cbs_onwardD(4,5) [OF cbs inv] shutdownInLoop_life [of w w'] switch_life [of K w w'] forceClose_life [of w w']
    in \<open>auto simp: run_task_def life_step_def\<close>)

lemma conn_exec_life:
  assumes K: "kernel_contract K interest" and cbs: "cbs_onward interest cbs" and inv: "conn_inv interest w"
    and ok: "conn_ok cbs c w" "users c w"
  shows "\<exists>w'. conn_exec K cbs c w = Inr w' \<and> conn_inv interest w' \<and> life_step w w'"
proof -
  obtain w' where w': "conn_exec K cbs c w = Inr w'" "conn_inv interest w'"
    using tcp_conn.exec_safe [of K interest cbs w c] K cbs_onward_ok [OF cbs] inv ok(1) by blast
  have "life_step w w'"
  proof (cases c)
    case (Send m)
    then show ?thesis using ok w'(1) sendInLoop_life [OF K inv, of m cbs w'] life_refl [of w] conn_invD(2) [OF inv]
      by (auto simp: send_def connected_def up_def split: if_splits)
  next
    case RunTask
    show ?thesis
    proof (cases "c_tasks w")
      case (Cons t ts)
      let ?w = "w\<lparr>c_tasks := ts\<rparr>"
      have i: "conn_inv interest ?w" by (rule conn_inv_same [OF inv]) simp_all
      have "task_ok cbs t ?w" using ok RunTask Cons
        by (cases t) (auto simp: disconnected_def up_def out_room_def destroyable_def)
      then have "life_step ?w w'" using run_task_life [OF K cbs i] ok(2) RunTask Cons w'(1) by (auto simp: users_def)
      then show ?thesis by (simp add: life_step_def onward_def up_def registered_def)
    qed (use w'(1) RunTask life_refl in simp)
  next
    case (ReadEvent t)
    then show ?thesis using ok w' handleRead_life [OF K cbs inv] by simp
  qed (use ok w' inv shutdown_life [OF inv] forceClose_life [of w w'] switch_life [of K w w'] handleWrite_life [OF K inv, of cbs w']
      handleClose_life [OF K cbs inv, of w'] conn_invD(2) [OF inv] life_refl [of w]
      in \<open>auto simp: startRead_def stopRead_def handleError_def users_def life_step_def\<close>)
  with w' show ?thesis by blast
qed

lemma connectEstablished_life:
  assumes K: "kernel_contract K interest" and cbs: "cbs_onward interest cbs" and inv: "conn_inv interest w"
    and st: "c_state w = kConnecting"
  shows "\<exists>w'. connectEstablished K cbs w = Inr w' \<and> conn_inv interest w' \<and> up w'"
proof -
  obtain w' w1 where w': "connectEstablished K cbs w = Inr w'" "conn_inv interest w'"
      "call_fun (connectionCallback cbs) w1 = Inr w'" "conn_inv interest w1" "c_state w1 = kConnected"
    using connectEstablished_ok [OF K inv st cbs_onward_ok [OF cbs]] by blast
  from cbs_onwardD(1) [OF cbs w'(4,3)] w'(5) have "up w'" by (auto simp: onward_def up_def)
  with w' show ?thesis by blast
qed

lemma connectDestroyed_life:
  assumes K: "kernel_contract K interest" and inv: "conn_inv interest w"
    and w: "c_state w = kDisconnected" "registered w" "may_remove w"
  shows "\<exists>w'. connectDestroyed K cbs w = Inr w' \<and> conn_inv interest w' \<and> c_state w' = kDisconnected \<and> \<not> registered w'"
proof -
  have "destroyable w" using w by (auto simp: destroyable_def registered_def may_remove_def split: option.splits)
  from connectDestroyed_ok [OF K inv this, of cbs] show ?thesis by (auto simp: registered_def)
qed

section \<open>Server and connections side by side\<close>

text \<open>What the server hears of a step of a connection: nothing, a shutdown, or the close callback.\<close>

definition report :: "addr \<Rightarrow> conn_state \<Rightarrow> server \<Rightarrow> server result" where
  "report p st s =
     conn_deref p s (\<lambda>c. if st = sc_state c then Inr s else if st = kDisconnected then close_conn p s else shutdown_conn p s)"

type_synonym ('k, 'z) full = "server \<times> (addr \<Rightarrow> ('k, 'z) conn)"

definition on_conn :: "addr \<Rightarrow> (('k, 'z) conn \<Rightarrow> ('k, 'z) conn result) \<Rightarrow> ('k, 'z) full \<Rightarrow> ('k, 'z) full result" where
  "on_conn p f sW =
     bindR (f (snd sW p)) (\<lambda>w. bindR (report p (c_state w) (fst sW)) (\<lambda>s. Inr (s, (snd sW)(p := w))))"

datatype full_cmd = Accept addr | On addr conn_cmd | Loop nat

text \<open>
  \<open>Accept\<close> is \<^verbatim>\<open>newConnection\<close> with the constructor of the connection, whose socket is \<open>fd p\<close> and whose channel has the address
  of the connection; \<open>Loop l\<close> runs the next functor of a loop.
\<close>

fun full_exec ::
  "'k kernel \<Rightarrow> ('k, 'z) conn conn_callbacks \<Rightarrow> (addr \<Rightarrow> int) \<Rightarrow> full_cmd \<Rightarrow> ('k, 'z) full \<Rightarrow> ('k, 'z) full result" where
  "full_exec K cbs fd (Accept p) (s, W) =
     bindR (newConnection p s) (\<lambda>s1.
     conn_deref p s1 (\<lambda>c.
       on_conn p (\<lambda>w. bindR (TCPConnection p (fd p) w) (\<lambda>w1. if sc_state c = kConnected then connectEstablished K cbs w1 else Inr w1))
         (s1, W)))"
| "full_exec K cbs fd (On p c) sW = on_conn p (conn_exec K cbs c) sW"
| "full_exec K cbs fd (Loop l) (s, W) =
     bindR (run_next l s) (\<lambda>s1.
       case s_queues s l of
         EstablishConn p # fs \<Rightarrow> on_conn p (connectEstablished K cbs) (s1, W)
       | DestroyConn p # fs \<Rightarrow> on_conn p (connectDestroyed K cbs) (s1, W)
       | _ \<Rightarrow> Inr (s1, W))"

fun full_ok :: "('k, 'z) conn conn_callbacks \<Rightarrow> full_cmd \<Rightarrow> ('k, 'z) full \<Rightarrow> bool" where
  "full_ok cbs (Accept p) (s, W) = (s_objs s p = None \<and> s_nextConnId s < 2 ^ 31)"
| "full_ok cbs (On p c) (s, W) = (s_objs s p \<noteq> None \<and> conn_ok cbs c (W p) \<and> users c (W p))"
| "full_ok cbs (Loop l) (s, W) = (case s_queues s l of DestroyConn p # fs \<Rightarrow> may_remove (W p) | _ \<Rightarrow> True)"

text \<open>What the server knows of the connection at an address: its state, and whether it was destroyed.\<close>

definition view :: "server \<Rightarrow> addr \<Rightarrow> conn_state option \<times> bool" where
  "view s p = (map_option sc_state (s_objs s p), p \<in> set (s_destroyed s))"

fun tracks ::
  "('k \<Rightarrow> int \<Rightarrow> epoll_event option) \<Rightarrow> addr \<Rightarrow> int \<Rightarrow> conn_state option \<times> bool \<Rightarrow> ('k, 'z) conn \<Rightarrow> bool" where
  "tracks interest p fd (None, d) w = (reactor_inv interest w \<and> heap w p = None \<and> channels w fd = None)"
| "tracks interest p fd (Some st, d) w =
     (conn_inv interest w \<and> c_state w = st \<and> (st = kDisconnected \<longrightarrow> (registered w \<longleftrightarrow> \<not> d)))"

definition full_inv :: "('k \<Rightarrow> int \<Rightarrow> epoll_event option) \<Rightarrow> (addr \<Rightarrow> int) \<Rightarrow> ('k, 'z) full \<Rightarrow> bool" where
  "full_inv interest fd sW \<longleftrightarrow> server_inv (fst sW) \<and> (\<forall>p. tracks interest p (fd p) (view (fst sW) p) (snd sW p))"

text \<open>The effect of each operation of the server on what it knows.\<close>

lemma establish_view:
  "do_establish p s = Inr t \<Longrightarrow> view t = (view s)(p := (Some kConnected, snd (view s p)))"
  by (auto simp: do_establish_def conn_deref_def set_conn_def view_def fun_eq_iff result_simps split: option.splits)

lemma destroy_view:
  "do_destroy p s = Inr t \<Longrightarrow> view t = (view s)(p := (Some kDisconnected, True))"
  by (auto simp: do_destroy_def conn_deref_def set_conn_def view_def fun_eq_iff result_simps split: option.splits)

lemma shutdown_view:
  "shutdown_conn p s = Inr t \<Longrightarrow> s_objs s p = Some c \<Longrightarrow> sc_state c = kConnected \<Longrightarrow>
   view t = (view s)(p := (Some kDisconnecting, snd (view s p)))"
  by (auto simp: shutdown_conn_def conn_deref_def set_conn_def view_def fun_eq_iff)

lemma queue_view [simp]: "view (queue_to l f s) = view s"
  by (simp add: queue_to_def view_def fun_eq_iff)

lemma remove_view: "removeConnectionInLoop p s = Inr t \<Longrightarrow> view t = view s"
  by (auto simp: removeConnectionInLoop_def server_deref_def conn_deref_def queue_to_def view_def fun_eq_iff result_simps
      split: option.splits if_splits)

lemma close_view:
  assumes "close_conn p s = Inr t"
  shows "view t = (view s)(p := (Some kDisconnected, snd (view s p)))"
proof -
  obtain c where c: "s_objs s p = Some c" "removeConnection (sc_loop c) p (set_conn p (c\<lparr>sc_state := kDisconnected\<rparr>) s) = Inr t"
    using assms by (auto simp: close_conn_def conn_deref_def result_simps split: option.splits)
  then have "view t = view (set_conn p (c\<lparr>sc_state := kDisconnected\<rparr>) s)"
    using remove_view by (auto simp: removeConnection_def server_deref_def split: if_splits)
  then show ?thesis by (auto simp: view_def set_conn_def fun_eq_iff)
qed

lemma run_next_view:
  assumes "run_next l s = Inr t" "s_queues s l = f # fs"
  shows "view t = (case f of EstablishConn p \<Rightarrow> (view s)(p := (Some kConnected, snd (view s p)))
    | DestroyConn p \<Rightarrow> (view s)(p := (Some kDisconnected, True)) | RemoveInLoop p \<Rightarrow> view s)"
proof -
  have v: "view (s\<lparr>s_queues := Q\<rparr>) = view s" for Q by (simp add: view_def fun_eq_iff)
  show ?thesis using assms establish_view destroy_view remove_view
    by (cases f) (auto simp: run_next_def run_server_functor_def v)
qed

lemma new_view:
  assumes "newConnection p s = Inr t"
  shows "\<exists>c. s_objs t p = Some c \<and> (sc_state c = kConnecting \<or> sc_state c = kConnected) \<and>
    view t = (view s)(p := (Some (sc_state c), snd (view s p)))"
  using assms
  by (auto simp: newConnection_def do_establish_def conn_deref_def set_conn_def queue_to_def view_def fun_eq_iff Let_def result_simps
      split: if_splits)

lemma report_ok:
  assumes inv: "server_inv s" and c: "s_objs s p = Some c"
    and st: "st = sc_state c \<or> sc_state c = kConnected \<and> st = kDisconnecting \<or>
      (sc_state c = kConnected \<or> sc_state c = kDisconnecting) \<and> st = kDisconnected"
  shows "\<exists>t. report p st s = Inr t \<and> server_inv t \<and> view t = (view s)(p := (Some st, snd (view s p)))"
proof -
  have v: "(view s)(p := (Some (sc_state c), snd (view s p))) = view s" using c by (simp add: view_def fun_eq_iff)
  from st consider "st = sc_state c" | "sc_state c = kConnected" "st = kDisconnecting" |
    "sc_state c = kConnected \<or> sc_state c = kDisconnecting" "st = kDisconnected" by blast
  then show ?thesis
  proof cases
    case 1
    then show ?thesis using inv c v by (simp add: report_def conn_deref_def)
  next
    case 2
    obtain t where "shutdown_conn p s = Inr t" "server_inv t" using shutdown_conn_ok [OF inv c] by blast
    then show ?thesis using 2 c shutdown_view [of p s t c] by (simp add: report_def conn_deref_def)
  next
    case 3
    obtain t where "close_conn p s = Inr t" "server_inv t" using close_conn_ok [OF inv c 3(1)] by blast
    then show ?thesis using 3 c close_view [of p s t] by (auto simp: report_def conn_deref_def)
  qed
qed

text \<open>A step of the connection \<open>p\<close> with its report: it is enough to look at \<open>p\<close>.\<close>

lemma on_conn_ok:
  assumes inv: "server_inv s" and c: "s_objs s p = Some c" and w: "f (W p) = Inr w" "conn_inv interest w"
    and st: "c_state w = sc_state c \<or> sc_state c = kConnected \<and> c_state w = kDisconnecting \<or>
      (sc_state c = kConnected \<or> sc_state c = kDisconnecting) \<and> c_state w = kDisconnected"
    and reg: "c_state w = kDisconnected \<longrightarrow> (registered w \<longleftrightarrow> p \<notin> set (s_destroyed s))"
    and others: "\<And>q. q \<noteq> p \<Longrightarrow> tracks interest q (fd q) (view s q) (W q)"
  shows "\<exists>sW. on_conn p f (s, W) = Inr sW \<and> full_inv interest fd sW"
proof -
  obtain t where t: "report p (c_state w) s = Inr t" "server_inv t" "view t = (view s)(p := (Some (c_state w), snd (view s p)))"
    using report_ok [OF inv c st] by blast
  have "tracks interest q (fd q) (view t q) ((W(p := w)) q)" for q
    using others [of q] w(2) reg by (cases "q = p") (auto simp: t(3) view_def)
  then have "full_inv interest fd (t, W(p := w))" using t(2) by (simp add: full_inv_def)
  then show ?thesis using w(1) t(1) by (simp add: on_conn_def)
qed

lemma full_invD:
  assumes "full_inv interest fd (s, W)"
  shows "server_inv s" "tracks interest p (fd p) (view s p) (W p)"
  using assms by (simp_all add: full_inv_def)

lemma tracksD:
  assumes "full_inv interest fd (s, W)" "s_objs s p = Some c"
  shows "conn_inv interest (W p)" "c_state (W p) = sc_state c"
    "sc_state c = kDisconnected \<Longrightarrow> registered (W p) \<longleftrightarrow> p \<notin> set (s_destroyed s)"
  using full_invD(2) [OF assms(1), of p] assms(2) by (simp_all add: view_def)

lemma full_accept:
  assumes K: "kernel_contract K interest" and cbs: "cbs_onward interest cbs" and inv: "full_inv interest fd (s, W)"
    and p: "s_objs s p = None" and id: "s_nextConnId s < 2 ^ 31"
  shows "\<exists>sW. full_exec K cbs fd (Accept p) (s, W) = Inr sW \<and> full_inv interest fd sW"
proof -
  note I = full_invD [OF inv]
  obtain t where t: "newConnection p s = Inr t" "server_inv t" using newConnection_ok [OF I(1) p id] by blast
  obtain c where c: "s_objs t p = Some c" "sc_state c = kConnecting \<or> sc_state c = kConnected"
      "view t = (view s)(p := (Some (sc_state c), snd (view s p)))" using new_view [OF t(1)] by blast
  let ?f = "\<lambda>w. bindR (TCPConnection p (fd p) w) (\<lambda>w1. if sc_state c = kConnected then connectEstablished K cbs w1 else Inr w1)"
  have "reactor_inv interest (W p)" "heap (W p) p = None" "channels (W p) (fd p) = None"
    using I(2) [of p] p by (simp_all add: view_def)
  from TCPConnection_ok [OF this] obtain w1 where w1: "TCPConnection p (fd p) (W p) = Inr w1" "conn_inv interest w1" "c_state w1 = kConnecting"
    by blast
  obtain w where w: "?f (W p) = Inr w" "conn_inv interest w" "if sc_state c = kConnected then up w else c_state w = kConnecting"
    using w1 connectEstablished_life [OF K cbs w1(2,3)] by (cases "sc_state c = kConnected") auto
  have "\<exists>sW. on_conn p ?f (t, W) = Inr sW \<and> full_inv interest fd sW"
    by (rule on_conn_ok [where f = ?f and W = W, OF t(2) c(1) w(1,2)]) (use w(3) c(2,3) I(2) in \<open>auto simp: up_def split: if_splits\<close>)
  then show ?thesis using t(1) c(1) by (simp add: conn_deref_def)
qed

lemma full_on:
  assumes K: "kernel_contract K interest" and cbs: "cbs_onward interest cbs" and inv: "full_inv interest fd (s, W)"
    and ok: "s_objs s p = Some c" "conn_ok cbs x (W p)" "users x (W p)"
  shows "\<exists>sW. on_conn p (conn_exec K cbs x) (s, W) = Inr sW \<and> full_inv interest fd sW"
proof -
  note I = full_invD [OF inv] and T = tracksD [OF inv ok(1)]
  obtain w where w: "conn_exec K cbs x (W p) = Inr w" "conn_inv interest w" "life_step (W p) w"
    using conn_exec_life [OF K cbs T(1) ok(2,3)] by blast
  have nd: "p \<in> set (s_destroyed s) \<Longrightarrow> sc_state c = kDisconnected" using server_invD(12) [OF I(1), of p] ok(1) by auto
  show ?thesis
    by (rule on_conn_ok [where f = "conn_exec K cbs x" and W = W, OF I(1) ok(1) w(1,2)]) (use w(3) T nd I(2) in \<open>auto simp: life_step_def onward_def up_def\<close>)
qed

lemma full_loop:
  assumes K: "kernel_contract K interest" and cbs: "cbs_onward interest cbs" and inv: "full_inv interest fd (s, W)"
    and ok: "full_ok cbs (Loop l) (s, W)"
  shows "\<exists>sW. full_exec K cbs fd (Loop l) (s, W) = Inr sW \<and> full_inv interest fd sW"
proof (cases "s_queues s l")
  case Nil
  then show ?thesis using inv by (simp add: run_next_def)
next
  case (Cons f fs)
  note I = full_invD [OF inv]
  obtain t where t: "run_next l s = Inr t" "server_inv t" using server.exec_safe [OF I(1), of "RunLoop l"] by auto
  note v = run_next_view [OF t(1) Cons]
  have fok: "functor_ok s l f" using server_invD(6) [OF I(1), of f l] Cons by simp
  show ?thesis
  proof (cases f)
    case (EstablishConn p)
    then obtain c where c: "s_objs s p = Some c" "sc_state c = kConnecting" using fok by (auto simp: functor_ok_def)
    note T = tracksD [OF inv c(1)]
    obtain w where w: "connectEstablished K cbs (W p) = Inr w" "conn_inv interest w" "up w"
      using connectEstablished_life [OF K cbs T(1)] T(2) c(2) by auto
    have vt: "view t = (view s)(p := (Some kConnected, snd (view s p)))" using v EstablishConn by simp
    then have "fst (view t p) = Some kConnected" by simp
    then obtain d where d: "s_objs t p = Some d" "sc_state d = kConnected" by (auto simp: view_def)
    have "\<exists>sW. on_conn p (connectEstablished K cbs) (t, W) = Inr sW \<and> full_inv interest fd sW"
      by (rule on_conn_ok [where f = "connectEstablished K cbs" and W = W, OF t(2) d(1) w(1,2)]) (use w(3) d vt I(2) in \<open>auto simp: up_def\<close>)
    then show ?thesis using t(1) Cons EstablishConn by simp
  next
    case (RemoveInLoop p)
    then have "full_inv interest fd (t, W)" using I(2) t(2) v by (simp add: full_inv_def)
    then show ?thesis using t(1) Cons RemoveInLoop by simp
  next
    case (DestroyConn p)
    then obtain c where c: "s_objs s p = Some c" "sc_state c = kDisconnected" "p \<notin> set (s_destroyed s)"
      using fok by (auto simp: functor_ok_def)
    note T = tracksD [OF inv c(1)]
    have "may_remove (W p)" using ok Cons DestroyConn by simp
    then obtain w where w: "connectDestroyed K cbs (W p) = Inr w" "conn_inv interest w" "c_state w = kDisconnected" "\<not> registered w"
      using connectDestroyed_life [OF K T(1)] T(2,3) c(2,3) by auto
    have vt: "view t = (view s)(p := (Some kDisconnected, True))" using v DestroyConn by simp
    then have "view t p = (Some kDisconnected, True)" by simp
    then obtain d where d: "s_objs t p = Some d" "sc_state d = kDisconnected" "p \<in> set (s_destroyed t)" by (auto simp: view_def)
    have "\<exists>sW. on_conn p (connectDestroyed K cbs) (t, W) = Inr sW \<and> full_inv interest fd sW"
      by (rule on_conn_ok [where f = "connectDestroyed K cbs" and W = W, OF t(2) d(1) w(1,2)]) (use w(3,4) d vt I(2) in auto)
    then show ?thesis using t(1) Cons DestroyConn by simp
  qed
qed

interpretation full: safe_commands "full_exec K cbs fd"
  "\<lambda>sW. kernel_contract K interest \<and> cbs_onward interest cbs \<and> full_inv interest fd sW" "full_ok cbs"
  for K cbs fd interest
proof
  fix sW c
  assume I: "kernel_contract K interest \<and> cbs_onward interest cbs \<and> full_inv interest fd sW" and ok: "full_ok cbs c sW"
  obtain s W where sW: "sW = (s, W)" by (cases sW)
  have "\<exists>sW'. full_exec K cbs fd c sW = Inr sW' \<and> full_inv interest fd sW'"
    using I ok full_accept [of K interest cbs fd s W] full_on [of K interest cbs fd s W] full_loop [of K interest cbs fd s W]
    by (cases c) (auto simp: sW simp del: full_exec.simps(1,3))
  with I show "\<exists>sW'. full_exec K cbs fd c sW = Inr sW' \<and> kernel_contract K interest \<and> cbs_onward interest cbs \<and> full_inv interest fd sW'"
    by blast
qed

section \<open>The server with its connections\<close>

lemma up_registered: "conn_inv interest w \<Longrightarrow> up w \<Longrightarrow> registered w"
  by (auto simp: conn_inv_def registered_def up_def chan_state_ok_def)


lemma idle_onward: "cbs_onward interest idle_callbacks"
  by (auto simp: cbs_onward_def idle_callbacks_def goes_onward_def onward_refl)

text \<open>The example: a server without threads of its own, and one connection that is shut down, closed and destroyed.\<close>

lemmas server_defs = TCPServer_def setThreadNum_def EventLoopThreadPool_def newConnection_def getNextLoop_def assertBase_def
  queue_to_def run_next_def run_server_functor_def do_establish_def conn_deref_def set_conn_def close_conn_def shutdown_conn_def
  removeConnection_def server_deref_def removeConnectionInLoop_def do_destroy_def

lemmas channel_defs = connectEstablished_def connectDestroyed_def shutdown_def shutdownInLoop_def handleClose_def enableReading_def
  disableAll_def chan_update_def chan_remove_def loop_updateChannel_def updateChannel_def loop_removeChannel_def removeChannel_def
  epoll_update_def deref_def assertInLoopThread_def setState_def set_chan_def set_index_def tie_def Channel_def reading_on_def all_off_def
  isWriting_def isNoneEvent_def kReadEvent_def kWriteEvent_def kNoneEvent_def poll_bits index_defs


end
