(* ===== verification/Lute_ConnOrder.thy ===== *)
theory Lute_ConnOrder
  imports Lute_ServerConn
begin

text \<open>
  The states of a connection in the order of its life.  No operation of \<^verbatim>\<open>polaris/src/TCPConnection.cc\<close> leads back: what a
  command may do to the order is the interface \<open>forward_commands\<close>, which extends \<open>safe_commands\<close>.
\<close>

fun life_rank :: "conn_state \<Rightarrow> nat" where
  "life_rank kConnecting = 0"
| "life_rank kConnected = 1"
| "life_rank kDisconnecting = 2"
| "life_rank kDisconnected = 3"

lemma life_rank_inject: "life_rank s = life_rank t \<longleftrightarrow> s = t"
  by (cases s; cases t) simp_all

instantiation conn_state :: linorder
begin

definition less_eq_conn_state :: "conn_state \<Rightarrow> conn_state \<Rightarrow> bool" where
  "less_eq_conn_state s t \<longleftrightarrow> life_rank s \<le> life_rank t"

definition less_conn_state :: "conn_state \<Rightarrow> conn_state \<Rightarrow> bool" where
  "less_conn_state s t \<longleftrightarrow> life_rank s < life_rank t"

instance
  by standard (auto simp: less_eq_conn_state_def less_conn_state_def life_rank_inject)

end

lemma conn_state_bounds [simp]: "kConnecting \<le> s" "s \<le> kDisconnected" "kDisconnected \<le> s \<longleftrightarrow> s = kDisconnected"
  by (cases s; simp add: less_eq_conn_state_def)+

locale forward_commands = safe_commands exec inv ok
  for exec :: "'c \<Rightarrow> 's \<Rightarrow> 's result" and inv :: "'s \<Rightarrow> bool" and ok :: "'c \<Rightarrow> 's \<Rightarrow> bool" +
  fixes rank :: "'s \<Rightarrow> 'o :: linorder"
  assumes exec_forward: "inv s \<Longrightarrow> ok c s \<Longrightarrow> exec c s = Inr s' \<Longrightarrow> rank s \<le> rank s'"
begin

lemma foldR_forward: "inv s \<Longrightarrow> allowed exec ok cs s \<Longrightarrow> \<exists>s'. foldR exec cs s = Inr s' \<and> inv s' \<and> rank s \<le> rank s'"
proof (induction cs arbitrary: s)
  case (Cons c cs)
  then obtain s1 where s1: "exec c s = Inr s1" "inv s1" "rank s \<le> rank s1"
    using exec_safe [of s c] exec_forward [of s c] by auto
  with Cons.prems Cons.IH [of s1] order_trans [OF s1(3)] show ?case by auto
qed simp

end

lemma life_step_forward: "life_step w w' \<Longrightarrow> c_state w \<le> c_state w'"
  by (auto simp: life_step_def onward_def less_eq_conn_state_def up_def)

lemma conn_exec_forward:
  assumes K: "kernel_contract K interest" and cbs: "cbs_onward interest cbs" and inv: "conn_inv interest w"
    and ok: "conn_ok cbs c w" and w': "conn_exec K cbs c w = Inr w'"
  shows "c_state w \<le> c_state w'"
proof (cases "users c w")
  case True
  then show ?thesis using conn_exec_life [OF K cbs inv ok] w' life_step_forward [of w w'] by auto
next
  case False
  then consider "c = Establish" | ts where "c = RunTask" "c_tasks w = ConnectDestroyed # ts"
    by (auto simp: users_def split: list.splits)
  then show ?thesis
  proof cases
    case 1
    then show ?thesis using ok by simp
  next
    case (2 ts)
    have i: "conn_inv interest (w\<lparr>c_tasks := ts\<rparr>)" by (rule conn_inv_same [OF inv]) simp_all
    have d: "destroyable (w\<lparr>c_tasks := ts\<rparr>)" using ok 2 by (simp add: destroyable_def)
    from connectDestroyed_ok [OF K i d, of cbs] show ?thesis using w' 2 by (auto simp: run_task_def)
  qed
qed

interpretation tcp_order: forward_commands "conn_exec K cbs"
  "\<lambda>w. kernel_contract K interest \<and> cbs_onward interest cbs \<and> conn_inv interest w" "conn_ok cbs" c_state
  for K cbs interest
proof
  fix w c
  assume i: "kernel_contract K interest \<and> cbs_onward interest cbs \<and> conn_inv interest w" and ok: "conn_ok cbs c w"
  show "\<exists>w'. conn_exec K cbs c w = Inr w' \<and> kernel_contract K interest \<and> cbs_onward interest cbs \<and> conn_inv interest w'"
    using tcp_conn.exec_safe [of K interest cbs w c] i ok cbs_onward_ok by blast
  show "c_state w \<le> c_state w'" if "conn_exec K cbs c w = Inr w'" for w'
    using conn_exec_forward [OF _ _ _ ok that] i by blast
qed

text \<open>Over any allowed history a connection goes through its states in one direction, and a closed one stays closed.\<close>

theorem conn_state_forward:
  assumes "kernel_contract K interest" "cbs_onward interest cbs" "conn_inv interest w" "allowed (conn_exec K cbs) (conn_ok cbs) cmds w"
  shows "\<exists>w'. foldR (conn_exec K cbs) cmds w = Inr w' \<and> c_state w \<le> c_state w' \<and>
    (c_state w = kDisconnected \<longrightarrow> c_state w' = kDisconnected)"
proof -
  obtain w' where "foldR (conn_exec K cbs) cmds w = Inr w'" "c_state w \<le> c_state w'"
    using tcp_order.foldR_forward [of K interest cbs w cmds] assms by blast
  then show ?thesis by (intro exI [of _ w']) auto
qed

end
