(* ===== verification/Lute_ServerDrain.thy ===== *)
theory Lute_ServerDrain
  imports Lute_TCPServer
begin

text \<open>
  Closed connections are cleaned up: when the loops of a server get to run, in turn, the functors that were queued to them
  (\<^verbatim>\<open>polaris/src/TCPServer.cc\<close>), the queues become empty, although functors queue functors.
\<close>

section \<open>The loops of a server\<close>

definition loops_in :: "nat set \<Rightarrow> server \<Rightarrow> bool" where
  "loops_in L s \<longleftrightarrow> p_base (s_pool s) \<in> L \<and> set (p_loops (s_pool s)) \<subseteq> L \<and>
     (\<forall>p c. s_objs s p = Some c \<longrightarrow> sc_loop c \<in> L) \<and> (\<forall>l. s_queues s l \<noteq> [] \<longrightarrow> l \<in> L)"

lemma loops_inD:
  assumes "loops_in L s"
  shows "p_base (s_pool s) \<in> L" "set (p_loops (s_pool s)) \<subseteq> L" "s_objs s p = Some c \<Longrightarrow> sc_loop c \<in> L"
    "s_queues s l \<noteq> [] \<Longrightarrow> l \<in> L"
  using assms unfolding loops_in_def by blast+

lemma loops_in_queue: "loops_in L s \<Longrightarrow> l \<in> L \<Longrightarrow> loops_in L (queue_to l f s)"
  by (auto simp: loops_in_def queue_to_def)

lemma loops_in_conn: "loops_in L s \<Longrightarrow> s_objs s p = Some c \<Longrightarrow> sc_loop c' = sc_loop c \<Longrightarrow> loops_in L (set_conn p c' s)"
  by (auto simp: loops_in_def set_conn_def)

lemma loops_in_same:
  "loops_in L s \<Longrightarrow> s_pool t = s_pool s \<Longrightarrow> s_objs t = s_objs s \<Longrightarrow> s_queues t = s_queues s \<Longrightarrow> loops_in L t"
  by (auto simp: loops_in_def)

lemma loops_in_establish: "loops_in L s \<Longrightarrow> do_establish p s = Inr t \<Longrightarrow> loops_in L t"
  using loops_in_conn by (fastforce simp: do_establish_def conn_deref_def result_simps split: option.splits)

lemma loops_in_destroy:
  assumes "loops_in L s" "do_destroy p s = Inr t"
  shows "loops_in L t"
proof -
  obtain c where c: "s_objs s p = Some c" "t = (set_conn p (c\<lparr>sc_state := kDisconnected\<rparr>) s)\<lparr>s_destroyed := s_destroyed s @ [p]\<rparr>"
    using assms(2) by (auto simp: do_destroy_def conn_deref_def result_simps split: option.splits)
  have "loops_in L (set_conn p (c\<lparr>sc_state := kDisconnected\<rparr>) s)" by (rule loops_in_conn [OF assms(1) c(1)]) simp
  then show ?thesis unfolding c(2) by (rule loops_in_same) simp_all
qed

lemma loops_in_shutdown: "loops_in L s \<Longrightarrow> shutdown_conn p s = Inr t \<Longrightarrow> loops_in L t"
  using loops_in_conn [of L s p] by (cases "s_objs s p") (auto simp: shutdown_conn_def conn_deref_def split: if_splits)

lemma loops_in_remove:
  assumes "loops_in L s" "removeConnectionInLoop p s = Inr t"
  shows "loops_in L t"
proof -
  obtain c where c: "s_objs s p = Some c"
      "t = queue_to (sc_loop c) (DestroyConn p) (s\<lparr>s_connections := (s_connections s)(sc_name c := None)\<rparr>)"
    using assms(2) by (auto simp: removeConnectionInLoop_def server_deref_def conn_deref_def result_simps split: option.splits if_splits)
  have "loops_in L (s\<lparr>s_connections := (s_connections s)(sc_name c := None)\<rparr>)" by (rule loops_in_same [OF assms(1)]) simp_all
  then show ?thesis using c loops_inD(3) [OF assms(1) c(1)] loops_in_queue by simp
qed

lemma loops_in_close:
  assumes "loops_in L s" "close_conn p s = Inr t"
  shows "loops_in L t"
proof -
  obtain c where c: "s_objs s p = Some c" "removeConnection (sc_loop c) p (set_conn p (c\<lparr>sc_state := kDisconnected\<rparr>) s) = Inr t"
    using assms(2) by (auto simp: close_conn_def conn_deref_def result_simps split: option.splits)
  let ?s = "set_conn p (c\<lparr>sc_state := kDisconnected\<rparr>) s"
  have i: "loops_in L ?s" by (rule loops_in_conn [OF assms(1) c(1)]) simp
  show ?thesis using c(2) loops_in_remove [OF i] loops_in_queue [OF i loops_inD(1) [OF i]]
    by (auto simp: removeConnection_def server_deref_def split: if_splits)
qed

lemma getNextLoop_in: "getNextLoop True p = Inr (l, p') \<Longrightarrow> l \<in> insert (p_base p) (set (p_loops p)) \<and> p_base p' = p_base p \<and> p_loops p' = p_loops p"
  by (auto simp: getNextLoop_def assertBase_def Let_def result_simps split: if_splits)

lemma loops_in_new:
  assumes "loops_in L s" "newConnection p s = Inr t"
  shows "loops_in L t"
proof -
  obtain l pool1 where g: "getNextLoop True (s_pool s) = Inr (l, pool1)"
    using assms(2) by (auto simp: newConnection_def result_simps)
  note G = getNextLoop_in [OF g]
  have l: "l \<in> L" using G loops_inD(1,2) [OF assms(1)] by auto
  let ?s1 = "s\<lparr>s_pool := pool1, s_nextConnId := s_nextConnId s + 1,
    s_objs := (s_objs s)(p \<mapsto> \<lparr>sc_name = conn_name s, sc_loop = l, sc_state = kConnecting\<rparr>),
    s_connections := (s_connections s)(conn_name s \<mapsto> p)\<rparr>"
  have i: "loops_in L ?s1" using assms(1) l G by (auto simp: loops_in_def)
  have "t = queue_to l (EstablishConn p) ?s1 \<or> do_establish p ?s1 = Inr t"
    using assms(2) g by (auto simp: newConnection_def Let_def split: if_splits)
  then show ?thesis using loops_in_queue [OF i l] loops_in_establish [OF i] by auto
qed

lemma loops_in_run:
  assumes "loops_in L s" "run_next l s = Inr t"
  shows "loops_in L t"
proof (cases "s_queues s l")
  case (Cons f fs)
  have i: "loops_in L (s\<lparr>s_queues := (s_queues s)(l := fs)\<rparr>)" using assms(1) Cons by (auto simp: loops_in_def)
  have "run_server_functor f (s\<lparr>s_queues := (s_queues s)(l := fs)\<rparr>) = Inr t" using assms(2) Cons by (simp add: run_next_def)
  then show ?thesis using loops_in_establish [OF i] loops_in_remove [OF i] loops_in_destroy [OF i]
    by (cases f) (simp_all add: run_server_functor_def)
qed (use assms in \<open>simp add: run_next_def\<close>)

lemma loops_in_exec: "loops_in L s \<Longrightarrow> server_exec c s = Inr t \<Longrightarrow> loops_in L t"
  by (cases c) (auto dest: loops_in_new loops_in_close loops_in_run loops_in_shutdown)

lemma loops_in_fold: "loops_in L s \<Longrightarrow> foldR server_exec cs s = Inr t \<Longrightarrow> loops_in L t"
  by (induction cs arbitrary: s) (auto simp: result_simps dest: loops_in_exec)

section \<open>Draining the queues\<close>

text \<open>A removal queues a destruction, the other functors queue nothing.\<close>

fun weight :: "server_functor \<Rightarrow> nat" where
  "weight (RemoveInLoop p) = 2"
| "weight (EstablishConn p) = 1"
| "weight (DestroyConn p) = 1"

definition queue_load :: "server \<Rightarrow> nat \<Rightarrow> nat" where
  "queue_load s l = sum_list (map weight (s_queues s l))"

definition load :: "nat set \<Rightarrow> server \<Rightarrow> nat" where
  "load L s = (\<Sum>l\<in>L. queue_load s l)"

lemma weight_pos: "0 < weight f"
  by (cases f) simp_all

lemma queue_load_zero: "queue_load s l = 0 \<longleftrightarrow> s_queues s l = []"
  using weight_pos by (cases "s_queues s l") (auto simp: queue_load_def)

lemma load_zero:
  assumes "loops_in L s" "finite L"
  shows "load L s = 0 \<longleftrightarrow> (\<forall>l. s_queues s l = [])"
  using assms loops_inD(4) [OF assms(1)] by (auto simp: load_def queue_load_zero)

lemma load_queues: "s_queues t = s_queues s \<Longrightarrow> load L t = load L s"
  by (simp add: load_def queue_load_def)

lemma load_push:
  assumes "finite L" "l \<in> L"
  shows "load L (queue_to l f s) = load L s + weight f"
proof -
  have "queue_load (queue_to l f s) m = queue_load s m + (if m = l then weight f else 0)" for m
    by (simp add: queue_load_def queue_to_def)
  then show ?thesis using assms by (simp add: load_def sum.distrib)
qed

lemma load_pop:
  assumes "finite L" "l \<in> L" "s_queues s l = f # fs"
  shows "load L s = load L (s\<lparr>s_queues := (s_queues s)(l := fs)\<rparr>) + weight f"
proof -
  have "queue_load s m = queue_load (s\<lparr>s_queues := (s_queues s)(l := fs)\<rparr>) m + (if m = l then weight f else 0)" for m
    using assms(3) by (simp add: queue_load_def)
  then show ?thesis using assms by (simp add: load_def sum.distrib)
qed

lemma run_next_load:
  assumes L: "loops_in L s" "finite L" and r: "run_next l s = Inr t" and q: "s_queues s l \<noteq> []"
  shows "load L t < load L s"
proof -
  obtain f fs where f: "s_queues s l = f # fs" using q by (cases "s_queues s l") auto
  let ?s = "s\<lparr>s_queues := (s_queues s)(l := fs)\<rparr>"
  have pop: "load L s = load L ?s + weight f" by (rule load_pop [OF L(2) loops_inD(4) [OF L(1) q] f])
  have run: "run_server_functor f ?s = Inr t" using r f by (simp add: run_next_def)
  show ?thesis
  proof (cases f)
    case (RemoveInLoop p)
    then obtain c where c: "s_objs s p = Some c"
        "t = queue_to (sc_loop c) (DestroyConn p) (?s\<lparr>s_connections := (s_connections s)(sc_name c := None)\<rparr>)"
      using run by (auto simp: run_server_functor_def removeConnectionInLoop_def server_deref_def conn_deref_def result_simps
          split: option.splits if_splits)
    have "load L t = load L ?s + 1"
      using load_push [OF L(2) loops_inD(3) [OF L(1) c(1)]] load_queues [of "?s\<lparr>s_connections := (s_connections s)(sc_name c := None)\<rparr>" ?s]
      by (simp add: c(2))
    then show ?thesis using pop RemoveInLoop by simp
  next
    case (EstablishConn p)
    then have "s_queues t = s_queues ?s"
      using run by (auto simp: run_server_functor_def do_establish_def conn_deref_def set_conn_def result_simps split: option.splits)
    from load_queues [OF this] show ?thesis using pop weight_pos [of f] by simp
  next
    case (DestroyConn p)
    then have "s_queues t = s_queues ?s"
      using run by (auto simp: run_server_functor_def do_destroy_def conn_deref_def set_conn_def result_simps split: option.splits)
    from load_queues [OF this] show ?thesis using pop weight_pos [of f] by simp
  qed
qed

text \<open>A round in which every loop may run one functor makes progress unless there is nothing to do.\<close>

lemma round_load:
  assumes "server_inv s" "loops_in L s" "finite L"
  shows "\<exists>t. foldR server_exec (map RunLoop ls) s = Inr t \<and> server_inv t \<and> loops_in L t \<and> load L t \<le> load L s \<and>
    (load L t = load L s \<longrightarrow> (\<forall>l \<in> set ls. s_queues s l = []))"
  using assms(1,2)
proof (induction ls arbitrary: s)
  case (Cons l ls)
  obtain s1 where s1: "run_next l s = Inr s1" "server_inv s1" using server.exec_safe [OF Cons.prems(1), of "RunLoop l"] by auto
  have L1: "loops_in L s1" by (rule loops_in_run [OF Cons.prems(2) s1(1)])
  obtain t where t: "foldR server_exec (map RunLoop ls) s1 = Inr t" "server_inv t" "loops_in L t" "load L t \<le> load L s1"
      "load L t = load L s1 \<Longrightarrow> \<forall>l \<in> set ls. s_queues s1 l = []" using Cons.IH [OF s1(2) L1] by blast
  show ?case
  proof (cases "s_queues s l = []")
    case True
    then have "s1 = s" using s1(1) by (simp add: run_next_def)
    then show ?thesis using t True s1(1) by (intro exI [of _ t]) simp
  next
    case False
    then have "load L s1 < load L s" by (rule run_next_load [OF Cons.prems(2) assms(3) s1(1)])
    then show ?thesis using t s1(1) by (intro exI [of _ t]) simp
  qed
qed simp

lemma rounds_drain:
  assumes "server_inv s" "loops_in (set ls) s" "load (set ls) s \<le> n"
  shows "\<exists>t. foldR server_exec (concat (replicate n (map RunLoop ls))) s = Inr t \<and> server_inv t \<and> (\<forall>l. s_queues t l = [])"
  using assms
proof (induction n arbitrary: s)
  case 0
  then show ?case using load_zero [OF 0(2)] by simp
next
  case (Suc n)
  obtain s1 where s1: "foldR server_exec (map RunLoop ls) s = Inr s1" "server_inv s1" "loops_in (set ls) s1"
      "load (set ls) s1 \<le> load (set ls) s" "load (set ls) s1 = load (set ls) s \<Longrightarrow> \<forall>l \<in> set ls. s_queues s l = []"
    using round_load [OF Suc.prems(1,2), of ls] by auto
  have "load (set ls) s1 \<le> n"
  proof (cases "load (set ls) s1 = load (set ls) s")
    case True
    then have "\<forall>l. s_queues s l = []" using s1(5) loops_inD(4) [OF Suc.prems(2)] by blast
    then show ?thesis using True load_zero [OF Suc.prems(2)] by simp
  qed (use s1(4) Suc.prems(3) in simp)
  from Suc.IH [OF s1(2,3) this] show ?case using s1(1) by (simp add: foldR_append)
qed

text \<open>Running functors neither closes a connection nor opens it again.\<close>

lemma run_next_closed:
  assumes inv: "server_inv s" and r: "run_next l s = Inr t" and c: "s_objs s p = Some c"
  shows "\<exists>d. s_objs t p = Some d \<and> sc_name d = sc_name c \<and> (sc_state d = kDisconnected \<longleftrightarrow> sc_state c = kDisconnected)"
proof (cases "s_queues s l")
  case (Cons f fs)
  have ok: "functor_ok s l f" using server_invD(6) [OF inv, of f l] Cons by simp
  have run: "run_server_functor f (s\<lparr>s_queues := (s_queues s)(l := fs)\<rparr>) = Inr t" using r Cons by (simp add: run_next_def)
  show ?thesis using ok run c
    by (cases f) (auto simp: functor_ok_def run_server_functor_def do_establish_def do_destroy_def removeConnectionInLoop_def
        server_deref_def conn_deref_def set_conn_def queue_to_def result_simps split: option.splits if_splits)
qed (use r c in \<open>simp add: run_next_def\<close>)

lemma runs_closed:
  assumes "server_inv s" "foldR server_exec (map RunLoop ls) s = Inr t" "s_objs s p = Some c"
  shows "\<exists>d. s_objs t p = Some d \<and> sc_name d = sc_name c \<and> (sc_state d = kDisconnected \<longleftrightarrow> sc_state c = kDisconnected)"
  using assms
proof (induction ls arbitrary: s c)
  case (Cons l ls)
  then obtain s1 where s1: "run_next l s = Inr s1" "foldR server_exec (map RunLoop ls) s1 = Inr t" by (auto simp: result_simps)
  have "server_inv s1" using server.exec_safe [OF Cons.prems(1), of "RunLoop l"] s1(1) by auto
  moreover obtain d where d: "s_objs s1 p = Some d" "sc_name d = sc_name c" "sc_state d = kDisconnected \<longleftrightarrow> sc_state c = kDisconnected"
    using run_next_closed [OF Cons.prems(1) s1(1) Cons.prems(3)] by blast
  ultimately show ?case using Cons.IH [OF _ s1(2) d(1)] by auto
qed simp

lemma drained:
  assumes inv: "server_inv t" and q: "\<forall>l. s_queues t l = []" and c: "s_objs t p = Some c"
  shows "(sc_state c = kDisconnected \<longleftrightarrow> p \<in> set (s_destroyed t)) \<and> (sc_state c = kDisconnected \<longleftrightarrow> s_connections t (sc_name c) = None)"
  using server_invD(7) [OF inv c] server_invD(12) [OF inv, of p] q c by (cases "sc_state c") (auto simp: phase_ok_def)

lemma started_loops:
  assumes "bindR (server_setThreadNum n (TCPServer loop ipPort name)) (server_start startLoop True hasCallback) = Inr s0"
  shows "loops_in (set (p_base (s_pool s0) # p_loops (s_pool s0))) s0"
  using assms by (auto simp: server_setThreadNum_def server_start_def TCPServer_def loops_in_def result_simps split: if_splits)

text \<open>C18. What was closed is cleaned up: after any history of a started server, let its loops run the functors that are queued to them, in turn,
  as often as there are queued functors (a removal counting twice).  No assert fails, all queues are empty then, and exactly the
  connections that were closed are destroyed and have left the map.\<close>

theorem server_drains:
  assumes "inet6_text ntop6 pton6" "length listenAddr = 28" "inet_toIpPort ntop6 e listenAddr = Inr ipPort" "0 \<le> n"
    "bindR (server_setThreadNum n (TCPServer loop ipPort name)) (server_start startLoop True hasCallback) = Inr s0"
    "allowed server_exec server_ok cmds s0" "foldR server_exec cmds s0 = Inr s" "ls = p_base (s_pool s0) # p_loops (s_pool s0)"
    "load (set ls) s \<le> k"
  shows "\<exists>t. foldR server_exec (concat (replicate k (map RunLoop ls))) s = Inr t \<and> (\<forall>l. s_queues t l = []) \<and>
    (\<forall>p c. s_objs s p = Some c \<longrightarrow>
       (p \<in> set (s_destroyed t) \<longleftrightarrow> sc_state c = kDisconnected) \<and>
       (s_connections t (sc_name c) = None \<longleftrightarrow> sc_state c = kDisconnected))"
proof -
  have "server_inv s0" by (rule TCPServer_inv [OF toIpPort_length [OF assms(1-3)] assms(4,5)])
  then have inv: "server_inv s" using server.foldR_inv [OF _ assms(6,7)] by blast
  have L: "loops_in (set ls) s" using loops_in_fold [OF _ assms(7)] started_loops [OF assms(5)] assms(8) by blast
  obtain t where t: "foldR server_exec (concat (replicate k (map RunLoop ls))) s = Inr t" "server_inv t" "\<forall>l. s_queues t l = []"
    using rounds_drain [OF inv L assms(9)] by blast
  have "concat (replicate k (map RunLoop ls)) = map RunLoop (concat (replicate k ls))" by (simp add: map_concat)
  then have f: "foldR server_exec (map RunLoop (concat (replicate k ls))) s = Inr t" using t(1) by simp
  have "(p \<in> set (s_destroyed t) \<longleftrightarrow> sc_state c = kDisconnected) \<and> (s_connections t (sc_name c) = None \<longleftrightarrow> sc_state c = kDisconnected)"
    if "s_objs s p = Some c" for p c
    using runs_closed [OF inv f that] drained [OF t(2,3)] by metis
  then show ?thesis using t by blast
qed

theorem server_drains_witness:
  "\<exists>s0 s t. bindR (server_setThreadNum 1 (TCPServer 1 ''0.0.0.0:80'' ''srv'')) (server_start (\<lambda>i. 10 + i) True False) = Inr s0 \<and>
    foldR server_exec [NewConn 5, RunLoop 10, CloseConn 5] s0 = Inr s \<and> s_queues s 1 = [RemoveInLoop 5] \<and>
    foldR server_exec [RunLoop 1, RunLoop 10, RunLoop 1, RunLoop 10] s = Inr t \<and> (\<forall>l. s_queues t l = []) \<and> 5 \<in> set (s_destroyed t)"
proof -
  let ?cmds = "[NewConn 5, RunLoop 10, CloseConn 5]"
  obtain s0 where s0: "bindR (server_setThreadNum 1 (TCPServer 1 ''0.0.0.0:80'' ''srv'')) (server_start (\<lambda>i. 10 + i) True False) = Inr s0"
      "s0 = (TCPServer 1 ''0.0.0.0:80'' ''srv'')\<lparr>s_pool := start_threads (\<lambda>i. 10 + i) [0]
        ((setThreadNum 1 (EventLoopThreadPool 1 ''srv''))\<lparr>p_started := True\<rparr>), s_started := True, s_listenning := True\<rparr>"
    by (simp add: server_setThreadNum_def server_start_def TCPServer_def pool_start_def assertBase_def Let_def
        setThreadNum_def EventLoopThreadPool_def upt_rec)
  have ls: "p_base (s_pool s0) # p_loops (s_pool s0) = [1, 10]"
    by (simp add: s0(2) setThreadNum_def EventLoopThreadPool_def)
  note defs = s0(2) Let_def TCPServer_def setThreadNum_def EventLoopThreadPool_def newConnection_def getNextLoop_def assertBase_def
    queue_to_def run_next_def run_server_functor_def do_establish_def conn_deref_def set_conn_def close_conn_def
    removeConnection_def server_deref_def conn_name_def
  have al: "allowed server_exec server_ok ?cmds s0" by (simp add: defs)
  obtain s where s: "foldR server_exec ?cmds s0 = Inr s" "s_queues s = (\<lambda>l. if l = 1 then [RemoveInLoop 5] else [])"
      "\<exists>c. s_objs s 5 = Some c \<and> sc_state c = kDisconnected"
    by (simp add: defs fun_eq_iff)
  have "load (set [1, 10]) s \<le> 2" using s(2) by (simp add: load_def queue_load_def)
  moreover have "concat (replicate 2 (map RunLoop [1, 10])) = [RunLoop 1, RunLoop 10, RunLoop 1, RunLoop 10]" by (simp add: numeral_2_eq_2)
  moreover have "inet_toIpPort full_ntop6 LittleEndian (InetAddress_port LittleEndian (replicate 28 (CHR 0x00)) 80 False False) = Inr ''0.0.0.0:80''"
    using InetAddress_port_text(1) [of "replicate 28 (CHR 0x00)" full_ntop6 LittleEndian 80]
    by (simp add: dec.simps digit_def char_of_def bit_iff_odd_drop_bit drop_bit_eq_div)
  moreover have "length (InetAddress_port LittleEndian (replicate 28 (CHR 0x00)) 80 False False) = 28" by (simp add: InetAddress_port_def Let_def)
  ultimately obtain t where "foldR server_exec [RunLoop 1, RunLoop 10, RunLoop 1, RunLoop 10] s = Inr t" "\<forall>l. s_queues t l = []"
      "5 \<in> set (s_destroyed t)"
    using server_drains [OF inet6_text_full _ _ _ s0(1) al s(1) refl, of _ LittleEndian 2] s(3) unfolding ls by fastforce
  then show ?thesis using s0(1) s(1,2) by (intro exI [of _ s0] exI [of _ s] exI [of _ t]) simp
qed

end
