(* ===== verification/Lute_Sockets.thy ===== *)
theory Lute_Sockets
  imports Lute_InetAddress
begin

text \<open>
  The system-call wrappers and the class \<^verbatim>\<open>Socket\<close> of \<^verbatim>\<open>polaris/src/Sockets.cc\<close>.  The answers of the kernel are arguments.
  The build for valgrind and for systems without \<^verbatim>\<open>accept4\<close> is in \<open>Lute_SocketBuilds\<close>.
\<close>

section \<open>Wrappers\<close>

definition EPERM :: int where "EPERM = 1"
definition EINTR :: int where "EINTR = 4"
definition EAGAIN :: int where "EAGAIN = 11"
definition EMFILE :: int where "EMFILE = 24"
definition EPROTO :: int where "EPROTO = 71"
definition ECONNABORTED :: int where "ECONNABORTED = 103"

lemmas accept_errno = EPERM_def EINTR_def EAGAIN_def EMFILE_def EPROTO_def ECONNABORTED_def

text \<open>\<^verbatim>\<open>LOG_SYSFATAL\<close> ends the process.\<close>

definition orDie :: "int \<Rightarrow> int result" where
  "orDie ret = (if ret < 0 then Inl Fatal else Inr ret)"

definition createNonblockingOrDie :: "int \<Rightarrow> int result" where
  "createNonblockingOrDie sockfd = orDie sockfd"

definition bindOrDie :: "int \<Rightarrow> unit result" where
  "bindOrDie ret = bindR (orDie ret) (\<lambda>_. Inr ())"

definition listenOrDie :: "int \<Rightarrow> unit result" where
  "listenOrDie ret = bindR (orDie ret) (\<lambda>_. Inr ())"

text \<open>The answer of \<^verbatim>\<open>accept4\<close>: a descriptor with the bytes of the peer's address, or an error.\<close>

datatype accept_reply = Accepted int "byte list" | AcceptFailed int

text \<open>The result: \<^verbatim>\<open>connfd\<close>, the address and \<^verbatim>\<open>errno\<close> (0 after success).\<close>

definition sockets_accept :: "accept_reply \<Rightarrow> byte list \<Rightarrow> (int \<times> byte list \<times> int) result" where
  "sockets_accept reply a =
     (case reply of
        Accepted connfd bs \<Rightarrow> Inr (connfd, poke 0 (take 28 bs) a, 0)
      | AcceptFailed savedErrno \<Rightarrow>
          if savedErrno \<in> {EAGAIN, ECONNABORTED, EINTR, EPROTO, EPERM, EMFILE} then Inr (-1, a, savedErrno)
          else Inl Fatal)"

definition getSocketError :: "int \<Rightarrow> int \<Rightarrow> int \<Rightarrow> int" where
  "getSocketError ret optval errno = (if ret < 0 then errno else optval)"

section \<open>The class \<open>Socket\<close>\<close>

datatype sockopt = TCP_NODELAY | SO_REUSEADDR | SO_REUSEPORT | SO_KEEPALIVE

text \<open>A \<^verbatim>\<open>Socket\<close> object is its descriptor; \<open>sock_world\<close> is what its member functions did to the kernel.\<close>

record sock_world =
  so_closed :: "int list"
  so_shut :: "int list"
  so_opts :: "int \<Rightarrow> sockopt \<rightharpoonup> int"

definition Socket :: "int \<Rightarrow> int" where
  "Socket sockfd = sockfd"

text \<open>The move constructor: \<^verbatim>\<open>std::move\<close> of a \<^verbatim>\<open>const int\<close> copies it.  It returns the new and the old object.\<close>

definition Socket_move :: "int \<Rightarrow> int \<times> int" where
  "Socket_move that = (that, that)"

definition sockets_close :: "int \<Rightarrow> sock_world \<Rightarrow> sock_world" where
  "sockets_close sockfd w = w\<lparr>so_closed := so_closed w @ [sockfd]\<rparr>"

definition Socket_dtor :: "int \<Rightarrow> sock_world \<Rightarrow> sock_world" where
  "Socket_dtor s w = sockets_close s w"

definition sockets_shutdownWrite :: "int \<Rightarrow> sock_world \<Rightarrow> sock_world" where
  "sockets_shutdownWrite sockfd w = w\<lparr>so_shut := so_shut w @ [sockfd]\<rparr>"

definition Socket_shutdownWrite :: "int \<Rightarrow> sock_world \<Rightarrow> sock_world" where
  "Socket_shutdownWrite s w = sockets_shutdownWrite s w"

definition bindAddress :: "int \<Rightarrow> unit result" where
  "bindAddress ret = bindOrDie ret"

definition Socket_listen :: "int \<Rightarrow> unit result" where
  "Socket_listen ret = listenOrDie ret"

definition Socket_accept :: "accept_reply \<Rightarrow> inetAddress \<Rightarrow> (int \<times> inetAddress \<times> int) result" where
  "Socket_accept reply peeraddr =
     bindR (sockets_accept reply (replicate 28 (CHR 0x00))) (\<lambda>(connfd, a, errno).
       Inr (connfd, if 0 \<le> connfd then setSockAddrInet6 a peeraddr else peeraddr, errno))"

text \<open>\<open>ret\<close> is the answer of \<^verbatim>\<open>setsockopt\<close>; the outcome is only logged.\<close>

definition setOption :: "sockopt \<Rightarrow> int \<Rightarrow> bool \<Rightarrow> int \<Rightarrow> sock_world \<Rightarrow> sock_world" where
  "setOption o' ret on s w =
     (let optval = (if on then 1 else 0)
      in if ret = 0 then w\<lparr>so_opts := (so_opts w)(s := (so_opts w s)(o' \<mapsto> optval))\<rparr> else w)"

definition setTcpNoDelay :: "int \<Rightarrow> bool \<Rightarrow> int \<Rightarrow> sock_world \<Rightarrow> sock_world" where
  "setTcpNoDelay = setOption TCP_NODELAY"

definition setReuseAddr :: "int \<Rightarrow> bool \<Rightarrow> int \<Rightarrow> sock_world \<Rightarrow> sock_world" where
  "setReuseAddr = setOption SO_REUSEADDR"

definition setReusePort :: "int \<Rightarrow> bool \<Rightarrow> int \<Rightarrow> sock_world \<Rightarrow> sock_world" where
  "setReusePort = setOption SO_REUSEPORT"

definition setKeepAlive :: "int \<Rightarrow> bool \<Rightarrow> int \<Rightarrow> sock_world \<Rightarrow> sock_world" where
  "setKeepAlive = setOption SO_KEEPALIVE"

text \<open>The members of \<^verbatim>\<open>tcp_info\<close> that are printed, in the order of the text.\<close>

record tcp_info =
  tcpi_retransmits :: "8 word"
  tcpi_rto :: "32 word"
  tcpi_ato :: "32 word"
  tcpi_snd_mss :: "32 word"
  tcpi_rcv_mss :: "32 word"
  tcpi_lost :: "32 word"
  tcpi_retrans :: "32 word"
  tcpi_rtt :: "32 word"
  tcpi_rttvar :: "32 word"
  tcpi_snd_ssthresh :: "32 word"
  tcpi_snd_cwnd :: "32 word"
  tcpi_total_retrans :: "32 word"

definition tcp_info_text :: "tcp_info \<Rightarrow> string" where
  "tcp_info_text t = concat (map (\<lambda>(k, n). k @ dec n)
     [(''unrecovered='', unat (tcpi_retransmits t)), ('' rto='', unat (tcpi_rto t)), ('' ato='', unat (tcpi_ato t)),
      ('' snd_mss='', unat (tcpi_snd_mss t)), ('' rcv_mss='', unat (tcpi_rcv_mss t)), ('' lost='', unat (tcpi_lost t)),
      ('' retrans='', unat (tcpi_retrans t)), ('' rtt='', unat (tcpi_rtt t)), ('' rttvar='', unat (tcpi_rttvar t)),
      ('' sshthresh='', unat (tcpi_snd_ssthresh t)), ('' cwnd='', unat (tcpi_snd_cwnd t)),
      ('' total_retrans='', unat (tcpi_total_retrans t))])"

text \<open>\<open>reply\<close> is what \<^verbatim>\<open>getsockopt\<close> fills in, if it succeeds; \<open>buf\<close> the string in the buffer before.\<close>

definition getTcpInfo :: "tcp_info option \<Rightarrow> bool" where
  "getTcpInfo reply \<longleftrightarrow> reply \<noteq> None"

definition getTcpInfoString :: "tcp_info option \<Rightarrow> string \<Rightarrow> nat \<Rightarrow> bool \<times> string" where
  "getTcpInfoString reply buf len =
     (case reply of None \<Rightarrow> (False, buf) | Some t \<Rightarrow> (True, take (len - 1) (tcp_info_text t)))"

definition conn_getTcpInfoString :: "tcp_info option \<Rightarrow> string" where
  "conn_getTcpInfoString reply = snd (getTcpInfoString reply [] 1024)"

section \<open>Properties of sockets\<close>

text \<open>\<^verbatim>\<open>Socket::accept\<close> keeps its contract: a non-negative descriptor comes with the whole address of the peer, over a
  cleared rest; after one of the six expected errors it is -1, the caller's address is untouched and \<^verbatim>\<open>errno\<close> is that of
  the call; every other error ends the process.\<close>

theorem Socket_accept_contract:
  assumes "0 \<le> fd" "length bs \<le> 28"
  shows "Socket_accept (Accepted fd bs) peer = Inr (fd, bs @ replicate (28 - length bs) (CHR 0x00), 0) \<and>
    Socket_accept (AcceptFailed en) peer =
      (if en \<in> {EAGAIN, ECONNABORTED, EINTR, EPROTO, EPERM, EMFILE} then Inr (-1, peer, en) else Inl Fatal)"
  using assms by (simp add: Socket_accept_def sockets_accept_def setSockAddrInet6_def poke_def)

theorem Socket_accept_contract_witness:
  "Socket_accept (Accepted 7 [CHR 0x02, CHR 0x00]) [] = Inr (7, [CHR 0x02, CHR 0x00] @ replicate 26 (CHR 0x00), 0)"
  using Socket_accept_contract [of 7 "[CHR 0x02, CHR 0x00]" "[]"] by simp

text \<open>A moved-from \<^verbatim>\<open>Socket\<close> still owns its descriptor: when the new and the old object are destroyed, the descriptor
  is closed twice.\<close>

theorem Socket_move_closes_twice:
  "(let (new, old) = Socket_move (Socket fd) in so_closed (Socket_dtor old (Socket_dtor new w))) = so_closed w @ [fd, fd]"
  by (simp add: Socket_move_def Socket_def Socket_dtor_def sockets_close_def)

lemma length_dec_word:
  assumes "LENGTH('a) \<le> 32"
  shows "length (dec (unat (n :: 'a::len word))) \<le> 10"
proof (rule dec_length)
  have "unat n < 2 ^ LENGTH('a)" by (rule unsigned_less)
  also have "\<dots> \<le> 2 ^ 32" using assms by (rule power_increasing) simp
  finally show "unat n < 10 ^ 10" by simp
qed simp

text \<open>The text of \<^verbatim>\<open>tcp_info\<close> is never cut off by the buffer that \<^verbatim>\<open>TCPConnection::getTcpInfoString\<close> gives it.\<close>

theorem tcp_info_fits: "conn_getTcpInfoString (Some t) = tcp_info_text t \<and> length (tcp_info_text t) \<le> 235"
proof -
  have "length (tcp_info_text t) \<le> 235"
    using length_dec_word [of "tcpi_retransmits t"] length_dec_word [of "tcpi_rto t"] length_dec_word [of "tcpi_ato t"]
      length_dec_word [of "tcpi_snd_mss t"] length_dec_word [of "tcpi_rcv_mss t"] length_dec_word [of "tcpi_lost t"]
      length_dec_word [of "tcpi_retrans t"] length_dec_word [of "tcpi_rtt t"] length_dec_word [of "tcpi_rttvar t"]
      length_dec_word [of "tcpi_snd_ssthresh t"] length_dec_word [of "tcpi_snd_cwnd t"] length_dec_word [of "tcpi_total_retrans t"]
    by (simp add: tcp_info_text_def)
  then show ?thesis by (simp add: conn_getTcpInfoString_def getTcpInfoString_def)
qed

end
