(* ===== verification/Lute_Connector.thy ===== *)
theory Lute_Connector
  imports Lute_EventLoop Lute_Sockets "HOL-Library.Multiset"
begin

text \<open>
  The active side of a connection, \<^verbatim>\<open>polaris/src/Connector.cc\<close>: a non-blocking \<^verbatim>\<open>connect\<close>, its completion reported
  by the poller, and retries with a growing delay.  The connector extends the channels of its loop.  The answers
  of the kernel (the new socket, the error of \<^verbatim>\<open>connect\<close>, \<^verbatim>\<open>SO_ERROR\<close>, whether the socket is connected to itself)
  are arguments of the operations that ask for them; the callback for new connections is a parameter.
\<close>

datatype connector_state = kDisconnected_c | kConnecting_c | kConnected_c

definition kMaxRetryDelayMs :: int where "kMaxRetryDelayMs = 30 * 1000"
definition kInitRetryDelayMs :: int where "kInitRetryDelayMs = 500"

datatype connector_functor = StartInLoop | StopInLoop | ResetChannel

text \<open>
  \<open>x_functors\<close> are the functors queued to the loop and \<open>x_timers\<close> the delays of the scheduled calls of
  \<^verbatim>\<open>startInLoop\<close>.  For the specification, \<open>x_created\<close>, \<open>x_closed\<close> and \<open>x_delivered\<close> record the sockets that were
  created, closed and handed to the callback, and \<open>x_delays\<close> all delays ever scheduled.
\<close>

record 'k connector = "'k reactor" +
  x_connect :: bool
  x_state :: connector_state
  x_channel :: "addr option"
  x_retryDelayMs :: int
  x_functors :: "connector_functor list"
  x_timers :: "int list"
  x_created :: "int list"
  x_closed :: "int list"
  x_delivered :: "int list"
  x_delays :: "int list"

type_synonym ('k, 'z) cnr = "('k, 'z) connector_scheme"
type_synonym 'w newConnectionCallback = "(int \<Rightarrow> 'w \<Rightarrow> 'w result) option"

section \<open>Operations\<close>

definition Connector :: "'k reactor \<Rightarrow> 'k connector" where
  "Connector w = reactor.extend w (connector.fields False kDisconnected_c None kInitRetryDelayMs [] [] [] [] [] [])"

definition Connector_dtor :: "('k, 'z) cnr \<Rightarrow> ('k, 'z) cnr result" where
  "Connector_dtor w = assertR (x_channel w = None) (Inr w)"

definition setState_c :: "connector_state \<Rightarrow> ('k, 'z) cnr \<Rightarrow> ('k, 'z) cnr" where
  "setState_c s w = w\<lparr>x_state := s\<rparr>"

definition queue_functor :: "connector_functor \<Rightarrow> ('k, 'z) cnr \<Rightarrow> ('k, 'z) cnr" where
  "queue_functor f w = w\<lparr>x_functors := x_functors w @ [f]\<rparr>"

definition close_fd :: "int \<Rightarrow> ('k, 'z) cnr \<Rightarrow> ('k, 'z) cnr" where
  "close_fd fd w = w\<lparr>x_closed := x_closed w @ [fd]\<rparr>"

definition retry :: "int \<Rightarrow> ('k, 'z) cnr \<Rightarrow> ('k, 'z) cnr" where
  "retry sockfd w =
     (let w1 = setState_c kDisconnected_c (close_fd sockfd w)
      in if x_connect w1
         then w1\<lparr>x_timers := x_timers w1 @ [x_retryDelayMs w1], x_delays := x_delays w1 @ [x_retryDelayMs w1],
                 x_retryDelayMs := min (x_retryDelayMs w1 * 2) kMaxRetryDelayMs\<rparr>
         else w1)"

text \<open>The new channel is allocated at the address \<open>p\<close>.\<close>

definition connecting :: "'k epoll_ctl \<Rightarrow> addr \<Rightarrow> int \<Rightarrow> ('k, 'z) cnr \<Rightarrow> ('k, 'z) cnr result" where
  "connecting ctl p sockfd w =
     (let w1 = setState_c kConnecting_c w
      in assertR (x_channel w1 = None)
           (bindR (new_channel p sockfd w1) (\<lambda>w2.
              enableWriting ctl p (w2\<lparr>x_channel := Some p\<rparr>))))"

definition EADDRINUSE :: int where "EADDRINUSE = 98"
definition EADDRNOTAVAIL :: int where "EADDRNOTAVAIL = 99"
definition ENETUNREACH :: int where "ENETUNREACH = 101"
definition EISCONN :: int where "EISCONN = 106"
definition ECONNREFUSED :: int where "ECONNREFUSED = 111"
definition EINPROGRESS :: int where "EINPROGRESS = 115"

lemmas errno_defs = EINTR_def EAGAIN_def EADDRINUSE_def EADDRNOTAVAIL_def ENETUNREACH_def EISCONN_def
  ECONNREFUSED_def EINPROGRESS_def

text \<open>\<open>sockfd\<close> is the socket that \<^verbatim>\<open>createNonblockingOrDie\<close> returns, \<open>savedErrno\<close> the outcome of \<^verbatim>\<open>connect\<close>.\<close>

definition connector_connect ::
  "'k epoll_ctl \<Rightarrow> addr \<Rightarrow> int \<Rightarrow> int \<Rightarrow> ('k, 'z) cnr \<Rightarrow> ('k, 'z) cnr result" where
  "connector_connect ctl p sockfd savedErrno w =
     (let w1 = w\<lparr>x_created := x_created w @ [sockfd]\<rparr>
      in if savedErrno \<in> {0, EINPROGRESS, EINTR, EISCONN} then connecting ctl p sockfd w1
         else if savedErrno \<in> {EAGAIN, EADDRINUSE, EADDRNOTAVAIL, ECONNREFUSED, ENETUNREACH} then Inr (retry sockfd w1)
         else Inr (close_fd sockfd w1))"

definition startInLoop ::
  "'k epoll_ctl \<Rightarrow> addr \<Rightarrow> int \<Rightarrow> int \<Rightarrow> ('k, 'z) cnr \<Rightarrow> ('k, 'z) cnr result" where
  "startInLoop ctl p sockfd savedErrno w =
     assertInLoopThread w
       (assertR (x_state w = kDisconnected_c)
         (if x_connect w then connector_connect ctl p sockfd savedErrno w else Inr w))"

definition connector_start ::
  "'k epoll_ctl \<Rightarrow> addr \<Rightarrow> int \<Rightarrow> int \<Rightarrow> ('k, 'z) cnr \<Rightarrow> ('k, 'z) cnr result" where
  "connector_start ctl p sockfd savedErrno w =
     (let w1 = w\<lparr>x_connect := True\<rparr>
      in if inLoopThread w1 then startInLoop ctl p sockfd savedErrno w1 else Inr (queue_functor StartInLoop w1))"

definition removeAndResetChannel :: "'k epoll_ctl \<Rightarrow> ('k, 'z) cnr \<Rightarrow> (int \<times> ('k, 'z) cnr) result" where
  "removeAndResetChannel ctl w =
     (case x_channel w of
        None \<Rightarrow> Inl NullDeref
      | Some p \<Rightarrow>
          bindR (disableAll ctl p w) (\<lambda>w1.
          bindR (chan_remove ctl p w1) (\<lambda>w2.
          deref p w2 (\<lambda>c. Inr (ch_fd c, queue_functor ResetChannel w2)))))"

definition resetChannel :: "('k, 'z) cnr \<Rightarrow> ('k, 'z) cnr result" where
  "resetChannel w =
     (case x_channel w of
        None \<Rightarrow> Inr w
      | Some p \<Rightarrow> bindR (Channel_dtor p w) (\<lambda>w1. Inr (w1\<lparr>x_channel := None\<rparr>)))"

definition stopInLoop :: "'k epoll_ctl \<Rightarrow> ('k, 'z) cnr \<Rightarrow> ('k, 'z) cnr result" where
  "stopInLoop ctl w =
     assertInLoopThread w
       (if x_state w = kConnecting_c
        then bindR (removeAndResetChannel ctl (setState_c kDisconnected_c w)) (\<lambda>(sockfd, w1). Inr (retry sockfd w1))
        else Inr w)"

definition connector_stop :: "('k, 'z) cnr \<Rightarrow> ('k, 'z) cnr" where
  "connector_stop w = queue_functor StopInLoop (w\<lparr>x_connect := False\<rparr>)"

definition connector_restart ::
  "'k epoll_ctl \<Rightarrow> addr \<Rightarrow> int \<Rightarrow> int \<Rightarrow> ('k, 'z) cnr \<Rightarrow> ('k, 'z) cnr result" where
  "connector_restart ctl p sockfd savedErrno w =
     assertInLoopThread w
       (startInLoop ctl p sockfd savedErrno
         ((setState_c kDisconnected_c w)\<lparr>x_retryDelayMs := kInitRetryDelayMs, x_connect := True\<rparr>))"

text \<open>\<open>err\<close> is the pending error of the socket, \<open>selfConnect\<close> the answer of \<^verbatim>\<open>isSelfConnect\<close>.\<close>

definition connector_handleWrite ::
  "'k epoll_ctl \<Rightarrow> ('k, 'z) cnr newConnectionCallback \<Rightarrow> int \<Rightarrow> bool \<Rightarrow> ('k, 'z) cnr \<Rightarrow> ('k, 'z) cnr result" where
  "connector_handleWrite ctl ncb err selfConnect w =
     (if x_state w = kConnecting_c
      then bindR (removeAndResetChannel ctl w) (\<lambda>(sockfd, w1).
             if err \<noteq> 0 then Inr (retry sockfd w1)
             else if selfConnect then Inr (retry sockfd w1)
             else let w2 = setState_c kConnected_c w1
                  in if x_connect w2
                     then let w3 = w2\<lparr>x_delivered := x_delivered w2 @ [sockfd]\<rparr>
                          in (case ncb of None \<Rightarrow> Inl BadFunctionCall | Some cb \<Rightarrow> cb sockfd w3)
                     else Inr (close_fd sockfd w2))
      else assertR (x_state w = kDisconnected_c) (Inr w))"

definition connector_handleError :: "'k epoll_ctl \<Rightarrow> ('k, 'z) cnr \<Rightarrow> ('k, 'z) cnr result" where
  "connector_handleError ctl w =
     (if x_state w = kConnecting_c
      then bindR (removeAndResetChannel ctl w) (\<lambda>(sockfd, w1). Inr (retry sockfd w1))
      else Inr w)"

section \<open>The invariant\<close>

text \<open>
  The channel exists while the connector is connecting, when it is registered, and after that until the queued
  \<^verbatim>\<open>resetChannel\<close> has run.  At most one retry is scheduled, and only of a disconnected connector.
\<close>

definition chan_phase :: "('k, 'z) cnr \<Rightarrow> bool" where
  "chan_phase w \<longleftrightarrow>
     (case x_channel w of
        None \<Rightarrow> x_state w \<noteq> kConnecting_c
      | Some p \<Rightarrow> \<exists>c. heap w p = Some c \<and> \<not> ch_eventHandling c \<and> (ch_index c = kNew \<longleftrightarrow> x_state w \<noteq> kConnecting_c))"

definition current_fd :: "('k, 'z) cnr \<Rightarrow> int multiset" where
  "current_fd w =
     (if x_state w = kConnecting_c
      then (case x_channel w of None \<Rightarrow> {#} | Some p \<Rightarrow> (case heap w p of None \<Rightarrow> {#} | Some c \<Rightarrow> {#ch_fd c#}))
      else {#})"

definition backoff :: "nat \<Rightarrow> int" where
  "backoff n = min (500 * 2 ^ n) 30000"

definition connector_inv :: "('k \<Rightarrow> int \<Rightarrow> epoll_event option) \<Rightarrow> ('k, 'z) cnr \<Rightarrow> bool" where
  "connector_inv interest w \<longleftrightarrow>
     reactor_inv interest w \<and> chan_phase w \<and>
     count_list (x_functors w) ResetChannel = (if x_channel w \<noteq> None \<and> x_state w \<noteq> kConnecting_c then 1 else 0) \<and>
     (x_timers w \<noteq> [] \<longrightarrow> x_state w = kDisconnected_c) \<and> length (x_timers w) \<le> 1 \<and>
     (\<exists>n. x_retryDelayMs w = backoff n) \<and> set (x_delays w) \<subseteq> range backoff \<and>
     mset (x_created w) = mset (x_closed w) + mset (x_delivered w) + current_fd w"

lemma backoff_0: "kInitRetryDelayMs = backoff 0"
  by (simp add: backoff_def kInitRetryDelayMs_def)

lemma backoff_Suc: "min (backoff n * 2) kMaxRetryDelayMs = backoff (Suc n)"
  by (simp add: backoff_def kMaxRetryDelayMs_def)

lemma backoff_bounds: "500 \<le> backoff n" "backoff n \<le> 30000"
  by (simp_all add: backoff_def)

lemma connector_invD:
  assumes "connector_inv interest w"
  shows "reactor_inv interest w" "chan_phase w" "inLoopThread w"
    "count_list (x_functors w) ResetChannel = (if x_channel w \<noteq> None \<and> x_state w \<noteq> kConnecting_c then 1 else 0)"
    "x_timers w \<noteq> [] \<Longrightarrow> x_state w = kDisconnected_c" "length (x_timers w) \<le> 1"
    "\<exists>n. x_retryDelayMs w = backoff n" "set (x_delays w) \<subseteq> range backoff"
    "mset (x_created w) = mset (x_closed w) + mset (x_delivered w) + current_fd w"
  using assms reactor_invD(1) by (auto simp: connector_inv_def)

lemma updated_cnr [simp]:
  "x_connect (updated p c k w) = x_connect w" "x_state (updated p c k w) = x_state w"
  "x_channel (updated p c k w) = x_channel w" "x_retryDelayMs (updated p c k w) = x_retryDelayMs w"
  "x_functors (updated p c k w) = x_functors w" "x_timers (updated p c k w) = x_timers w"
  "x_created (updated p c k w) = x_created w" "x_closed (updated p c k w) = x_closed w"
  "x_delivered (updated p c k w) = x_delivered w" "x_delays (updated p c k w) = x_delays w"
  "eventHandling (updated p c k w) = eventHandling w" "activeChannels (updated p c k w) = activeChannels w"
  "currentActiveChannel (updated p c k w) = currentActiveChannel w"
  "heap (updated p c k w) p = Some (c\<lparr>ch_addedToLoop := True, ch_index := next_index c\<rparr>)"
  by (simp_all add: updated_def)

lemma removed_cnr [simp]:
  "x_connect (removed p c k w) = x_connect w" "x_state (removed p c k w) = x_state w"
  "x_channel (removed p c k w) = x_channel w" "x_retryDelayMs (removed p c k w) = x_retryDelayMs w"
  "x_functors (removed p c k w) = x_functors w" "x_timers (removed p c k w) = x_timers w"
  "x_created (removed p c k w) = x_created w" "x_closed (removed p c k w) = x_closed w"
  "x_delivered (removed p c k w) = x_delivered w" "x_delays (removed p c k w) = x_delays w"
  "heap (removed p c k w) p = Some (c\<lparr>ch_addedToLoop := False, ch_index := kNew\<rparr>)"
  by (simp_all add: removed_def)

text \<open>A socket \<open>fd\<close> is in the hands of the connector and its channel is off the poller: the state between
  \<^verbatim>\<open>removeAndResetChannel\<close> and what decides about the socket.\<close>

definition released :: "('k \<Rightarrow> int \<Rightarrow> epoll_event option) \<Rightarrow> int \<Rightarrow> ('k, 'z) cnr \<Rightarrow> bool" where
  "released interest fd w \<longleftrightarrow>
     reactor_inv interest w \<and>
     (\<exists>p c. x_channel w = Some p \<and> heap w p = Some c \<and> \<not> ch_eventHandling c \<and> ch_index c = kNew) \<and>
     count_list (x_functors w) ResetChannel = 1 \<and> x_timers w = [] \<and>
     (\<exists>n. x_retryDelayMs w = backoff n) \<and> set (x_delays w) \<subseteq> range backoff \<and>
     mset (x_created w) = mset (x_closed w) + mset (x_delivered w) + {#fd#}"

lemma cnr_reactor:
  assumes "reactor_inv interest w" "heap v = heap w" "channels v = channels w" "kern v = kern w"
    "inLoopThread v = inLoopThread w"
  shows "reactor_inv interest v"
  using reactor_inv_cong [OF assms(2-5)] assms(1) by blast

lemma released_retry:
  assumes "released interest fd w"
  shows "connector_inv interest (retry fd w)"
proof -
  obtain n where n: "x_retryDelayMs w = backoff n" using assms by (auto simp: released_def)
  have r: "reactor_inv interest (retry fd w)"
    by (rule cnr_reactor [of interest w])
      (use assms in \<open>simp_all add: released_def retry_def Let_def setState_c_def close_fd_def\<close>)
  have "\<exists>m. x_retryDelayMs (retry fd w) = backoff m"
    using n backoff_Suc [of n] by (auto simp: retry_def Let_def setState_c_def close_fd_def)
  moreover have "set (x_delays (retry fd w)) \<subseteq> range backoff"
    using assms n by (auto simp: released_def retry_def Let_def setState_c_def close_fd_def)
  ultimately show ?thesis
    using r assms by (auto simp: connector_inv_def released_def retry_def Let_def setState_c_def close_fd_def chan_phase_def
      current_fd_def)
qed

lemma released_connected:
  assumes "released interest fd w"
  shows "connector_inv interest ((setState_c kConnected_c w)\<lparr>x_delivered := x_delivered w @ [fd]\<rparr>)"
    "connector_inv interest (close_fd fd (setState_c kConnected_c w))"
proof -
  have r: "reactor_inv interest ((setState_c kConnected_c w)\<lparr>x_delivered := x_delivered w @ [fd]\<rparr>)"
    "reactor_inv interest (close_fd fd (setState_c kConnected_c w))"
    by (rule cnr_reactor [of interest w], use assms in \<open>simp_all add: released_def setState_c_def close_fd_def\<close>)+
  show "connector_inv interest ((setState_c kConnected_c w)\<lparr>x_delivered := x_delivered w @ [fd]\<rparr>)"
    using r(1) assms by (auto simp: connector_inv_def released_def setState_c_def chan_phase_def current_fd_def)
  show "connector_inv interest (close_fd fd (setState_c kConnected_c w))"
    using r(2) assms by (auto simp: connector_inv_def released_def setState_c_def close_fd_def chan_phase_def current_fd_def)
qed

definition may_remove :: "('k, 'z) cnr \<Rightarrow> bool" where
  "may_remove w \<longleftrightarrow> eventHandling w \<longrightarrow>
     (\<forall>p. x_channel w = Some p \<longrightarrow> currentActiveChannel w = Some p \<or> p \<notin> set (activeChannels w))"

lemma removeAndReset_ok:
  assumes K: "epoll_contract ctl interest" and inv: "connector_inv interest w" and st: "x_state w = kConnecting_c"
    and rm: "may_remove w"
  shows "\<exists>fd w1. removeAndResetChannel ctl (setState_c s w) = Inr (fd, w1) \<and> released interest fd w1 \<and>
    x_connect w1 = x_connect w"
proof -
  note D = connector_invD [OF inv]
  obtain p c where c: "x_channel w = Some p" "heap w p = Some c" "\<not> ch_eventHandling c" "ch_index c \<noteq> kNew"
    using D(2) st by (auto simp: chan_phase_def split: option.splits)
  let ?w = "setState_c s w"
  have r: "reactor_inv interest ?w" by (rule cnr_reactor [OF D(1)]) (simp_all add: setState_c_def)
  have h: "heap ?w p = Some c" using c(2) by (simp add: setState_c_def)
  from switch_ok [OF K r h _ switches(5)] c(4) obtain k1 where
    k1: "disableAll ctl p ?w = Inr (updated p (all_off c) k1 ?w)" "reactor_inv interest (updated p (all_off c) k1 ?w)"
    by (auto simp: disableAll_def)
  let ?w1 = "updated p (all_off c) k1 ?w" and ?c1 = "(all_off c)\<lparr>ch_addedToLoop := True, ch_index := next_index (all_off c)\<rparr>"
  have c1: "heap ?w1 p = Some ?c1" "ch_index ?c1 \<noteq> kNew" "isNoneEvent ?c1" "ch_fd ?c1 = ch_fd c" "\<not> ch_eventHandling ?c1"
    using c(3) by (simp_all add: next_index_def index_defs isNoneEvent_def all_off_def)
  have "eventHandling ?w1 \<longrightarrow> currentActiveChannel ?w1 = Some p \<or> p \<notin> set (activeChannels ?w1)"
    using rm c(1) by (simp add: may_remove_def setState_c_def)
  from chan_remove_ok [OF K k1(2) c1(1,2,3) this] obtain k2 where
    k2: "chan_remove ctl p ?w1 = Inr (removed p ?c1 k2 ?w1)" "reactor_inv interest (removed p ?c1 k2 ?w1)" by blast
  let ?w2 = "queue_functor ResetChannel (removed p ?c1 k2 ?w1)"
  have e: "removeAndResetChannel ctl ?w = Inr (ch_fd c, ?w2)"
    using c(1) k1(1) k2(1) c1(4) by (simp add: removeAndResetChannel_def deref_def setState_c_def)
  have "reactor_inv interest ?w2" by (rule cnr_reactor [OF k2(2)]) (simp_all add: queue_functor_def)
  moreover have "x_channel ?w2 = Some p" "heap ?w2 p = Some (?c1\<lparr>ch_addedToLoop := False, ch_index := kNew\<rparr>)"
    using c(1) by (simp_all add: queue_functor_def setState_c_def)
  moreover have "current_fd w = {#ch_fd c#}" using c(1,2) st by (simp add: current_fd_def)
  moreover have "x_timers w = []" using D(5) st by auto
  ultimately have "released interest (ch_fd c) ?w2"
    using D(4,7,8,9) c(1) st c1(5)
    by (auto simp: released_def queue_functor_def setState_c_def)
  then show ?thesis using e by (intro exI [of _ "ch_fd c"] exI [of _ ?w2]) (simp add: queue_functor_def setState_c_def)
qed

lemma setState_c_id: "x_state w = s \<Longrightarrow> setState_c s w = w"
  by (cases w) (simp add: setState_c_def)

section \<open>The operations keep the invariant\<close>

lemma stopInLoop_ok:
  assumes "epoll_contract ctl interest" "connector_inv interest w" "may_remove w"
  shows "\<exists>w'. stopInLoop ctl w = Inr w' \<and> connector_inv interest w'"
proof (cases "x_state w = kConnecting_c")
  case True
  from removeAndReset_ok [OF assms(1,2) True assms(3), of kDisconnected_c] obtain fd w1 where
    "removeAndResetChannel ctl (setState_c kDisconnected_c w) = Inr (fd, w1)" "released interest fd w1" by blast
  then show ?thesis using True released_retry connector_invD(3) [OF assms(2)] by (simp add: stopInLoop_def assertInLoopThread_def)
qed (use assms(2) connector_invD(3) [OF assms(2)] in \<open>simp add: stopInLoop_def assertInLoopThread_def\<close>)

lemma connector_handleError_ok:
  assumes "epoll_contract ctl interest" "connector_inv interest w" "may_remove w"
  shows "\<exists>w'. connector_handleError ctl w = Inr w' \<and> connector_inv interest w'"
proof (cases "x_state w = kConnecting_c")
  case True
  from removeAndReset_ok [OF assms(1,2) True assms(3), of kConnecting_c] obtain fd w1 where
    "removeAndResetChannel ctl w = Inr (fd, w1)" "released interest fd w1" using setState_c_id [OF True] by auto
  then show ?thesis using True released_retry by (simp add: connector_handleError_def)
qed (use assms(2) in \<open>simp add: connector_handleError_def\<close>)

text \<open>The contract of the callback: it exists and returns with the connector in order.\<close>

definition ncb_ok :: "('w \<Rightarrow> bool) \<Rightarrow> 'w newConnectionCallback \<Rightarrow> bool" where
  "ncb_ok I ncb \<longleftrightarrow> (\<exists>cb. ncb = Some cb \<and> (\<forall>fd. cb_keeps I (cb fd)))"

lemma connector_handleWrite_ok:
  assumes K: "epoll_contract ctl interest" and inv: "connector_inv interest w" and rm: "may_remove w"
    and st: "x_state w \<noteq> kConnected_c" and ncb: "ncb_ok (connector_inv interest) ncb"
  shows "\<exists>w'. connector_handleWrite ctl ncb err self w = Inr w' \<and> connector_inv interest w'"
proof (cases "x_state w = kConnecting_c")
  case True
  from removeAndReset_ok [OF K inv True rm, of kConnecting_c] obtain fd w1 where
    w1: "removeAndResetChannel ctl w = Inr (fd, w1)" "released interest fd w1" using setState_c_id [OF True] by auto
  obtain cb where cb: "ncb = Some cb" "\<And>v. connector_inv interest v \<Longrightarrow> \<exists>v'. cb fd v = Inr v' \<and> connector_inv interest v'"
    using ncb by (auto simp: ncb_ok_def cb_keeps_def)
  have "(setState_c kConnected_c w1)\<lparr>x_delivered := x_delivered (setState_c kConnected_c w1) @ [fd]\<rparr> =
      (setState_c kConnected_c w1)\<lparr>x_delivered := x_delivered w1 @ [fd]\<rparr>" by (simp add: setState_c_def)
  then show ?thesis
    using True w1 released_retry [OF w1(2)] released_connected [OF w1(2)] cb(1)
      cb(2) [OF released_connected(1) [OF w1(2)]]
    by (auto simp: connector_handleWrite_def Let_def)
qed (use inv st in \<open>cases "x_state w"; simp add: connector_handleWrite_def\<close>)

lemma resetChannel_ok:
  assumes "connector_inv interest w" "x_functors w = ResetChannel # fs"
  shows "\<exists>w'. resetChannel (w\<lparr>x_functors := fs\<rparr>) = Inr w' \<and> connector_inv interest w'"
proof -
  note D = connector_invD [OF assms(1)]
  have "x_channel w \<noteq> None \<and> x_state w \<noteq> kConnecting_c" and z: "count_list fs ResetChannel = 0"
    using D(4) assms(2) by (auto split: if_splits)
  then obtain p c where p: "x_channel w = Some p" "heap w p = Some c" "ch_index c = kNew" "\<not> ch_eventHandling c"
      "x_state w \<noteq> kConnecting_c"
    using D(2) by (auto simp: chan_phase_def)
  let ?w = "w\<lparr>x_functors := fs\<rparr>"
  have r: "reactor_inv interest ?w" by (rule cnr_reactor [OF D(1)]) simp_all
  from Channel_dtor_ok [OF r, of p c] p(2-4) have
    d: "Channel_dtor p ?w = Inr (?w\<lparr>heap := (heap w)(p := None)\<rparr>)" "reactor_inv interest (?w\<lparr>heap := (heap w)(p := None)\<rparr>)" by simp_all
  let ?v = "?w\<lparr>heap := (heap w)(p := None), x_channel := None\<rparr>"
  have "resetChannel ?w = Inr ?v" using d(1) p(1) by (simp add: resetChannel_def)
  moreover have "reactor_inv interest ?v" by (rule cnr_reactor [OF d(2)]) simp_all
  then have "connector_inv interest ?v"
    using D(5-9) p(5) z by (auto simp: connector_inv_def chan_phase_def current_fd_def)
  ultimately show ?thesis by blast
qed

text \<open>Where a new attempt may start: disconnected, with the old channel gone and no retry scheduled; the address
  and the socket are new.\<close>

definition startable :: "addr \<Rightarrow> int \<Rightarrow> ('k, 'z) cnr \<Rightarrow> bool" where
  "startable p fd w \<longleftrightarrow> x_state w = kDisconnected_c \<and> x_channel w = None \<and> x_timers w = [] \<and> heap w p = None \<and> channels w fd = None"

lemma connecting_ok:
  assumes K: "epoll_contract ctl interest" and inv: "connector_inv interest w" and s: "startable p fd w"
  shows "\<exists>w'. connecting ctl p fd (w\<lparr>x_created := x_created w @ [fd]\<rparr>) = Inr w' \<and> connector_inv interest w'"
proof -
  note D = connector_invD [OF inv]
  let ?w = "(set_chan p (Channel fd) (w\<lparr>x_created := x_created w @ [fd], x_state := kConnecting_c\<rparr>))\<lparr>x_channel := Some p\<rparr>"
  have r: "reactor_inv interest ?w"
    by (rule cnr_reactor [OF new_channel_inv [OF D(1), of p fd]]) (use s in \<open>simp_all add: startable_def\<close>)
  have h: "heap ?w p = Some (Channel fd)" "channels ?w (ch_fd (Channel fd)) = None"
    using s by (simp_all add: startable_def Channel_def)
  from switch_ok [OF K r h(1) _ switches(3)] h(2) obtain k' where
    k': "enableWriting ctl p ?w = Inr (updated p (writing_on (Channel fd)) k' ?w)"
      "reactor_inv interest (updated p (writing_on (Channel fd)) k' ?w)" by (auto simp: enableWriting_def)
  let ?v = "updated p (writing_on (Channel fd)) k' ?w"
  have "connecting ctl p fd (w\<lparr>x_created := x_created w @ [fd]\<rparr>) = enableWriting ctl p ?w"
    using s by (simp add: connecting_def startable_def new_channel_def setState_c_def set_chan_def)
  moreover have "connector_inv interest ?v"
    using k'(2) D(4-9) s
    by (auto simp: connector_inv_def chan_phase_def current_fd_def startable_def writing_on_def Channel_def next_index_def index_defs
        set_chan_def)
  ultimately show ?thesis using k'(1) by (intro exI [of _ ?v]) simp
qed

lemma startInLoop_ok:
  assumes K: "epoll_contract ctl interest" and inv: "connector_inv interest w" and s: "startable p fd w"
  shows "\<exists>w'. startInLoop ctl p fd en w = Inr w' \<and> connector_inv interest w'"
proof (cases "x_connect w")
  case True
  note D = connector_invD [OF inv]
  let ?w = "w\<lparr>x_created := x_created w @ [fd]\<rparr>"
  obtain n where n: "x_retryDelayMs w = backoff n" using D(7) by blast
  have f: "x_state w = kDisconnected_c" "x_channel w = None" "x_timers w = []" using s by (auto simp: startable_def)
  have r: "reactor_inv interest (retry fd ?w)" "reactor_inv interest (close_fd fd ?w)"
    by (rule cnr_reactor [OF D(1)]; simp add: retry_def Let_def setState_c_def close_fd_def)+
  have "connector_inv interest (retry fd ?w)"
    using r(1) D(2,4,7,8,9) f n backoff_Suc [of n] True
    by (auto simp: connector_inv_def retry_def Let_def setState_c_def close_fd_def chan_phase_def current_fd_def)
  moreover have "connector_inv interest (close_fd fd ?w)"
    using r(2) D f by (auto simp: connector_inv_def close_fd_def chan_phase_def current_fd_def)
  moreover obtain w' where "connecting ctl p fd ?w = Inr w'" "connector_inv interest w'"
    using connecting_ok [OF K inv s] by blast
  ultimately show ?thesis
    using f(1) True D(3) by (auto simp: startInLoop_def connector_connect_def assertInLoopThread_def Let_def)
qed (use inv s connector_invD(3) [OF inv] in \<open>simp add: startInLoop_def startable_def assertInLoopThread_def\<close>)

lemma cnr_connect:
  assumes "connector_inv interest w"
  shows "connector_inv interest (w\<lparr>x_connect := b\<rparr>)"
proof -
  have "reactor_inv interest (w\<lparr>x_connect := b\<rparr>)" by (rule cnr_reactor [OF connector_invD(1) [OF assms]]) simp_all
  then show ?thesis using assms by (simp add: connector_inv_def chan_phase_def current_fd_def cong: option.case_cong)
qed

section \<open>Histories\<close>

text \<open>
  What happens to a connector: calls from the loop thread and from others, queued functors and scheduled retries
  that run, and events of its channel.  Commands that may open a socket carry the kernel's answers.
\<close>

datatype connector_cmd =
    StartC addr int int | StartOther | StopC | RestartC addr int int
  | FunctorC addr int int | TimerC addr int int | WriteC int bool | ErrorC

definition run_functor ::
  "'k epoll_ctl \<Rightarrow> addr \<Rightarrow> int \<Rightarrow> int \<Rightarrow> connector_functor \<Rightarrow> ('k, 'z) cnr \<Rightarrow> ('k, 'z) cnr result" where
  "run_functor ctl p fd en f w =
     (case f of StartInLoop \<Rightarrow> startInLoop ctl p fd en w
      | StopInLoop \<Rightarrow> stopInLoop ctl w
      | ResetChannel \<Rightarrow> resetChannel w)"

fun connector_exec ::
  "'k epoll_ctl \<Rightarrow> ('k, 'z) cnr newConnectionCallback \<Rightarrow> connector_cmd \<Rightarrow> ('k, 'z) cnr \<Rightarrow> ('k, 'z) cnr result" where
  "connector_exec ctl ncb (StartC p fd en) w = connector_start ctl p fd en w"
| "connector_exec ctl ncb StartOther w = Inr (queue_functor StartInLoop (w\<lparr>x_connect := True\<rparr>))"
| "connector_exec ctl ncb StopC w = Inr (connector_stop w)"
| "connector_exec ctl ncb (RestartC p fd en) w = connector_restart ctl p fd en w"
| "connector_exec ctl ncb (FunctorC p fd en) w =
     (case x_functors w of [] \<Rightarrow> Inr w | f # fs \<Rightarrow> run_functor ctl p fd en f (w\<lparr>x_functors := fs\<rparr>))"
| "connector_exec ctl ncb (TimerC p fd en) w = startInLoop ctl p fd en (w\<lparr>x_timers := tl (x_timers w)\<rparr>)"
| "connector_exec ctl ncb (WriteC err self) w = connector_handleWrite ctl ncb err self w"
| "connector_exec ctl ncb ErrorC w = connector_handleError ctl w"

text \<open>
  What the callers and the loop respect: an attempt starts only on an idle connector (see \<open>startable\<close>); a retry
  fires after the queued \<^verbatim>\<open>resetChannel\<close>; events come from a channel that is registered, or in the same round.
\<close>

fun connector_ok :: "connector_cmd \<Rightarrow> ('k, 'z) cnr \<Rightarrow> bool" where
  "connector_ok (StartC p fd en) w = startable p fd w"
| "connector_ok StartOther w = True"
| "connector_ok StopC w = True"
| "connector_ok (RestartC p fd en) w = (x_state w \<noteq> kConnecting_c \<and> startable p fd (w\<lparr>x_state := kDisconnected_c\<rparr>))"
| "connector_ok (FunctorC p fd en) w =
     (may_remove w \<and> (case x_functors w of f # fs \<Rightarrow> f = StartInLoop \<longrightarrow> startable p fd w | [] \<Rightarrow> True))"
| "connector_ok (TimerC p fd en) w = (x_timers w \<noteq> [] \<and> startable p fd (w\<lparr>x_timers := []\<rparr>))"
| "connector_ok (WriteC err self) w = (may_remove w \<and> x_state w \<noteq> kConnected_c)"
| "connector_ok ErrorC w = may_remove w"

lemma cnr_functors:
  assumes "connector_inv interest w" "count_list fs ResetChannel = count_list (x_functors w) ResetChannel"
  shows "connector_inv interest (w\<lparr>x_functors := fs\<rparr>)"
proof -
  have "reactor_inv interest (w\<lparr>x_functors := fs\<rparr>)" by (rule cnr_reactor [OF connector_invD(1) [OF assms(1)]]) simp_all
  then show ?thesis using assms by (simp add: connector_inv_def chan_phase_def current_fd_def cong: option.case_cong)
qed

lemma cnr_timers:
  assumes "connector_inv interest w"
  shows "connector_inv interest (w\<lparr>x_timers := []\<rparr>)"
proof -
  have "reactor_inv interest (w\<lparr>x_timers := []\<rparr>)" by (rule cnr_reactor [OF connector_invD(1) [OF assms(1)]]) simp_all
  then show ?thesis using assms by (simp add: connector_inv_def chan_phase_def current_fd_def cong: option.case_cong)
qed

lemma cnr_fresh:
  assumes "connector_inv interest w" "startable p fd (w\<lparr>x_state := kDisconnected_c\<rparr>)"
  shows "connector_inv interest ((setState_c kDisconnected_c w)\<lparr>x_retryDelayMs := kInitRetryDelayMs, x_connect := True\<rparr>)"
    (is "connector_inv interest ?v")
proof -
  have "reactor_inv interest ?v" by (rule cnr_reactor [OF connector_invD(1) [OF assms(1)]]) (simp_all add: setState_c_def)
  then show ?thesis using assms backoff_0
    by (auto simp: connector_inv_def chan_phase_def current_fd_def setState_c_def startable_def)
qed

lemma startable_fields [simp]:
  "startable p fd (w\<lparr>x_connect := b\<rparr>) = startable p fd w" "startable p fd (w\<lparr>x_functors := fs\<rparr>) = startable p fd w"
  "startable p fd (w\<lparr>x_retryDelayMs := d\<rparr>) = startable p fd w"
  by (simp_all add: startable_def)

interpretation connector: safe_commands "connector_exec ctl ncb" 
  "\<lambda>w. connector_inv interest w \<and> epoll_contract ctl interest \<and> ncb_ok (connector_inv interest) ncb" connector_ok
proof
  fix w :: "('a, 'b) cnr" and c
  assume a: "connector_inv interest w \<and> epoll_contract ctl interest \<and> ncb_ok (connector_inv interest) ncb" and ok: "connector_ok c w"
  then have K: "epoll_contract ctl interest" and inv: "connector_inv interest w" and n: "ncb_ok (connector_inv interest) ncb" by blast+
  note D = connector_invD [OF inv]
  have q: "connector_inv interest (queue_functor f (v\<lparr>x_connect := b\<rparr>))" if "connector_inv interest v" "f \<noteq> ResetChannel" for f b and v :: "('a, 'b) cnr"
    using cnr_functors [OF cnr_connect [OF that(1)], of "x_functors v @ [f]" b] that(2) by (simp add: queue_functor_def)
  have "\<exists>w'. connector_exec ctl ncb c w = Inr w' \<and> connector_inv interest w'"
  proof (cases c)
    case (StartC p fd en)
    then show ?thesis using startInLoop_ok [OF K cnr_connect [OF inv], of p fd True en] ok D(3)
      by (simp add: connector_start_def)
  next
    case (RestartC p fd en)
    then show ?thesis using startInLoop_ok [OF K cnr_fresh [OF inv], of p fd p fd en] ok D(3)
      by (simp add: connector_restart_def assertInLoopThread_def setState_c_def)
  next
    case (FunctorC p fd en)
    show ?thesis
    proof (cases "x_functors w")
      case (Cons f fs)
      have mr: "may_remove (w\<lparr>x_functors := fs\<rparr>)" using ok FunctorC by (simp add: may_remove_def)
      show ?thesis
      proof (cases f)
        case ResetChannel
        then show ?thesis using resetChannel_ok [OF inv] Cons FunctorC by (simp add: run_functor_def)
      next
        case StopInLoop
        then show ?thesis using stopInLoop_ok [OF K cnr_functors [OF inv, of fs] mr] Cons FunctorC by (simp add: run_functor_def)
      next
        case StartInLoop
        then show ?thesis using startInLoop_ok [OF K cnr_functors [OF inv, of fs], of p fd en] Cons FunctorC ok
          by (simp add: run_functor_def)
      qed
    qed (use inv FunctorC in simp)
  next
    case (TimerC p fd en)
    have "tl (x_timers w) = []" using D(6) by (cases "x_timers w") auto
    then show ?thesis using startInLoop_ok [OF K cnr_timers [OF inv], of p fd en] ok TimerC by simp
  next
    case (WriteC err self)
    then show ?thesis using connector_handleWrite_ok [OF K inv _ _ n] ok by simp
  next
    case ErrorC
    then show ?thesis using connector_handleError_ok [OF K inv] ok by simp
  qed (use q [OF inv] in \<open>simp_all add: connector_stop_def\<close>)
  then show "\<exists>w'. connector_exec ctl ncb c w = Inr w' \<and>
      (connector_inv interest w' \<and> epoll_contract ctl interest \<and> ncb_ok (connector_inv interest) ncb)" using K n by blast
qed

section \<open>Properties of connectors\<close>

lemma Connector_sel [simp]:
  "heap (Connector w) = heap w" "channels (Connector w) = channels w" "kern (Connector w) = kern w"
  "inLoopThread (Connector w) = inLoopThread w" "x_connect (Connector w) = False" "x_state (Connector w) = kDisconnected_c"
  "x_channel (Connector w) = None" "x_retryDelayMs (Connector w) = kInitRetryDelayMs" "x_functors (Connector w) = []"
  "x_timers (Connector w) = []" "x_created (Connector w) = []" "x_closed (Connector w) = []" "x_delivered (Connector w) = []"
  "x_delays (Connector w) = []"
  by (simp_all add: Connector_def reactor.defs connector.defs)

lemma Connector_inv:
  assumes "reactor_inv interest w"
  shows "connector_inv interest (Connector w)"
proof -
  have "reactor_inv interest (Connector w)" by (rule cnr_reactor [OF assms]) simp_all
  then show ?thesis using backoff_0 by (auto simp: connector_inv_def chan_phase_def current_fd_def)
qed

lemma idle_poller_inv: "reactor_inv (\<lambda>k. k) (EPollPoller Map.empty)"
  by (auto simp: reactor_inv_def EPollPoller_def watched_def)

text \<open>C9. No socket is lost and no assert fails: whatever happens to a new connector within its rules (starts, stops,
  restarts, functors, retries, success, failure and self connection), every socket it has created is closed, handed
  to the callback, or the one it is connecting, exactly once; at most one retry is scheduled, and every delay lies
  between half a second and thirty.\<close>

theorem connector_no_leak:
  assumes "epoll_contract ctl interest" "ncb_ok (connector_inv interest) ncb" "reactor_inv interest w"
    "allowed (connector_exec ctl ncb) connector_ok cmds (Connector w)"
  shows "\<exists>w'. foldR (connector_exec ctl ncb) cmds (Connector w) = Inr w' \<and>
    mset (x_created w') = mset (x_closed w') + mset (x_delivered w') + current_fd w' \<and>
    length (x_timers w') \<le> 1 \<and> set (x_delays w') \<subseteq> {500..30000}"
proof -
  obtain w' where w': "foldR (connector_exec ctl ncb) cmds (Connector w) = Inr w'" "connector_inv interest w'"
    using connector.foldR_safe [OF _ assms(4), of interest] Connector_inv [OF assms(3)] assms(1,2) by blast
  have "set (x_delays w') \<subseteq> {500..30000}"
    using connector_invD(8) [OF w'(2)] backoff_bounds by force
  then show ?thesis using w' connector_invD(6,9) [OF w'(2)] by blast
qed

theorem connector_no_leak_witness:
  "\<exists>w'. foldR (connector_exec map_ctl (Some (\<lambda>fd. Inr)))
      [StartC 1 5 ECONNREFUSED, TimerC 1 6 EINPROGRESS, WriteC 111 False, FunctorC 0 0 0, StopC]
      (Connector (EPollPoller Map.empty)) = Inr w' \<and>
    mset (x_created w') = mset (x_closed w') + mset (x_delivered w') + current_fd w'"
proof -
  let ?cmds = "[StartC 1 5 ECONNREFUSED, TimerC 1 6 EINPROGRESS, WriteC 111 False, FunctorC 0 0 0, StopC]"
  have "allowed (connector_exec map_ctl (Some (\<lambda>fd. Inr))) connector_ok ?cmds (Connector (EPollPoller Map.empty))"
    by (simp add: exec_defs Connector_def reactor.defs connector.defs connector_start_def startInLoop_def startable_def
        connector_connect_def retry_def setState_c_def close_fd_def errno_defs connecting_def may_remove_def
        connector_handleWrite_def removeAndResetChannel_def chan_remove_def loop_removeChannel_def removeChannel_def
        queue_functor_def run_functor_def resetChannel_def Channel_dtor_def hasChannel_def kInitRetryDelayMs_def)
  moreover have "ncb_ok (connector_inv (\<lambda>k. k)) (Some (\<lambda>fd. Inr))" by (simp add: ncb_ok_def cb_keeps_def)
  ultimately show ?thesis using connector_no_leak [OF map_ctl_contract _ idle_poller_inv] by blast
qed

text \<open>The errors that make \<^verbatim>\<open>connect\<close> retry.\<close>

definition retriable :: "int set" where
  "retriable = {EAGAIN, EADDRINUSE, EADDRNOTAVAIL, ECONNREFUSED, ENETUNREACH}"

lemma connect_retriable:
  assumes "x_state w = kDisconnected_c" "inLoopThread w" "x_connect w" "en \<in> retriable"
  shows "startInLoop ctl p fd en w = Inr (retry fd (w\<lparr>x_created := x_created w @ [fd]\<rparr>))"
  using assms by (auto simp: startInLoop_def connector_connect_def assertInLoopThread_def retriable_def errno_defs Let_def)

lemma retries_backoff:
  assumes "list_all (\<lambda>(p, fd, en). en \<in> retriable) atts" "x_state w = kDisconnected_c" "inLoopThread w" "x_connect w"
    "x_retryDelayMs w = backoff n" "x_timers w = [d]"
  shows "\<exists>w'. foldR (connector_exec ctl ncb) (map (\<lambda>(p, fd, en). TimerC p fd en) atts) w = Inr w' \<and>
    x_delays w' = x_delays w @ map backoff [n..<n + length atts] \<and> x_retryDelayMs w' = backoff (n + length atts)"
  using assms
proof (induction atts arbitrary: w n d)
  case (Cons a atts)
  obtain p fd en where a: "a = (p, fd, en)" by (cases a)
  let ?w = "retry fd (w\<lparr>x_timers := [], x_created := x_created w @ [fd]\<rparr>)"
  have e: "connector_exec ctl ncb (TimerC p fd en) w = Inr ?w"
    using Cons.prems a connect_retriable [of "w\<lparr>x_timers := []\<rparr>" en ctl p fd] by simp
  have s: "x_state ?w = kDisconnected_c" "inLoopThread ?w" "x_connect ?w" "x_retryDelayMs ?w = backoff (Suc n)"
    "x_timers ?w = [backoff n]" "x_delays ?w = x_delays w @ [backoff n]"
    using Cons.prems backoff_Suc [of n] by (simp_all add: retry_def setState_c_def close_fd_def)
  from Cons.IH [OF _ s(1-5)] Cons.prems(1) obtain w' where
    "foldR (connector_exec ctl ncb) (map (\<lambda>(p, fd, en). TimerC p fd en) atts) ?w = Inr w'"
    "x_delays w' = x_delays ?w @ map backoff [Suc n..<Suc n + length atts]" "x_retryDelayMs w' = backoff (Suc n + length atts)"
    by auto
  moreover have "[n..<n + length (a # atts)] = n # [Suc n..<Suc n + length atts]"
    by (simp add: upt_conv_Cons del: upt_Suc)
  ultimately show ?case using e a s(6) by (simp del: connector_exec.simps upt_Suc)
qed simp

text \<open>C30. The retries back off: a connector whose attempts keep failing waits 0.5, 1, 2, 4, 8, 16 and then always 30
  seconds; a restart begins with half a second again.\<close>

theorem retry_backoff:
  assumes "inLoopThread w" "x_state w = kDisconnected_c" "x_timers w = []"
    "en \<in> retriable" "list_all (\<lambda>(p, fd, en). en \<in> retriable) atts"
  shows "\<exists>w'. foldR (connector_exec ctl ncb) (RestartC p fd en # map (\<lambda>(p, fd, en). TimerC p fd en) atts) w = Inr w' \<and>
    x_delays w' = x_delays w @ map (\<lambda>i. min (500 * 2 ^ i) 30000) [0..<Suc (length atts)]"
proof -
  let ?v = "(setState_c kDisconnected_c w)\<lparr>x_retryDelayMs := kInitRetryDelayMs, x_connect := True\<rparr>"
  let ?w = "retry fd (?v\<lparr>x_created := x_created w @ [fd]\<rparr>)"
  have e: "connector_exec ctl ncb (RestartC p fd en) w = Inr ?w"
    using assms connect_retriable [of ?v en ctl p fd] by (simp add: connector_restart_def assertInLoopThread_def setState_c_def)
  have s: "x_state ?w = kDisconnected_c" "inLoopThread ?w" "x_connect ?w" "x_retryDelayMs ?w = backoff (Suc 0)"
    "x_timers ?w = [backoff 0]" "x_delays ?w = x_delays w @ [backoff 0]"
    using assms backoff_Suc [of 0] backoff_0 by (simp_all add: retry_def setState_c_def close_fd_def)
  have b: "map (\<lambda>i. min (500 * 2 ^ i) 30000) [0..<Suc (length atts)] = backoff 0 # map backoff [Suc 0..<Suc 0 + length atts]"
    by (simp add: backoff_def upt_conv_Cons del: upt_Suc)
  from retries_backoff [OF assms(5) s(1-5)] show ?thesis
    using e s(6) b by (auto simp del: connector_exec.simps upt_Suc)
qed

theorem retry_backoff_witness:
  "\<exists>w'. foldR (connector_exec map_ctl None) (RestartC 1 5 ECONNREFUSED # map (\<lambda>(p, fd, en). TimerC p fd en)
      (replicate 7 (1, 5, ECONNREFUSED))) (Connector (EPollPoller Map.empty)) = Inr w' \<and>
    x_delays w' = [500, 1000, 2000, 4000, 8000, 16000, 30000, 30000]"
proof -
  have "list_all (\<lambda>(p, fd, en). en \<in> retriable) (replicate 7 (1 :: nat, 5 :: int, ECONNREFUSED))" by (auto simp: list_all_iff retriable_def)
  from retry_backoff [OF _ _ _ _ this, of "Connector (EPollPoller Map.empty)" ECONNREFUSED map_ctl None 1 5] show ?thesis
    by (simp add: EPollPoller_def retriable_def upt_rec numeral_eq_Suc)
qed

text \<open>Stopping does not cancel a scheduled retry: if the connector is started again before the retry is due, the
  retry finds it connecting and fails the assert of \<^verbatim>\<open>startInLoop\<close>.\<close>

theorem stale_retry_fails:
  assumes "epoll_contract ctl interest" "reactor_inv interest w" "heap w p = None" "channels w fd = None" "en \<in> retriable"
  shows "foldR (connector_exec ctl ncb)
    [StartC p0 fd0 en, StopC, FunctorC p0 fd0 0, StartC p fd EINPROGRESS, TimerC p' fd' en'] (Connector w) = Inl AssertFailed"
proof -
  have l: "inLoopThread w" using reactor_invD(1) [OF assms(2)] .
  let ?w0 = "(Connector w)\<lparr>x_connect := True\<rparr>"
  let ?w1 = "retry fd0 (?w0\<lparr>x_created := [fd0]\<rparr>)"
  have 1: "connector_exec ctl ncb (StartC p0 fd0 en) (Connector w) = Inr ?w1"
    using connect_retriable [of ?w0 en ctl p0 fd0] l assms(5) by (simp add: connector_start_def)
  let ?w3 = "?w1\<lparr>x_connect := False, x_functors := []\<rparr>"
  have 2: "foldR (connector_exec ctl ncb) [StopC, FunctorC p0 fd0 0] ?w1 = Inr ?w3"
    using l by (simp add: connector_stop_def queue_functor_def run_functor_def stopInLoop_def assertInLoopThread_def retry_def
        setState_c_def close_fd_def)
  let ?v = "?w3\<lparr>x_connect := True, x_created := [fd0, fd], x_state := kConnecting_c, heap := (heap w)(p \<mapsto> Channel fd), x_channel := Some p\<rparr>"
  have s: "connector_exec ctl ncb (StartC p fd EINPROGRESS) ?w3 = enableWriting ctl p ?v"
    using l by (simp add: connector_start_def startInLoop_def assertInLoopThread_def connector_connect_def connecting_def
        new_channel_def set_chan_def setState_c_def retry_def close_fd_def)
  have "reactor_inv interest ?v"
    by (rule cnr_reactor [OF new_channel_inv [OF assms(2,3), of fd]])
      (simp_all add: retry_def setState_c_def close_fd_def)
  moreover have "channels ?v (ch_fd (Channel fd)) = None" using assms(4) by (simp add: retry_def setState_c_def close_fd_def Channel_def)
  ultimately obtain k where k: "enableWriting ctl p ?v = Inr (updated p (writing_on (Channel fd)) k ?v)"
    using switch_ok [OF assms(1) _ _ _ switches(3), of ?v p "Channel fd"] by (auto simp: enableWriting_def)
  have l2: "inLoopThread (updated p (writing_on (Channel fd)) k ?v)" "x_state (updated p (writing_on (Channel fd)) k ?v) = kConnecting_c"
    using l by (simp_all add: updated_def retry_def setState_c_def close_fd_def)
  have 3: "connector_exec ctl ncb (TimerC p' fd' en') (updated p (writing_on (Channel fd)) k ?v) = Inl AssertFailed"
    using l2 by (simp add: startInLoop_def assertInLoopThread_def)
  have 4: "foldR (connector_exec ctl ncb) [StartC p fd EINPROGRESS, TimerC p' fd' en'] ?w3 = Inl AssertFailed"
    by (simp only: foldR.simps s k bindR_simps 3)
  have 5: "foldR (connector_exec ctl ncb) [StartC p0 fd0 en] (Connector w) = Inr ?w1"
    by (simp add: 1 del: connector_exec.simps)
  have "[StartC p0 fd0 en, StopC, FunctorC p0 fd0 0, StartC p fd EINPROGRESS, TimerC p' fd' en'] =
      [StartC p0 fd0 en] @ [StopC, FunctorC p0 fd0 0] @ [StartC p fd EINPROGRESS, TimerC p' fd' en']" by simp
  then show ?thesis by (simp only: foldR_append 5 2 4 bindR_simps)
qed

theorem stale_retry_fails_witness:
  "foldR (connector_exec map_ctl None)
    [StartC 1 5 ECONNREFUSED, StopC, FunctorC 1 5 0, StartC 2 6 EINPROGRESS, TimerC 3 7 0] (Connector (EPollPoller Map.empty)) =
    Inl AssertFailed"
  by (rule stale_retry_fails [OF map_ctl_contract idle_poller_inv]) (simp_all add: EPollPoller_def retriable_def)

end
