(* ===== verification/Lute_TCPClient.thy ===== *)
theory Lute_TCPClient
  imports Lute_Connector Lute_TCPConnection
begin

text \<open>
  The client, \<^verbatim>\<open>polaris/src/TCPClient.cc\<close>, on top of the connector.  As in the theory of the server, a connection is its name,
  its socket and its \<^verbatim>\<open>state_\<close>, here under the number it got from \<^verbatim>\<open>nextConnId_\<close>; \<open>cc_detached\<close> tells that the destructor
  of the client has replaced its close callback.  Everything runs in the loop thread.
\<close>

record cconn =
  cc_name :: string
  cc_fd :: int
  cc_state :: conn_state
  cc_detached :: bool

datatype client_functor =
    DestroyFun nat       \<comment> \<open>\<^verbatim>\<open>TCPConnection::connectDestroyed\<close>\<close>
  | ForceCloseFun nat    \<comment> \<open>\<^verbatim>\<open>TCPConnection::forceCloseInLoop\<close>\<close>

text \<open>For the specification, \<open>cl_destroyed\<close> records the connections on which \<^verbatim>\<open>connectDestroyed\<close> was run.\<close>

record 'k client = "'k connector" +
  cl_name :: string
  cl_retry :: bool
  cl_connect :: bool
  cl_nextConnId :: nat
  cl_connection :: "nat option"
  cl_conns :: "nat \<rightharpoonup> cconn"
  cl_functors :: "client_functor list"
  cl_alive :: bool
  cl_destroyed :: "nat list"

type_synonym ('k, 'z) cln = "('k, 'z) client_scheme"

section \<open>Operations\<close>

definition TCPClient :: "string \<Rightarrow> 'k reactor \<Rightarrow> 'k client" where
  "TCPClient nameArg w = connector.extend (Connector w) (client.fields nameArg False True 1 None Map.empty [] True [])"

definition enableRetry :: "('k, 'z) cln \<Rightarrow> ('k, 'z) cln" where
  "enableRetry w = w\<lparr>cl_retry := True\<rparr>"

definition client_connect :: "'k epoll_ctl \<Rightarrow> addr \<Rightarrow> int \<Rightarrow> int \<Rightarrow> ('k, 'z) cln \<Rightarrow> ('k, 'z) cln result" where
  "client_connect ctl p sockfd savedErrno w = connector_start ctl p sockfd savedErrno (w\<lparr>cl_connect := True\<rparr>)"

definition set_cconn :: "nat \<Rightarrow> cconn \<Rightarrow> ('k, 'z) cln \<Rightarrow> ('k, 'z) cln" where
  "set_cconn i c w = w\<lparr>cl_conns := (cl_conns w)(i \<mapsto> c)\<rparr>"

definition cconn_deref :: "nat \<Rightarrow> ('k, 'z) cln \<Rightarrow> (cconn \<Rightarrow> 'a result) \<Rightarrow> 'a result" where
  "cconn_deref i w f = (case cl_conns w i of None \<Rightarrow> Inl UseAfterFree | Some c \<Rightarrow> f c)"

text \<open>\<^verbatim>\<open>TCPConnection::shutdown\<close> as far as the state is concerned.\<close>

definition client_disconnect :: "('k, 'z) cln \<Rightarrow> ('k, 'z) cln result" where
  "client_disconnect w =
     (let w1 = w\<lparr>cl_connect := False\<rparr>
      in case cl_connection w1 of
           None \<Rightarrow> Inr w1
         | Some i \<Rightarrow> cconn_deref i w1 (\<lambda>c.
             Inr (if cc_state c = kConnected then set_cconn i (c\<lparr>cc_state := kDisconnecting\<rparr>) w1 else w1)))"

definition client_stop :: "('k, 'z) cln \<Rightarrow> ('k, 'z) cln" where
  "client_stop w = connector_stop (w\<lparr>cl_connect := False\<rparr>)"

text \<open>The name of a connection, cut at 31 characters; \<open>peer\<close> is the answer of \<^verbatim>\<open>getpeername\<close>.\<close>

definition client_conn_name :: "string \<Rightarrow> ('k, 'z) cln \<Rightarrow> string" where
  "client_conn_name ipPort w = cl_name w @ take 31 ('':'' @ ipPort @ ''#'' @ dec (cl_nextConnId w))"

definition client_newConnection ::
  "(byte list \<Rightarrow> string) \<Rightarrow> endian \<Rightarrow> (int \<Rightarrow> byte list option) \<Rightarrow> int \<Rightarrow> ('k, 'z) cln \<Rightarrow> ('k, 'z) cln result" where
  "client_newConnection ntop6 e peer sockfd w =
     assertInLoopThread w
       (bindR (inet_toIpPort ntop6 e (getPeerAddr (peer sockfd))) (\<lambda>ipPort.
          let i = cl_nextConnId w;
              conn = \<lparr>cc_name = client_conn_name ipPort w, cc_fd = sockfd, cc_state = kConnecting, cc_detached = False\<rparr>;
              w1 = set_cconn i conn (w\<lparr>cl_nextConnId := i + 1, cl_connection := Some i\<rparr>)
          in cconn_deref i w1 (\<lambda>c. assertR (cc_state c = kConnecting) (Inr (set_cconn i (c\<lparr>cc_state := kConnected\<rparr>) w1)))))"

text \<open>\<open>p\<close>, \<open>sockfd\<close> and \<open>savedErrno\<close> are those of the attempt that a restart of the connector makes.\<close>

definition client_removeConnection ::
  "'k epoll_ctl \<Rightarrow> addr \<Rightarrow> int \<Rightarrow> int \<Rightarrow> nat \<Rightarrow> ('k, 'z) cln \<Rightarrow> ('k, 'z) cln result" where
  "client_removeConnection ctl p sockfd savedErrno i w =
     (if \<not> cl_alive w then Inl UseAfterFree
      else assertInLoopThread w
        (assertR (cl_connection w = Some i)
          (let w1 = w\<lparr>cl_connection := None, cl_functors := cl_functors w @ [DestroyFun i]\<rparr>
           in if cl_retry w1 \<and> cl_connect w1 then connector_restart ctl p sockfd savedErrno w1 else Inr w1)))"

text \<open>\<^verbatim>\<open>detail::removeConnection\<close>, the close callback after the destruction of the client.\<close>

definition detail_removeConnection :: "nat \<Rightarrow> ('k, 'z) cln \<Rightarrow> ('k, 'z) cln" where
  "detail_removeConnection i w = w\<lparr>cl_functors := cl_functors w @ [DestroyFun i]\<rparr>"

text \<open>\<^verbatim>\<open>TCPConnection::handleClose\<close> as the client sees it.\<close>

definition cconn_close :: "'k epoll_ctl \<Rightarrow> addr \<Rightarrow> int \<Rightarrow> int \<Rightarrow> nat \<Rightarrow> ('k, 'z) cln \<Rightarrow> ('k, 'z) cln result" where
  "cconn_close ctl p sockfd savedErrno i w =
     cconn_deref i w (\<lambda>c.
       assertR (cc_state c = kConnected \<or> cc_state c = kDisconnecting)
         (let w1 = set_cconn i (c\<lparr>cc_state := kDisconnected\<rparr>) w
          in if cc_detached c then Inr (detail_removeConnection i w1)
             else client_removeConnection ctl p sockfd savedErrno i w1))"

text \<open>\<^verbatim>\<open>TCPConnection::forceClose\<close> as the client sees it.\<close>

definition client_forceClose :: "nat \<Rightarrow> ('k, 'z) cln \<Rightarrow> ('k, 'z) cln result" where
  "client_forceClose i w =
     cconn_deref i w (\<lambda>c.
       Inr (if cc_state c = kConnected \<or> cc_state c = kDisconnecting
            then (set_cconn i (c\<lparr>cc_state := kDisconnecting\<rparr>) w)\<lparr>cl_functors := cl_functors w @ [ForceCloseFun i]\<rparr>
            else w))"

definition cconn_destroy :: "nat \<Rightarrow> ('k, 'z) cln \<Rightarrow> ('k, 'z) cln result" where
  "cconn_destroy i w =
     cconn_deref i w (\<lambda>c. assertR (cc_state c = kDisconnected \<and> i \<notin> set (cl_destroyed w))
       (Inr (w\<lparr>cl_destroyed := cl_destroyed w @ [i]\<rparr>)))"

definition run_client_functor ::
  "'k epoll_ctl \<Rightarrow> addr \<Rightarrow> int \<Rightarrow> int \<Rightarrow> client_functor \<Rightarrow> ('k, 'z) cln \<Rightarrow> ('k, 'z) cln result" where
  "run_client_functor ctl p sockfd savedErrno f w =
     (case f of
        DestroyFun i \<Rightarrow> cconn_destroy i w
      | ForceCloseFun i \<Rightarrow> cconn_deref i w (\<lambda>c.
          if cc_state c = kConnected \<or> cc_state c = kDisconnecting then cconn_close ctl p sockfd savedErrno i w else Inr w))"

text \<open>
  The destructor; \<open>unique\<close> is whether nobody else holds the connection.  Without a connection the connector is stopped, and
  a timer keeps it for a second; with one, it is destroyed with the client.
\<close>

definition TCPClient_dtor :: "bool \<Rightarrow> ('k, 'z) cln \<Rightarrow> ('k, 'z) cln result" where
  "TCPClient_dtor unique w =
     (case cl_connection w of
        Some i \<Rightarrow> cconn_deref i w (\<lambda>c.
          let w1 = set_cconn i (c\<lparr>cc_detached := True\<rparr>) w
          in bindR (if unique then client_forceClose i w1 else Inr w1) (\<lambda>w2.
             bindR (Connector_dtor w2) (\<lambda>w3. Inr (w3\<lparr>cl_alive := False\<rparr>))))
      | None \<Rightarrow> Inr ((connector_stop w)\<lparr>cl_alive := False\<rparr>))"

section \<open>What the connector leaves alone\<close>

lemma more_reactor_ops:
  "enableWriting ctl p w = Inr w' \<Longrightarrow> reactor.more w' = reactor.more w"
  "disableAll ctl p w = Inr w' \<Longrightarrow> reactor.more w' = reactor.more w"
  "chan_remove ctl p w = Inr w' \<Longrightarrow> reactor.more w' = reactor.more w"
  "Channel_dtor p w = Inr w' \<Longrightarrow> reactor.more w' = reactor.more w"
  by (auto simp: enableWriting_def disableAll_def chan_remove_def Channel_dtor_def loop_removeChannel_def removeChannel_def
      op_defs result_simps Let_def split: option.splits if_splits prod.splits)

lemma more_connector:
  assumes "reactor.more v = reactor.more w"
  shows "connector.more v = connector.more w" "x_state v = x_state w" "x_connect v = x_connect w" "x_channel v = x_channel w"
  using assms by (cases v; cases w; simp)+

lemma more_simple [simp]:
  "connector.more (retry fd w) = connector.more w" "connector.more (close_fd fd w) = connector.more w"
  "connector.more (setState_c s w) = connector.more w" "connector.more (queue_functor f w) = connector.more w"
  "connector.more (connector_stop w) = connector.more w"
  by (simp_all add: retry_def close_fd_def setState_c_def queue_functor_def connector_stop_def Let_def)

lemma more_connecting: "connecting ctl p fd w = Inr w' \<Longrightarrow> connector.more w' = connector.more w"
  by (auto simp: connecting_def new_channel_def set_chan_def setState_c_def result_simps Let_def
      dest!: more_connector(1) [OF more_reactor_ops(1)])

lemma more_startInLoop: "startInLoop ctl p fd en w = Inr w' \<Longrightarrow> connector.more w' = connector.more w"
  by (auto simp: startInLoop_def connector_connect_def assertInLoopThread_def result_simps Let_def dest: more_connecting
      split: if_splits)

lemma more_restart: "connector_restart ctl p fd en w = Inr w' \<Longrightarrow> connector.more w' = connector.more w"
  by (auto simp: connector_restart_def assertInLoopThread_def dest: more_startInLoop split: if_splits)

lemma more_start: "connector_start ctl p fd en w = Inr w' \<Longrightarrow> connector.more w' = connector.more w"
  by (auto simp: connector_start_def Let_def dest: more_startInLoop split: if_splits)

lemma more_fields:
  "reactor.more v = reactor.more w \<Longrightarrow>
   connector.more v = connector.more w \<and> x_state v = x_state w \<and> x_connect v = x_connect w \<and> x_channel v = x_channel w"
  using more_connector [of v w] by blast

lemma more_removeAndReset:
  "removeAndResetChannel ctl w = Inr (fd, w') \<Longrightarrow> connector.more w' = connector.more w \<and> x_connect w' = x_connect w"
  by (auto simp: removeAndResetChannel_def result_simps deref_def queue_functor_def
      dest!: more_fields [OF more_reactor_ops(2)] more_fields [OF more_reactor_ops(3)] split: option.splits)

lemma more_resetChannel: "resetChannel w = Inr w' \<Longrightarrow> connector.more w' = connector.more w \<and> x_state w' = x_state w"
  by (auto simp: resetChannel_def result_simps dest!: more_fields [OF more_reactor_ops(4)] split: option.splits)

lemma more_stopInLoop: "stopInLoop ctl w = Inr w' \<Longrightarrow> connector.more w' = connector.more w"
  by (auto simp: stopInLoop_def assertInLoopThread_def result_simps dest: more_removeAndReset split: if_splits)

lemma more_functor: "run_functor ctl p fd en f w = Inr w' \<Longrightarrow> connector.more w' = connector.more w"
  by (cases f) (auto simp: run_functor_def dest: more_startInLoop more_stopInLoop more_resetChannel)

lemma more_handleError: "connector_handleError ctl w = Inr w' \<Longrightarrow> connector.more w' = connector.more w"
  by (auto simp: connector_handleError_def result_simps dest: more_removeAndReset split: if_splits)

fun calls_back :: "connector_cmd \<Rightarrow> bool" where
  "calls_back (WriteC err self) = True"
| "calls_back _ = False"

lemma more_exec:
  assumes "connector_exec ctl ncb c w = Inr w'" "\<not> calls_back c"
  shows "connector.more w' = connector.more w"
  using assms by (cases c) (auto simp: queue_functor_def connector_stop_def dest: more_start more_restart more_functor more_startInLoop
      more_handleError split: list.splits)

text \<open>The connector leaves the state \<^verbatim>\<open>kConnected\<close> only by a restart.\<close>

fun is_restart :: "connector_cmd \<Rightarrow> bool" where
  "is_restart (RestartC p fd en) = True"
| "is_restart _ = False"

lemma connected_stays:
  assumes "connector_exec ctl ncb c w = Inr w'" "connector_ok c w" "\<not> is_restart c" "x_state w = kConnected_c"
  shows "x_state w' = kConnected_c"
proof (cases c)
  case (FunctorC p fd en)
  show ?thesis
  proof (cases "x_functors w")
    case (Cons f fs)
    then show ?thesis using assms FunctorC more_resetChannel [of "w\<lparr>x_functors := fs\<rparr>" w']
      by (cases f) (auto simp: run_functor_def startable_def stopInLoop_def assertInLoopThread_def split: if_splits)
  qed (use assms FunctorC in simp)
qed (use assms in \<open>auto simp: startable_def queue_functor_def connector_stop_def connector_handleError_def\<close>)

text \<open>The callback of the connector: it runs in a connected connector that is in order, or not at all.\<close>

lemma handleWrite_cases:
  assumes K: "epoll_contract ctl interest" and inv: "connector_inv interest w" and ok: "connector_ok (WriteC err self) w"
  shows "(\<exists>w'. connector_exec ctl ncb (WriteC err self) w = Inr w' \<and> connector_inv interest w' \<and> connector.more w' = connector.more w) \<or>
    (\<exists>fd v. connector_exec ctl ncb (WriteC err self) w = (case ncb of None \<Rightarrow> Inl BadFunctionCall | Some cb \<Rightarrow> cb fd v) \<and>
       connector_inv interest v \<and> x_state v = kConnected_c \<and> connector.more v = connector.more w)"
proof (cases "x_state w = kConnecting_c")
  case True
  have "may_remove w" using ok by simp
  from removeAndReset_ok [OF K inv True this, of kConnecting_c] obtain fd w1 where
    w1: "removeAndResetChannel ctl w = Inr (fd, w1)" "released interest fd w1" using setState_c_id [OF True] by auto
  have m: "connector.more w1 = connector.more w" using more_removeAndReset [OF w1(1)] by simp
  let ?v = "(setState_c kConnected_c w1)\<lparr>x_delivered := x_delivered w1 @ [fd]\<rparr>"
  have e: "(setState_c kConnected_c w1)\<lparr>x_delivered := x_delivered (setState_c kConnected_c w1) @ [fd]\<rparr> = ?v" by (simp add: setState_c_def)
  note r = released_retry [OF w1(2)] released_connected [OF w1(2)]
  consider "err \<noteq> 0 \<or> self" | "err = 0" "\<not> self" "x_connect w1" | "err = 0" "\<not> self" "\<not> x_connect w1" by blast
  then show ?thesis
  proof cases
    case 1
    then have "connector_handleWrite ctl ncb err self w = Inr (retry fd w1)" using True w1(1) by (auto simp: connector_handleWrite_def)
    then show ?thesis using r(1) m by simp
  next
    case 2
    have "connector_handleWrite ctl ncb err self w = (case ncb of None \<Rightarrow> Inl BadFunctionCall | Some cb \<Rightarrow> cb fd ?v)"
      using True w1(1) 2 e by (simp add: connector_handleWrite_def Let_def) (simp add: setState_c_def)
    then show ?thesis using r(2) m by (intro disjI2 exI [of _ fd] exI [of _ ?v]) (simp add: setState_c_def)
  next
    case 3
    have "connector_handleWrite ctl ncb err self w = Inr (close_fd fd (setState_c kConnected_c w1))"
      using True w1(1) 3 by (simp add: connector_handleWrite_def Let_def) (simp add: setState_c_def)
    then show ?thesis using r(3) m by simp
  qed
next
  case False
  then have "x_state w = kDisconnected_c" using ok by (cases "x_state w") simp_all
  then show ?thesis using inv by (simp add: connector_handleWrite_def)
qed

section \<open>The invariant\<close>

fun destroys :: "client_functor list \<Rightarrow> nat list" where
  "destroys [] = []"
| "destroys (DestroyFun i # fs) = i # destroys fs"
| "destroys (ForceCloseFun i # fs) = destroys fs"

lemma destroys_append [simp]: "destroys (fs @ gs) = destroys fs @ destroys gs"
  by (induction fs rule: destroys.induct) simp_all

text \<open>
  There is one connection that is not closed at most, and \<^verbatim>\<open>connection_\<close> is it; exactly the closed ones are destroyed or
  waiting for that, each once.
\<close>

definition conns_ok :: "('k, 'z) cln \<Rightarrow> bool" where
  "conns_ok w \<longleftrightarrow>
     cl_alive w \<and>
     (\<forall>i c. cl_conns w i = Some c \<longrightarrow> i < cl_nextConnId w \<and> cc_state c \<noteq> kConnecting \<and> \<not> cc_detached c \<and>
        (cc_state c \<noteq> kDisconnected \<longleftrightarrow> cl_connection w = Some i)) \<and>
     (\<forall>i. cl_connection w = Some i \<longrightarrow> cl_conns w i \<noteq> None) \<and>
     (\<forall>i. ForceCloseFun i \<in> set (cl_functors w) \<longrightarrow> cl_conns w i \<noteq> None) \<and>
     distinct (cl_destroyed w @ destroys (cl_functors w)) \<and>
     (\<forall>i. i \<in> set (cl_destroyed w @ destroys (cl_functors w)) \<longleftrightarrow> (\<exists>c. cl_conns w i = Some c \<and> cc_state c = kDisconnected))"

definition client_inv :: "('k \<Rightarrow> int \<Rightarrow> epoll_event option) \<Rightarrow> ('k, 'z) cln \<Rightarrow> bool" where
  "client_inv interest w \<longleftrightarrow> connector_inv interest w \<and> conns_ok w \<and> (cl_connection w \<noteq> None \<longrightarrow> x_state w = kConnected_c)"

lemma conns_okD:
  assumes "conns_ok w"
  shows "cl_alive w" "cl_conns w i = Some c \<Longrightarrow> i < cl_nextConnId w" "cl_conns w i = Some c \<Longrightarrow> cc_state c \<noteq> kConnecting"
    "cl_conns w i = Some c \<Longrightarrow> \<not> cc_detached c"
    "cl_conns w i = Some c \<Longrightarrow> cc_state c \<noteq> kDisconnected \<longleftrightarrow> cl_connection w = Some i"
    "cl_connection w = Some i \<Longrightarrow> \<exists>c. cl_conns w i = Some c" "ForceCloseFun i \<in> set (cl_functors w) \<Longrightarrow> \<exists>c. cl_conns w i = Some c"
    "distinct (cl_destroyed w @ destroys (cl_functors w))"
    "i \<in> set (cl_destroyed w @ destroys (cl_functors w)) \<longleftrightarrow> (\<exists>c. cl_conns w i = Some c \<and> cc_state c = kDisconnected)"
  using assms unfolding conns_ok_def by blast+

lemma client_more:
  assumes "connector.more v = connector.more w"
  shows "conns_ok v = conns_ok w" "cl_connection v = cl_connection w"
proof -
  have f: "cl_alive v = cl_alive w" "cl_conns v = cl_conns w" "cl_nextConnId v = cl_nextConnId w" "cl_connection v = cl_connection w"
    "cl_functors v = cl_functors w" "cl_destroyed v = cl_destroyed w"
    using assms by (cases v; cases w; simp)+
  show "conns_ok v = conns_ok w" by (simp only: conns_ok_def f)
  show "cl_connection v = cl_connection w" by (fact f)
qed

lemma connector_inv_eq:
  assumes "reactor.truncate v = reactor.truncate w" "connector.truncate v = connector.truncate w"
  shows "connector_inv interest v = connector_inv interest w"
proof -
  have r: "heap v = heap w" "channels v = channels w" "kern v = kern w" "inLoopThread v = inLoopThread w"
    using assms(1) by (auto simp: reactor.defs)
  have x: "x_connect v = x_connect w" "x_state v = x_state w" "x_channel v = x_channel w" "x_retryDelayMs v = x_retryDelayMs w"
    "x_functors v = x_functors w" "x_timers v = x_timers w" "x_created v = x_created w" "x_closed v = x_closed w"
    "x_delivered v = x_delivered w" "x_delays v = x_delays w"
    using assms(2) by (auto simp: connector.defs)
  show ?thesis using reactor_inv_cong [OF r] by (simp only: connector_inv_def chan_phase_def current_fd_def x r)
qed

lemma connector_inv_client [simp]:
  "connector_inv interest (w\<lparr>cl_conns := a\<rparr>) = connector_inv interest w"
  "connector_inv interest (w\<lparr>cl_connection := b\<rparr>) = connector_inv interest w"
  "connector_inv interest (w\<lparr>cl_functors := f\<rparr>) = connector_inv interest w"
  "connector_inv interest (w\<lparr>cl_destroyed := d\<rparr>) = connector_inv interest w"
  "connector_inv interest (w\<lparr>cl_nextConnId := n\<rparr>) = connector_inv interest w"
  "connector_inv interest (w\<lparr>cl_connect := h\<rparr>) = connector_inv interest w"
  "connector_inv interest (w\<lparr>cl_retry := h\<rparr>) = connector_inv interest w"
  by (rule connector_inv_eq; simp add: reactor.defs connector.defs)+

text \<open>Commands of the connector that do not call back.\<close>

lemma exec_ncb: "\<not> calls_back c \<Longrightarrow> connector_exec ctl ncb c w = connector_exec ctl ncb' c w"
  by (cases c) (auto split: list.splits)

lemma exec_quiet:
  assumes "epoll_contract ctl interest" "connector_inv interest w" "connector_ok c w" "\<not> calls_back c"
  shows "\<exists>w'. connector_exec ctl ncb c w = Inr w' \<and> connector_inv interest w' \<and> connector.more w' = connector.more w"
proof -
  have "ncb_ok (connector_inv interest) (Some (\<lambda>fd. Inr))" by (simp add: ncb_ok_def cb_keeps_def)
  with connector.exec_safe [of interest w ctl "Some (\<lambda>fd. Inr)" c] assms(1-3) obtain w' where
    w': "connector_exec ctl (Some (\<lambda>fd. Inr)) c w = Inr w'" "connector_inv interest w'" by blast
  then show ?thesis using more_exec [OF w'(1) assms(4)] exec_ncb [OF assms(4), of ctl ncb w "Some (\<lambda>fd. Inr)"] by simp
qed

section \<open>The operations keep the invariant\<close>

lemma client_newConnection_ok:
  assumes v6: "inet6_text ntop6 pton6" and inv: "connector_inv interest w" "conns_ok w" "cl_connection w = None" "x_state w = kConnected_c"
  shows "\<exists>w'. client_newConnection ntop6 e peer fd w = Inr w' \<and> client_inv interest w'"
proof -
  obtain ip where "inet_toIp ntop6 e (getPeerAddr (peer fd)) = Inr ip" "length ip \<le> 45" by (rule toIp_some [OF v6 length_getLocalAddr(2)])
  from toIpPort_text [OF this] obtain ipPort where t: "inet_toIpPort ntop6 e (getPeerAddr (peer fd)) = Inr ipPort" by blast
  let ?i = "cl_nextConnId w"
  let ?c = "\<lparr>cc_name = client_conn_name ipPort w, cc_fd = fd, cc_state = kConnected, cc_detached = False\<rparr>"
  let ?v = "set_cconn ?i ?c (w\<lparr>cl_nextConnId := ?i + 1, cl_connection := Some ?i\<rparr>)"
  have "client_newConnection ntop6 e peer fd w = Inr ?v"
    using connector_invD(3) [OF inv(1)] t
    by (simp add: client_newConnection_def assertInLoopThread_def Let_def cconn_deref_def set_cconn_def)
  moreover have "conns_ok ?v"
  proof -
    note D = conns_okD [OF inv(2)]
    have new: "cl_conns w ?i = None" using D(2) [of ?i] by (cases "cl_conns w ?i") auto
    have "?i \<notin> set (cl_destroyed w @ destroys (cl_functors w))" using D(9) [of ?i] new by simp
    then show ?thesis using D new inv(3) unfolding conns_ok_def set_cconn_def
      by (auto simp: less_Suc_eq)
  qed
  ultimately show ?thesis using inv(1,4) by (intro exI [of _ ?v]) (simp add: client_inv_def set_cconn_def)
qed

definition may_close :: "addr \<Rightarrow> int \<Rightarrow> nat \<Rightarrow> ('k, 'z) cln \<Rightarrow> bool" where
  "may_close p fd i w \<longleftrightarrow>
     (case cl_conns w i of None \<Rightarrow> False | Some c \<Rightarrow> cc_state c = kConnected \<or> cc_state c = kDisconnecting) \<and>
     (cl_retry w \<and> cl_connect w \<longrightarrow> startable p fd (w\<lparr>x_state := kDisconnected_c\<rparr>))"

text \<open>The client after the close of its connection, before a restart.\<close>

abbreviation closed_client :: "nat \<Rightarrow> cconn \<Rightarrow> ('k, 'z) cln \<Rightarrow> ('k, 'z) cln" where
  "closed_client i c w \<equiv> (set_cconn i (c\<lparr>cc_state := kDisconnected\<rparr>) w)
     \<lparr>cl_connection := None, cl_functors := cl_functors w @ [DestroyFun i]\<rparr>"

lemma closed_client_ok:
  assumes "conns_ok w" "cl_conns w i = Some c" "cc_state c \<noteq> kDisconnected"
  shows "conns_ok (closed_client i c w)"
proof -
  note D = conns_okD [OF assms(1)]
  have cur: "cl_connection w = Some i" using D(5) [OF assms(2)] assms(3) by simp
  have "i \<notin> set (cl_destroyed w @ destroys (cl_functors w))" using D(9) [of i] assms(2,3) by simp
  then have dist: "distinct (cl_destroyed w @ destroys (cl_functors w @ [DestroyFun i]))" using D(8) by auto
  have other: "cc_state d = kDisconnected" if "cl_conns w j = Some d" "j \<noteq> i" for j d using D(5) [OF that(1)] cur that(2) by simp
  have mem: "j \<in> set (cl_destroyed w @ destroys (cl_functors w @ [DestroyFun i])) \<longleftrightarrow>
      (\<exists>d. cl_conns (closed_client i c w) j = Some d \<and> cc_state d = kDisconnected)" for j
    using D(9) [of j] by (auto simp: set_cconn_def)
  show ?thesis
    unfolding conns_ok_def
    using D(1,2,3,4,7) dist mem other assms(2) by (auto simp: set_cconn_def)
qed

lemma cconn_close_eq:
  assumes "client_inv interest w" "cl_conns w i = Some c" "cc_state c = kConnected \<or> cc_state c = kDisconnecting"
  shows "cconn_close ctl p fd en i w =
    (if cl_retry w \<and> cl_connect w then connector_restart ctl p fd en (closed_client i c w) else Inr (closed_client i c w))"
proof -
  have I: "connector_inv interest w" "conns_ok w" using assms(1) by (simp_all add: client_inv_def)
  note D = conns_okD [OF I(2)]
  have "cl_connection w = Some i" using D(5) [OF assms(2)] assms(3) by auto
  then show ?thesis using assms(2,3) D(1) D(4) [OF assms(2)] connector_invD(3) [OF I(1)]
    by (auto simp: cconn_close_def cconn_deref_def client_removeConnection_def assertInLoopThread_def set_cconn_def Let_def)
qed

lemma startable_client [simp]:
  "startable p fd (w\<lparr>cl_conns := a\<rparr>) = startable p fd w" "startable p fd (w\<lparr>cl_connection := b\<rparr>) = startable p fd w"
  "startable p fd (w\<lparr>cl_functors := f\<rparr>) = startable p fd w" "startable p fd (w\<lparr>cl_connect := h\<rparr>) = startable p fd w"
  by (simp_all add: startable_def)

lemma cconn_close_ok:
  assumes K: "epoll_contract ctl interest" and inv: "client_inv interest w" and ok: "may_close p fd i w"
  shows "\<exists>w'. cconn_close ctl p fd en i w = Inr w' \<and> client_inv interest w'"
proof -
  obtain c where c: "cl_conns w i = Some c" "cc_state c = kConnected \<or> cc_state c = kDisconnecting"
    using ok by (auto simp: may_close_def split: option.splits)
  have I: "connector_inv interest w" "conns_ok w" using inv by (simp_all add: client_inv_def)
  have st: "x_state w = kConnected_c" using conns_okD(5) [OF I(2) c(1)] c(2) inv by (auto simp: client_inv_def)
  let ?v = "closed_client i c w"
  have v: "connector_inv interest ?v" "conns_ok ?v" "cl_connection ?v = None" "x_state ?v = kConnected_c"
    using I(1) closed_client_ok [OF I(2) c(1)] c(2) st by (auto simp: set_cconn_def)
  show ?thesis
  proof (cases "cl_retry w \<and> cl_connect w")
    case True
    then have "startable p fd (?v\<lparr>x_state := kDisconnected_c\<rparr>)" using ok by (simp add: may_close_def set_cconn_def startable_def)
    then have "connector_ok (RestartC p fd en) ?v" using v(4) by simp
    from exec_quiet [OF K v(1) this, of None] obtain w' where
      "connector_restart ctl p fd en ?v = Inr w'" "connector_inv interest w'" "connector.more w' = connector.more ?v" by auto
    then show ?thesis using True cconn_close_eq [OF inv c, of ctl p fd en] client_more [of w' ?v] v(2,3)
      by (intro exI [of _ w']) (simp add: client_inv_def)
  next
    case False
    then have "cconn_close ctl p fd en i w = Inr ?v" using cconn_close_eq [OF inv c, of ctl p fd en] by auto
    then show ?thesis using v by (intro exI [of _ ?v]) (simp add: client_inv_def)
  qed
qed

lemma pop_functor:
  assumes "client_inv interest w" "cl_functors w = ForceCloseFun i # fs"
  shows "client_inv interest (w\<lparr>cl_functors := fs\<rparr>)"
  using assms by (auto simp: client_inv_def conns_ok_def)

lemma cconn_destroy_ok:
  assumes "client_inv interest w" "cl_functors w = DestroyFun i # fs"
  shows "\<exists>w'. cconn_destroy i (w\<lparr>cl_functors := fs\<rparr>) = Inr w' \<and> client_inv interest w'"
proof -
  have I: "connector_inv interest w" "conns_ok w" using assms(1) by (simp_all add: client_inv_def)
  note D = conns_okD [OF I(2)]
  obtain c where c: "cl_conns w i = Some c" "cc_state c = kDisconnected" using D(9) [of i] assms(2) by auto
  have d: "i \<notin> set (cl_destroyed w)" "distinct (cl_destroyed w @ i # destroys fs)" using D(8) assms(2) by auto
  let ?v = "w\<lparr>cl_functors := fs, cl_destroyed := cl_destroyed w @ [i]\<rparr>"
  have "cconn_destroy i (w\<lparr>cl_functors := fs\<rparr>) = Inr ?v" using c d(1) by (simp add: cconn_destroy_def cconn_deref_def)
  moreover have "conns_ok ?v" using I(2) d(2) assms(2) unfolding conns_ok_def by auto
  ultimately show ?thesis using I(1) assms(1) by (intro exI [of _ ?v]) (simp add: client_inv_def)
qed

section \<open>Histories\<close>

datatype client_cmd =
    OnConnector connector_cmd | ConnectCmd addr int int | DisconnectCmd | StopCmd | RetryCmd
  | PeerClosed nat addr int int | ForceCloseCmd nat | RunFunctor addr int int

fun client_exec ::
  "'k epoll_ctl \<Rightarrow> (int \<Rightarrow> ('k, 'z) cln \<Rightarrow> ('k, 'z) cln result) \<Rightarrow> client_cmd \<Rightarrow> ('k, 'z) cln \<Rightarrow> ('k, 'z) cln result" where
  "client_exec ctl new (OnConnector c) w = connector_exec ctl (Some new) c w"
| "client_exec ctl new (ConnectCmd p fd en) w = client_connect ctl p fd en w"
| "client_exec ctl new DisconnectCmd w = client_disconnect w"
| "client_exec ctl new StopCmd w = Inr (client_stop w)"
| "client_exec ctl new RetryCmd w = Inr (enableRetry w)"
| "client_exec ctl new (PeerClosed i p fd en) w = cconn_close ctl p fd en i w"
| "client_exec ctl new (ForceCloseCmd i) w = client_forceClose i w"
| "client_exec ctl new (RunFunctor p fd en) w =
     (case cl_functors w of [] \<Rightarrow> Inr w | f # fs \<Rightarrow> run_client_functor ctl p fd en f (w\<lparr>cl_functors := fs\<rparr>))"

text \<open>As for the connector: a new attempt starts on an idle connector only; events come from open connections.\<close>

fun client_ok :: "client_cmd \<Rightarrow> ('k, 'z) cln \<Rightarrow> bool" where
  "client_ok (OnConnector c) w \<longleftrightarrow> connector_ok c w \<and> \<not> is_restart c"
| "client_ok (ConnectCmd p fd en) w \<longleftrightarrow> startable p fd w"
| "client_ok (PeerClosed i p fd en) w \<longleftrightarrow> may_close p fd i w"
| "client_ok (ForceCloseCmd i) w \<longleftrightarrow> cl_conns w i \<noteq> None"
| "client_ok (RunFunctor p fd en) w \<longleftrightarrow>
     (case cl_functors w of
        ForceCloseFun i # fs \<Rightarrow>
          (case cl_conns w i of None \<Rightarrow> True | Some c \<Rightarrow> cc_state c = kDisconnected \<or> may_close p fd i w)
      | _ \<Rightarrow> True)"
| "client_ok _ w \<longleftrightarrow> True"

text \<open>What the client asks of its callback for new connections, which \<^verbatim>\<open>TCPClient::newConnection\<close> provides.\<close>

definition new_ok :: "('k \<Rightarrow> int \<Rightarrow> epoll_event option) \<Rightarrow> (int \<Rightarrow> ('k, 'z) cln \<Rightarrow> ('k, 'z) cln result) \<Rightarrow> bool" where
  "new_ok interest new \<longleftrightarrow>
     (\<forall>fd w. connector_inv interest w \<longrightarrow> conns_ok w \<longrightarrow> cl_connection w = None \<longrightarrow> x_state w = kConnected_c \<longrightarrow>
        (\<exists>w'. new fd w = Inr w' \<and> client_inv interest w'))"

lemma client_newConnection_new_ok: "inet6_text ntop6 pton6 \<Longrightarrow> new_ok interest (client_newConnection ntop6 e peer)"
  unfolding new_ok_def using client_newConnection_ok by blast

lemma client_inv_more:
  assumes "connector_inv interest v" "connector.more v = connector.more w" "conns_ok w"
    "cl_connection w \<noteq> None \<Longrightarrow> x_state v = kConnected_c"
  shows "client_inv interest v"
  using assms client_more [OF assms(2)] by (simp add: client_inv_def)

lemma OnConnector_ok:
  assumes K: "epoll_contract ctl interest" and inv: "client_inv interest w" and n: "new_ok interest new"
    and ok: "connector_ok c w" "\<not> is_restart c"
  shows "\<exists>w'. connector_exec ctl (Some new) c w = Inr w' \<and> client_inv interest w'"
proof -
  have I: "connector_inv interest w" "conns_ok w" "cl_connection w \<noteq> None \<longrightarrow> x_state w = kConnected_c"
    using inv by (simp_all add: client_inv_def)
  show ?thesis
  proof (cases "calls_back c")
    case False
    from exec_quiet [OF K I(1) ok(1) False, of "Some new"] obtain w' where
      w': "connector_exec ctl (Some new) c w = Inr w'" "connector_inv interest w'" "connector.more w' = connector.more w" by blast
    then show ?thesis using connected_stays [OF w'(1) ok] I client_inv_more [OF w'(2,3) I(2)] by auto
  next
    case True
    then obtain err self where c: "c = WriteC err self" by (cases c) auto
    have none: "cl_connection w = None" using ok(1) I(3) c by auto
    from handleWrite_cases [OF K I(1) ok(1) [unfolded c], of "Some new"] show ?thesis
    proof
      assume "\<exists>w'. connector_exec ctl (Some new) (WriteC err self) w = Inr w' \<and> connector_inv interest w' \<and> connector.more w' = connector.more w"
      then show ?thesis using client_inv_more [OF _ _ I(2)] none c by metis
    next
      assume "\<exists>fd v. connector_exec ctl (Some new) (WriteC err self) w = (case Some new of None \<Rightarrow> Inl BadFunctionCall | Some cb \<Rightarrow> cb fd v) \<and>
        connector_inv interest v \<and> x_state v = kConnected_c \<and> connector.more v = connector.more w"
      then obtain fd v where v: "connector_exec ctl (Some new) c w = new fd v" "connector_inv interest v" "x_state v = kConnected_c"
        "connector.more v = connector.more w" using c by auto
      then show ?thesis using n client_more [OF v(4)] I(2) none by (simp add: new_ok_def)
    qed
  qed
qed

lemma set_state_ok:
  assumes "client_inv interest w" "cl_conns w i = Some c" "cc_state c \<noteq> kDisconnected" "\<forall>f \<in> set fs. f = ForceCloseFun i"
  shows "client_inv interest ((set_cconn i (c\<lparr>cc_state := kDisconnecting\<rparr>) w)\<lparr>cl_functors := cl_functors w @ fs\<rparr>)"
proof -
  have fs: "destroys fs = []" using assms(4) by (induction fs rule: destroys.induct) auto
  have I: "connector_inv interest w" "conns_ok w" using assms(1) by (simp_all add: client_inv_def)
  note D = conns_okD [OF I(2)]
  have cur: "cl_connection w = Some i" using D(5) [OF assms(2)] assms(3) by simp
  have mem: "j \<in> set (cl_destroyed w @ destroys (cl_functors w)) \<longleftrightarrow>
      (\<exists>d. ((cl_conns w)(i \<mapsto> c\<lparr>cc_state := kDisconnecting\<rparr>)) j = Some d \<and> cc_state d = kDisconnected)" for j
    using D(9) [of j] assms(2,3) by auto
  have "conns_ok ((set_cconn i (c\<lparr>cc_state := kDisconnecting\<rparr>) w)\<lparr>cl_functors := cl_functors w @ fs\<rparr>)"
    unfolding conns_ok_def
    using D(1,2,3,4,5,7,8) mem assms(2-4) cur fs by (auto simp: set_cconn_def)
  then show ?thesis using I(1) assms(1) by (simp add: client_inv_def set_cconn_def)
qed

lemma client_inv_flags [simp]:
  "client_inv interest (w\<lparr>cl_connect := b\<rparr>) = client_inv interest w" "client_inv interest (w\<lparr>cl_retry := b\<rparr>) = client_inv interest w"
  by (simp_all add: client_inv_def conns_ok_def)

lemma disconnect_ok:
  assumes "client_inv interest w"
  shows "\<exists>w'. client_disconnect w = Inr w' \<and> client_inv interest w'"
proof -
  let ?w = "w\<lparr>cl_connect := False\<rparr>"
  have inv: "client_inv interest ?w" using assms by simp
  show ?thesis
  proof (cases "cl_connection w")
    case (Some i)
    then obtain c where c: "cl_conns w i = Some c" using conns_okD(6) [of w i] assms by (auto simp: client_inv_def)
    then show ?thesis using Some inv set_state_ok [OF inv, of i c "[]"]
      by (auto simp: client_disconnect_def cconn_deref_def set_cconn_def Let_def)
  qed (use inv in \<open>simp add: client_disconnect_def\<close>)
qed

interpretation client: safe_commands "client_exec ctl new"
  "\<lambda>w. client_inv interest w \<and> epoll_contract ctl interest \<and> new_ok interest new" client_ok
proof
  fix w :: "('a, 'b) cln" and c
  assume a: "client_inv interest w \<and> epoll_contract ctl interest \<and> new_ok interest new" and ok: "client_ok c w"
  then have inv: "client_inv interest w" and K: "epoll_contract ctl interest" and n: "new_ok interest new" by blast+
  have "\<exists>w'. client_exec ctl new c w = Inr w' \<and> client_inv interest w'"
  proof (cases c)
    case (OnConnector x)
    then show ?thesis using OnConnector_ok [OF K inv n] ok by simp
  next
    case (ConnectCmd p fd en)
    then have "connector_ok (StartC p fd en) (w\<lparr>cl_connect := True\<rparr>)" using ok by simp
    then show ?thesis using OnConnector_ok [OF K _ n, of "w\<lparr>cl_connect := True\<rparr>" "StartC p fd en"] inv ConnectCmd
      by (simp add: client_connect_def)
  next
    case StopCmd
    then show ?thesis using OnConnector_ok [OF K _ n, of "w\<lparr>cl_connect := False\<rparr>" StopC] inv by (simp add: client_stop_def)
  next
    case (PeerClosed i p fd en)
    then show ?thesis using cconn_close_ok [OF K inv] ok by simp
  next
    case (ForceCloseCmd i)
    then obtain d where d: "cl_conns w i = Some d" using ok by auto
    then show ?thesis using ForceCloseCmd inv set_state_ok [OF inv d, of "[ForceCloseFun i]"]
      by (auto simp: client_forceClose_def cconn_deref_def)
  next
    case (RunFunctor p fd en)
    show ?thesis
    proof (cases "cl_functors w")
      case (Cons f fs)
      show ?thesis
      proof (cases f)
        case (DestroyFun i)
        then show ?thesis using cconn_destroy_ok [OF inv] Cons RunFunctor by (simp add: run_client_functor_def)
      next
        case (ForceCloseFun i)
        let ?w = "w\<lparr>cl_functors := fs\<rparr>"
        have inv': "client_inv interest ?w" using pop_functor [OF inv] Cons ForceCloseFun by simp
        obtain d where d: "cl_conns w i = Some d" using conns_okD(7) [of w i] inv Cons ForceCloseFun by (auto simp: client_inv_def)
        show ?thesis
        proof (cases "cc_state d = kConnected \<or> cc_state d = kDisconnecting")
          case True
          then have "may_close p fd i ?w" using ok RunFunctor Cons ForceCloseFun d by (auto simp: may_close_def startable_def)
          from cconn_close_ok [OF K inv' this] show ?thesis using True d Cons ForceCloseFun RunFunctor
            by (simp add: run_client_functor_def cconn_deref_def)
        qed (use d inv' Cons ForceCloseFun RunFunctor in \<open>auto simp: run_client_functor_def cconn_deref_def\<close>)
      qed
    qed (use inv RunFunctor in simp)
  qed (use inv disconnect_ok [OF inv] in \<open>simp_all add: enableRetry_def\<close>)
  then show "\<exists>w'. client_exec ctl new c w = Inr w' \<and> (client_inv interest w' \<and> epoll_contract ctl interest \<and> new_ok interest new)"
    using K n by blast
qed

lemma TCPClient_sel [simp]:
  "heap (TCPClient n w) = heap w" "channels (TCPClient n w) = channels w" "kern (TCPClient n w) = kern w"
  "inLoopThread (TCPClient n w) = inLoopThread w"
  "reactor.truncate (TCPClient n w) = reactor.truncate (Connector w)" "connector.truncate (TCPClient n w) = connector.truncate (Connector w)"
  "cl_connection (TCPClient n w) = None" "cl_conns (TCPClient n w) = Map.empty" "cl_functors (TCPClient n w) = []"
  "cl_destroyed (TCPClient n w) = []" "cl_alive (TCPClient n w)"
  by (simp_all add: TCPClient_def Connector_def reactor.defs connector.defs client.defs)

lemma TCPClient_inv:
  assumes "reactor_inv interest w"
  shows "client_inv interest (TCPClient n w)"
proof -
  have "connector_inv interest (TCPClient n w) = connector_inv interest (Connector w)"
  proof -
    have r: "heap (TCPClient n w) = heap (Connector w)" "channels (TCPClient n w) = channels (Connector w)"
      "kern (TCPClient n w) = kern (Connector w)" "inLoopThread (TCPClient n w) = inLoopThread (Connector w)" by simp_all
    have x: "x_connect (TCPClient n w) = x_connect (Connector w)" "x_state (TCPClient n w) = x_state (Connector w)"
      "x_channel (TCPClient n w) = x_channel (Connector w)" "x_retryDelayMs (TCPClient n w) = x_retryDelayMs (Connector w)"
      "x_functors (TCPClient n w) = x_functors (Connector w)" "x_timers (TCPClient n w) = x_timers (Connector w)"
      "x_created (TCPClient n w) = x_created (Connector w)" "x_closed (TCPClient n w) = x_closed (Connector w)"
      "x_delivered (TCPClient n w) = x_delivered (Connector w)" "x_delays (TCPClient n w) = x_delays (Connector w)"
      by (simp_all add: TCPClient_def Connector_def reactor.defs connector.defs client.defs)
    have "watched (TCPClient n w) = watched (Connector w)" "chan_inv (TCPClient n w) = chan_inv (Connector w)"
      unfolding watched_def chan_inv_def r by blast+
    then show ?thesis by (simp only: connector_inv_def chan_phase_def current_fd_def reactor_inv_def x r)
  qed
  then show ?thesis using Connector_inv [OF assms] by (simp add: client_inv_def conns_ok_def)
qed

lemma client_history:
  assumes "epoll_contract ctl interest" "inet6_text ntop6 pton6" "reactor_inv interest w"
    "allowed (client_exec ctl (client_newConnection ntop6 e peer)) client_ok cmds (TCPClient name w)"
  shows "\<exists>w'. foldR (client_exec ctl (client_newConnection ntop6 e peer)) cmds (TCPClient name w) = Inr w' \<and> client_inv interest w'"
  using client.foldR_safe [OF _ assms(4), of interest] TCPClient_inv [OF assms(3)] client_newConnection_new_ok [OF assms(2)] assms(1)
  by blast

section \<open>Properties of the client\<close>

lemma no_peer: "inet_toIpPort full_ntop6 LittleEndian (getPeerAddr None) = Inr '':0''"
proof -
  have f: "family LittleEndian (getPeerAddr None) = 0" "portNetEndian LittleEndian (getPeerAddr None) = 0"
    by (simp_all add: family_def portNetEndian_def getPeerAddr_def numeral_2_eq_2 word_of_mem_def)
  have "networkToHost16 LittleEndian 0 = 0"
    by (simp add: networkToHost16_def htobe_def bswap_def mem_of_word_def word_of_mem_def numeral_2_eq_2)
  moreover have "dec 0 = ''0''" by (simp add: dec.simps digit_def char_of_def bit_iff_odd_drop_bit drop_bit_eq_div)
  moreover have "inet_toIp full_ntop6 LittleEndian (getPeerAddr None) = Inr []"
    by (simp add: inet_toIp_def toIp_def f AF_INET_def AF_INET6_def)
  ultimately show ?thesis using toIpPort_text [of full_ntop6 LittleEndian "getPeerAddr None" "[]"] f by (simp add: toPort_def)
qed

abbreviation sample_new :: "int \<Rightarrow> (int \<Rightarrow> epoll_event option) client \<Rightarrow> (int \<Rightarrow> epoll_event option) client result" where
  "sample_new \<equiv> client_newConnection full_ntop6 LittleEndian (\<lambda>_. None)"

abbreviation sample_history :: "client_cmd list" where
  "sample_history \<equiv> [ConnectCmd 1 5 EINPROGRESS, OnConnector (WriteC 0 False), OnConnector (FunctorC 0 0 0)]"

abbreviation sample_client :: "(int \<Rightarrow> epoll_event option) client" where
  "sample_client \<equiv> TCPClient ''c'' (EPollPoller Map.empty)"

lemmas client_eval = TCPClient_def exec_defs Connector_def reactor.defs connector.defs client.defs connector_start_def startInLoop_def
  startable_def connector_connect_def setState_c_def errno_defs connecting_def may_remove_def client_connect_def
  connector_handleWrite_def removeAndResetChannel_def chan_remove_def loop_removeChannel_def removeChannel_def
  queue_functor_def run_functor_def resetChannel_def Channel_dtor_def hasChannel_def kInitRetryDelayMs_def
  client_newConnection_def no_peer set_cconn_def cconn_deref_def client_conn_name_def enableRetry_def assertInLoopThread_def

lemma sample_allowed:
  "allowed (client_exec map_ctl sample_new) client_ok sample_history sample_client"
  "allowed (client_exec map_ctl sample_new) client_ok (RetryCmd # sample_history) sample_client"
  by (simp_all add: client_eval)

lemma sample_run:
  "\<exists>w. foldR (client_exec map_ctl sample_new) sample_history sample_client = Inr w \<and> cl_connection w = Some 1 \<and> x_channel w = None \<and>
    may_close 2 6 1 w \<and> \<not> cl_retry w"
  "\<exists>w. foldR (client_exec map_ctl sample_new) (RetryCmd # sample_history) sample_client = Inr w \<and> may_close 2 6 1 w \<and> cl_retry w \<and> cl_connect w"
  by (simp_all add: client_eval may_close_def)

lemma sample_inv:
  assumes "foldR (client_exec map_ctl sample_new) sample_history sample_client = Inr w"
  shows "client_inv (\<lambda>k. k) w"
  using client_history [OF map_ctl_contract inet6_text_full idle_poller_inv sample_allowed(1)] assms by auto

text \<open>C11. A client has one open connection at most: whatever happens to it within the rules of its connector (connects, stops,
  retries, closes by the peer and by itself), no assert fails, the connection that is not closed is the one \<^verbatim>\<open>connection()\<close>
  returns, no connection is destroyed twice, and when the functors have run exactly the closed ones are destroyed.\<close>

theorem client_one_connection:
  assumes "epoll_contract ctl interest" "inet6_text ntop6 pton6" "reactor_inv interest w"
    "allowed (client_exec ctl (client_newConnection ntop6 e peer)) client_ok cmds (TCPClient name w)"
  shows "\<exists>w'. foldR (client_exec ctl (client_newConnection ntop6 e peer)) cmds (TCPClient name w) = Inr w' \<and>
    (\<forall>i c. cl_conns w' i = Some c \<longrightarrow> (cc_state c \<noteq> kDisconnected \<longleftrightarrow> cl_connection w' = Some i)) \<and>
    distinct (cl_destroyed w') \<and>
    (cl_functors w' = [] \<longrightarrow> (\<forall>i. i \<in> set (cl_destroyed w') \<longleftrightarrow> (\<exists>c. cl_conns w' i = Some c \<and> cc_state c = kDisconnected)))"
proof -
  obtain w' where w': "foldR (client_exec ctl (client_newConnection ntop6 e peer)) cmds (TCPClient name w) = Inr w'"
    "client_inv interest w'" using client_history [OF assms] by blast
  note D = conns_okD [of w']
  have ok: "conns_ok w'" using w'(2) by (simp add: client_inv_def)
  have "cl_functors w' = [] \<Longrightarrow> i \<in> set (cl_destroyed w') \<longleftrightarrow> (\<exists>c. cl_conns w' i = Some c \<and> cc_state c = kDisconnected)" for i
    using D(9) [OF ok, of i] by simp
  then show ?thesis using w'(1) D(5,8) [OF ok] by (intro exI [of _ w']) simp
qed

theorem client_one_connection_witness:
  "\<exists>w'. foldR (client_exec map_ctl sample_new) sample_history sample_client = Inr w' \<and> distinct (cl_destroyed w')"
  using client_one_connection [OF map_ctl_contract inet6_text_full idle_poller_inv sample_allowed(1)] by auto

text \<open>C29. With retry enabled, a client whose connection is closed tries again at once, with the first delay: an attempt that
  the kernel accepts leaves it connecting, and one that fails for now is repeated after half a second.\<close>

theorem client_reconnects:
  assumes "epoll_contract ctl interest" "inet6_text ntop6 pton6" "reactor_inv interest w0"
    "allowed (client_exec ctl (client_newConnection ntop6 e peer)) client_ok cmds (TCPClient name w0)"
    "foldR (client_exec ctl (client_newConnection ntop6 e peer)) cmds (TCPClient name w0) = Inr w"
    "may_close p fd i w" "cl_retry w" "cl_connect w"
  shows "\<exists>w'. cconn_close ctl p fd en i w = Inr w' \<and> cl_connection w' = None \<and>
    (en \<in> {0, EINPROGRESS, EINTR, EISCONN} \<longrightarrow> x_state w' = kConnecting_c) \<and>
    (en \<in> retriable \<longrightarrow> x_state w' = kDisconnected_c \<and> x_timers w' = [kInitRetryDelayMs])"
proof -
  have inv: "client_inv interest w" using client_history [OF assms(1-4)] assms(5) by auto
  obtain c where c: "cl_conns w i = Some c" "cc_state c = kConnected \<or> cc_state c = kDisconnecting"
    using assms(6) by (auto simp: may_close_def split: option.splits)
  obtain w' where w': "cconn_close ctl p fd en i w = Inr w'" "client_inv interest w'" using cconn_close_ok [OF assms(1) inv assms(6)] by blast
  let ?v = "closed_client i c w"
  let ?u = "(setState_c kDisconnected_c ?v)\<lparr>x_retryDelayMs := kInitRetryDelayMs, x_connect := True\<rparr>"
  have r: "startInLoop ctl p fd en ?u = Inr w'"
    using cconn_close_eq [OF inv c, of ctl p fd en] assms(7,8) w'(1)
    by (auto simp: connector_restart_def assertInLoopThread_def split: if_splits)
  have u: "x_state ?u = kDisconnected_c" "x_connect ?u" "x_timers ?u = []" "inLoopThread ?u" "cl_connection ?u = None"
    using assms(6-8) connector_invD(3) [of interest w] inv
    by (auto simp: setState_c_def set_cconn_def may_close_def startable_def client_inv_def)
  have none: "cl_connection w' = None" using client_more(2) [OF more_startInLoop [OF r]] u(5) by simp
  have conn: "x_state w' = kConnecting_c" if "en \<in> {0, EINPROGRESS, EINTR, EISCONN}"
  proof -
    have "connecting ctl p fd (?u\<lparr>x_created := x_created ?u @ [fd]\<rparr>) = Inr w'"
      using r u(1,2,4) that by (auto simp: startInLoop_def assertInLoopThread_def connector_connect_def Let_def)
    then show ?thesis
      by (auto simp: connecting_def new_channel_def set_chan_def setState_c_def result_simps Let_def
          dest!: more_fields [OF more_reactor_ops(1)])
  qed
  have "x_state w' = kDisconnected_c \<and> x_timers w' = [kInitRetryDelayMs]" if "en \<in> retriable"
    using connect_retriable [OF u(1,4,2) that, of ctl p fd] r u(2,3) by (auto simp: retry_def Let_def setState_c_def close_fd_def)
  then show ?thesis using w'(1) none conn by blast
qed

theorem client_reconnects_witness:
  "\<exists>w w'. foldR (client_exec map_ctl sample_new) (RetryCmd # sample_history) sample_client = Inr w \<and>
     cconn_close map_ctl 2 6 EINPROGRESS 1 w = Inr w' \<and> x_state w' = kConnecting_c"
proof -
  obtain w where w: "foldR (client_exec map_ctl sample_new) (RetryCmd # sample_history) sample_client = Inr w" "may_close 2 6 1 w"
    "cl_retry w" "cl_connect w" using sample_run(2) by blast
  from client_reconnects [OF map_ctl_contract inet6_text_full idle_poller_inv sample_allowed(2) w, of EINPROGRESS]
  show ?thesis using w(1) by auto
qed

text \<open>Without retry a client can connect only once: after its connection was closed the connector is still in the state
  \<^verbatim>\<open>kConnected\<close>, and \<^verbatim>\<open>connect()\<close> fails its assert.\<close>

theorem client_connect_again_fails:
  assumes "epoll_contract ctl interest" "client_inv interest w" "may_close p fd i w" "\<not> cl_retry w"
  shows "\<exists>w'. cconn_close ctl p fd en i w = Inr w' \<and> client_connect ctl q fd' en' w' = Inl AssertFailed"
proof -
  obtain c where c: "cl_conns w i = Some c" "cc_state c = kConnected \<or> cc_state c = kDisconnecting"
    using assms(3) by (auto simp: may_close_def split: option.splits)
  have I: "connector_inv interest w" "conns_ok w" using assms(2) by (simp_all add: client_inv_def)
  have st: "x_state w = kConnected_c" using conns_okD(5) [OF I(2) c(1)] c(2) assms(2) by (auto simp: client_inv_def)
  have "cconn_close ctl p fd en i w = Inr (closed_client i c w)"
    using cconn_close_eq [OF assms(2) c, of ctl p fd en] assms(4) by auto
  then show ?thesis using st connector_invD(3) [OF I(1)]
    by (simp add: client_connect_def connector_start_def startInLoop_def assertInLoopThread_def set_cconn_def Let_def)
qed

theorem client_connect_again_fails_witness:
  "\<exists>w w'. foldR (client_exec map_ctl sample_new) sample_history sample_client = Inr w \<and>
     cconn_close map_ctl 2 6 0 1 w = Inr w' \<and> client_connect map_ctl 2 6 0 w' = Inl AssertFailed"
proof -
  obtain w where w: "foldR (client_exec map_ctl sample_new) sample_history sample_client = Inr w" "may_close 2 6 1 w" "\<not> cl_retry w"
    using sample_run(1) by blast
  from client_connect_again_fails [OF map_ctl_contract sample_inv [OF w(1)] w(2,3), of 0 2 6 0] show ?thesis using w(1) by auto
qed

text \<open>The destructor of a client leaves its connection usable: its later close does not touch the client, which is gone,
  and the connection is destroyed.\<close>

theorem client_dtor_detaches:
  assumes "client_inv interest w" "cl_connection w = Some i" "x_channel w = None"
  shows "\<exists>w1 w2 w3. TCPClient_dtor unique w = Inr w1 \<and> \<not> cl_alive w1 \<and> cconn_close ctl p fd en i w1 = Inr w2 \<and>
    cconn_destroy i w2 = Inr w3 \<and> i \<in> set (cl_destroyed w3)"
proof -
  have ok: "conns_ok w" using assms(1) by (simp add: client_inv_def)
  note D = conns_okD [OF ok]
  obtain c where c: "cl_conns w i = Some c" using D(6) [OF assms(2)] by blast
  have st: "cc_state c = kConnected \<or> cc_state c = kDisconnecting"
    using D(3,5) [OF c] assms(2) by (cases "cc_state c") auto
  have "i \<notin> set (cl_destroyed w)" using D(9) [of i] c st by auto
  then show ?thesis using assms(2,3) c st
    by (cases unique) (auto simp: TCPClient_dtor_def cconn_deref_def client_forceClose_def Connector_dtor_def set_cconn_def Let_def cconn_close_def
        detail_removeConnection_def cconn_destroy_def)
qed

theorem client_dtor_detaches_witness:
  "\<exists>w w1. foldR (client_exec map_ctl sample_new) sample_history sample_client = Inr w \<and> TCPClient_dtor True w = Inr w1 \<and> \<not> cl_alive w1"
proof -
  obtain w where w: "foldR (client_exec map_ctl sample_new) sample_history sample_client = Inr w" "cl_connection w = Some 1" "x_channel w = None"
    using sample_run(1) by blast
  from client_dtor_detaches [OF sample_inv [OF w(1)] w(2,3), of True map_ctl 2 6 0] show ?thesis using w(1) by blast
qed

end
