(* ===== verification/Lute_Acceptor.thy ===== *)
theory Lute_Acceptor
  imports Lute_EventLoop Lute_Sockets
begin

text \<open>
  The passive side of connections, \<^verbatim>\<open>polaris/src/Acceptor.cc\<close>.  The acceptor extends the channels of its loop.  The calls
  that take and give back descriptors are parameters (\<open>fd_kernel\<close>); what is asked of them is the behaviour of
  \<^verbatim>\<open>accept(2)\<close>, \<^verbatim>\<open>open(2)\<close> and \<^verbatim>\<open>close(2)\<close> in a process with a limit of descriptors.
\<close>

section \<open>The kernel\<close>

record 'k fd_kernel =
  k_accept :: "'k \<Rightarrow> 'k \<times> accept_reply"
  k_open :: "'k \<Rightarrow> 'k \<times> int"
  k_close :: "int \<Rightarrow> 'k \<Rightarrow> 'k"

text \<open>
  \<open>fds\<close> are the open descriptors of the process, at most \<open>limit\<close>, and \<open>backlog\<close> the addresses of the peers whose
  connections wait to be accepted.  A new descriptor is not watched.
\<close>

definition accept_contract ::
  "'k fd_kernel \<Rightarrow> ('k \<Rightarrow> int \<Rightarrow> epoll_event option) \<Rightarrow> ('k \<Rightarrow> int set) \<Rightarrow> ('k \<Rightarrow> byte list list) \<Rightarrow> nat \<Rightarrow> 'k \<Rightarrow> bool" where
  "accept_contract K interest fds backlog limit k \<longleftrightarrow>
     (case backlog k of
        [] \<Rightarrow> \<exists>k' en. k_accept K k = (k', AcceptFailed en) \<and> en \<in> {EAGAIN, EMFILE} \<and>
          fds k' = fds k \<and> backlog k' = [] \<and> interest k' = interest k
      | a # as \<Rightarrow>
          if card (fds k) < limit
          then \<exists>k' fd. k_accept K k = (k', Accepted fd a) \<and> 0 \<le> fd \<and> fd \<notin> fds k \<and> interest k fd = None \<and>
            fds k' = insert fd (fds k) \<and> backlog k' = as \<and> interest k' = interest k
          else \<exists>k'. k_accept K k = (k', AcceptFailed EMFILE) \<and> fds k' = fds k \<and> backlog k' = a # as \<and>
            interest k' = interest k)"

definition open_contract ::
  "'k fd_kernel \<Rightarrow> ('k \<Rightarrow> int \<Rightarrow> epoll_event option) \<Rightarrow> ('k \<Rightarrow> int set) \<Rightarrow> ('k \<Rightarrow> byte list list) \<Rightarrow> nat \<Rightarrow> 'k \<Rightarrow> bool" where
  "open_contract K interest fds backlog limit k \<longleftrightarrow>
     (if card (fds k) < limit
      then \<exists>k' fd. k_open K k = (k', fd) \<and> 0 \<le> fd \<and> fd \<notin> fds k \<and> interest k fd = None \<and>
        fds k' = insert fd (fds k) \<and> backlog k' = backlog k \<and> interest k' = interest k
      else \<exists>k'. k_open K k = (k', -1) \<and> fds k' = fds k \<and> backlog k' = backlog k \<and> interest k' = interest k)"

definition fd_contract ::
  "'k fd_kernel \<Rightarrow> ('k \<Rightarrow> int \<Rightarrow> epoll_event option) \<Rightarrow> ('k \<Rightarrow> int set) \<Rightarrow> ('k \<Rightarrow> byte list list) \<Rightarrow> nat \<Rightarrow> bool" where
  "fd_contract K interest fds backlog limit \<longleftrightarrow>
     (\<forall>k. finite (fds k) \<and> card (fds k) \<le> limit \<and> (\<forall>fd \<in> fds k. 0 \<le> fd)) \<and>
     (\<forall>k. accept_contract K interest fds backlog limit k) \<and>
     (\<forall>k. open_contract K interest fds backlog limit k) \<and>
     (\<forall>k fd. fds (k_close K fd k) = fds k - {fd} \<and> backlog (k_close K fd k) = backlog k \<and>
        (interest k fd = None \<or> fd \<notin> fds k \<longrightarrow> interest (k_close K fd k) = interest k))"

section \<open>Operations\<close>

record 'k acceptor = "'k reactor" +
  a_acceptSocket :: int
  a_acceptChannel :: addr
  a_listenning :: bool
  a_idleFd :: int
  a_socks :: sock_world

type_synonym ('k, 'z) acc = "('k, 'z) acceptor_scheme"
type_synonym 'w acceptCallback = "(int \<Rightarrow> inetAddress \<Rightarrow> 'w \<Rightarrow> 'w result) option"

text \<open>
  The constructor: \<open>sockfd\<close>, \<open>idleFd\<close>, \<open>reuseAddr\<close>, \<open>reusePort\<close> and \<open>bound\<close> are the answers of \<^verbatim>\<open>socket\<close>, \<^verbatim>\<open>open\<close>, the two
  calls of \<^verbatim>\<open>setsockopt\<close> and \<^verbatim>\<open>bind\<close>; the channel is at the address \<open>p\<close>.
\<close>

definition Acceptor ::
  "addr \<Rightarrow> int \<Rightarrow> int \<Rightarrow> int \<Rightarrow> int \<Rightarrow> int \<Rightarrow> bool \<Rightarrow> sock_world \<Rightarrow> 'k reactor \<Rightarrow> 'k acceptor result" where
  "Acceptor p sockfd idleFd reuseAddr reusePort bound reuse socks w =
     bindR (createNonblockingOrDie sockfd) (\<lambda>fd.
     bindR (new_channel p fd w) (\<lambda>w1.
     assertR (0 \<le> idleFd)
       (let socks1 = setReusePort reusePort reuse fd (setReuseAddr reuseAddr True fd socks)
        in bindR (bindAddress bound) (\<lambda>_.
           Inr (reactor.extend w1 (acceptor.fields fd p False idleFd socks1))))))"

definition acceptor_listen :: "'k epoll_ctl \<Rightarrow> int \<Rightarrow> ('k, 'z) acc \<Rightarrow> ('k, 'z) acc result" where
  "acceptor_listen ctl ret w =
     assertInLoopThread w
       (let w1 = w\<lparr>a_listenning := True\<rparr>
        in bindR (Socket_listen ret) (\<lambda>_. enableReading ctl (a_acceptChannel w1) w1))"

definition take_and_drop :: "'k fd_kernel \<Rightarrow> ('k, 'z) acc \<Rightarrow> ('k, 'z) acc" where
  "take_and_drop K w =
     (let k1 = k_close K (a_idleFd w) (kern w);
          (k2, reply) = k_accept K k1;
          idle = (case reply of Accepted fd bs \<Rightarrow> fd | AcceptFailed en \<Rightarrow> -1);
          k3 = k_close K idle k2;
          (k4, idleFd) = k_open K k3
      in w\<lparr>kern := k4, a_idleFd := idleFd\<rparr>)"

definition acceptor_handleRead ::
  "(byte list \<Rightarrow> string) \<Rightarrow> endian \<Rightarrow> byte list \<Rightarrow> 'k fd_kernel \<Rightarrow> ('k, 'z) acc acceptCallback \<Rightarrow>
   ('k, 'z) acc \<Rightarrow> ('k, 'z) acc result" where
  "acceptor_handleRead ntop6 e mem K ncb w =
     assertInLoopThread w
       (let peerAddr = InetAddress_port e mem 0 False False;
            (k1, reply) = k_accept K (kern w);
            w1 = w\<lparr>kern := k1\<rparr>
        in bindR (Socket_accept reply peerAddr) (\<lambda>(connfd, peerAddr1, errno).
           if 0 \<le> connfd
           then bindR (inet_toIpPort ntop6 e peerAddr1) (\<lambda>hostport.
                  case ncb of
                    Some newConnectionCallback \<Rightarrow> newConnectionCallback connfd peerAddr1 w1
                  | None \<Rightarrow> Inr (w1\<lparr>kern := k_close K connfd k1\<rparr>))
           else if errno = EMFILE then Inr (take_and_drop K w1)
           else Inr w1))"

text \<open>The destructor, with those of the members: the channel first, then the socket.\<close>

definition Acceptor_dtor :: "'k epoll_ctl \<Rightarrow> 'k fd_kernel \<Rightarrow> ('k, 'z) acc \<Rightarrow> ('k, 'z) acc result" where
  "Acceptor_dtor ctl K w =
     bindR (disableAll ctl (a_acceptChannel w) w) (\<lambda>w1.
     bindR (chan_remove ctl (a_acceptChannel w) w1) (\<lambda>w2.
       let w3 = w2\<lparr>kern := k_close K (a_idleFd w2) (kern w2)\<rparr>
       in bindR (Channel_dtor (a_acceptChannel w3) w3) (\<lambda>w4.
            Inr (w4\<lparr>kern := k_close K (a_acceptSocket w4) (kern w4)\<rparr>))))"

section \<open>The idle descriptor\<close>

text \<open>The acceptor owns an open descriptor that nobody watches: the one it can give up when the process has no other.\<close>

definition acceptor_inv ::
  "('k \<Rightarrow> int \<Rightarrow> epoll_event option) \<Rightarrow> ('k \<Rightarrow> int set) \<Rightarrow> ('k, 'z) acc \<Rightarrow> bool" where
  "acceptor_inv interest fds w \<longleftrightarrow>
     reactor_inv interest w \<and> a_idleFd w \<in> fds (kern w) \<and> interest (kern w) (a_idleFd w) = None"

lemma acc_reactor_inv_kern:
  assumes "reactor_inv interest w" "interest k = interest (kern w)"
  shows "reactor_inv interest (w\<lparr>kern := k\<rparr>)"
proof -
  have "watched (w\<lparr>kern := k\<rparr>) = watched w" by (rule ext) (simp add: watched_def cong: option.case_cong)
  moreover have "chan_inv (w\<lparr>kern := k\<rparr>) = chan_inv w" by (intro ext) (simp add: chan_inv_def)
  ultimately show ?thesis using assms by (simp add: reactor_inv_def)
qed

lemma reactor_inv_idle: "reactor_inv interest w \<Longrightarrow> reactor_inv interest (w\<lparr>a_idleFd := n\<rparr>)"
  by (subst reactor_inv_cong [of _ w]) simp_all

lemma fd_contractD:
  assumes "fd_contract K interest fds backlog limit"
  shows "finite (fds k)" "card (fds k) \<le> limit" "fd \<in> fds k \<Longrightarrow> 0 \<le> fd"
    "accept_contract K interest fds backlog limit k" "open_contract K interest fds backlog limit k"
    "fds (k_close K fd k) = fds k - {fd}" "backlog (k_close K fd k) = backlog k"
    "interest k fd = None \<or> fd \<notin> fds k \<Longrightarrow> interest (k_close K fd k) = interest k"
  using assms unfolding fd_contract_def by blast+

text \<open>Giving up the idle descriptor, taking one connection with it, closing that and opening the idle one again.\<close>

lemma take_and_drop_spec:
  assumes K: "fd_contract K interest fds backlog limit" and inv: "acceptor_inv interest fds w"
  shows "\<exists>k idle. take_and_drop K w = w\<lparr>kern := k, a_idleFd := idle\<rparr> \<and> idle \<in> fds k \<and> interest k idle = None \<and>
    fds k - {idle} = fds (kern w) - {a_idleFd w} \<and> backlog k = tl (backlog (kern w)) \<and> interest k = interest (kern w)"
proof -
  note D = fd_contractD [OF K]
  let ?k = "kern w" let ?k1 = "k_close K (a_idleFd w) ?k"
  have idle: "a_idleFd w \<in> fds ?k" "interest ?k (a_idleFd w) = None" using inv by (simp_all add: acceptor_inv_def)
  have k1: "fds ?k1 = fds ?k - {a_idleFd w}" "backlog ?k1 = backlog ?k" "interest ?k1 = interest ?k"
    using D(6-8) idle(2) by simp_all
  have room: "card (fds ?k1) < limit"
    using k1(1) idle(1) D(1,2) [of ?k] card_Diff1_less [of "fds ?k" "a_idleFd w"] by auto
  obtain k2 reply idle2 where k2: "k_accept K ?k1 = (k2, reply)"
    "idle2 = (case reply of Accepted fd bs \<Rightarrow> fd | AcceptFailed en \<Rightarrow> -1)"
    "fds k2 - {idle2} = fds ?k1" "backlog k2 = tl (backlog ?k)" "interest k2 = interest ?k" "interest k2 idle2 = None \<or> idle2 \<notin> fds k2"
  proof (cases "backlog ?k1")
    case Nil
    then obtain k2 en where a: "k_accept K ?k1 = (k2, AcceptFailed en)" "fds k2 = fds ?k1" "backlog k2 = []" "interest k2 = interest ?k1"
      using D(4) [of ?k1] unfolding accept_contract_def by auto
    have "-1 \<notin> fds k2" using D(3) [of "-1" k2] by auto
    then show ?thesis using that [of k2 "AcceptFailed en" "-1"] a Nil k1 by simp
  next
    case (Cons x xs)
    then obtain k2 fd where a: "k_accept K ?k1 = (k2, Accepted fd x)" "fd \<notin> fds ?k1" "interest ?k1 fd = None"
        "fds k2 = insert fd (fds ?k1)" "backlog k2 = xs" "interest k2 = interest ?k1"
      using D(4) [of ?k1] room unfolding accept_contract_def by auto
    then show ?thesis using that [of k2 "Accepted fd x" fd] Cons k1 by simp
  qed
  let ?k3 = "k_close K idle2 k2"
  have k3: "fds ?k3 = fds ?k - {a_idleFd w}" "backlog ?k3 = tl (backlog ?k)" "interest ?k3 = interest ?k"
    using D(6,7) [of idle2 k2] D(8) [of k2 idle2] k2 k1 by auto
  have "card (fds ?k3) < limit" using room k1(1) k3(1) by simp
  then obtain k4 idle4 where k4: "k_open K ?k3 = (k4, idle4)" "idle4 \<notin> fds ?k3" "interest ?k3 idle4 = None"
      "fds k4 = insert idle4 (fds ?k3)" "backlog k4 = backlog ?k3" "interest k4 = interest ?k3"
    using D(5) [of ?k3] unfolding open_contract_def by auto
  have "take_and_drop K w = w\<lparr>kern := k4, a_idleFd := idle4\<rparr>"
    using k2(1,2) k4(1) by (simp add: take_and_drop_def)
  moreover have "fds k4 - {idle4} = fds ?k - {a_idleFd w}" using k4(2,4) k3(1) by auto
  ultimately show ?thesis using k4 k3 by (intro exI [of _ k4] exI [of _ idle4]) simp
qed

lemma take_and_drop_inv:
  assumes "fd_contract K interest fds backlog limit" "acceptor_inv interest fds w"
  shows "acceptor_inv interest fds (take_and_drop K w)" "backlog (kern (take_and_drop K w)) = tl (backlog (kern w))"
proof -
  from take_and_drop_spec [OF assms] obtain k idle where k: "take_and_drop K w = w\<lparr>kern := k, a_idleFd := idle\<rparr>"
    "idle \<in> fds k" "interest k idle = None" "backlog k = tl (backlog (kern w))" "interest k = interest (kern w)" by blast
  have "reactor_inv interest (w\<lparr>kern := k, a_idleFd := idle\<rparr>)"
    by (rule reactor_inv_idle [OF acc_reactor_inv_kern]) (use assms(2) k(5) in \<open>simp_all add: acceptor_inv_def\<close>)
  then show "acceptor_inv interest fds (take_and_drop K w)" "backlog (kern (take_and_drop K w)) = tl (backlog (kern w))"
    using k by (simp_all add: acceptor_inv_def)
qed

lemma accepted_address: "Socket_accept (Accepted fd bs) peer = Inr (fd, if 0 \<le> fd then poke 0 (take 28 bs) (replicate 28 (CHR 0x00)) else peer, 0)"
  by (simp add: Socket_accept_def sockets_accept_def setSockAddrInet6_def)

abbreviation padded :: "byte list \<Rightarrow> inetAddress" where
  "padded bs \<equiv> poke 0 (take 28 bs) (replicate 28 (CHR 0x00))"

lemma toIpPort_padded:
  assumes "inet6_text ntop6 pton6"
  obtains s where "inet_toIpPort ntop6 e (padded bs) = Inr s"
proof -
  have "length (padded bs) = 28" by simp
  then obtain ip where ip: "inet_toIp ntop6 e (padded bs) = Inr ip" "length ip \<le> 45" using toIp_some [OF assms] by blast
  show thesis by (rule that [OF toIpPort_text [OF ip]])
qed

text \<open>A readable listening socket: the waiting connection is handed to the callback if there is a free descriptor.\<close>

lemma handleRead_room:
  assumes K: "fd_contract K interest fds backlog limit" and v6: "inet6_text ntop6 pton6" and inv: "acceptor_inv interest fds w"
    and bl: "backlog (kern w) = a # as" and room: "card (fds (kern w)) < limit"
  shows "\<exists>k fd. 0 \<le> fd \<and> fd \<notin> fds (kern w) \<and> fds k = insert fd (fds (kern w)) \<and> backlog k = as \<and> interest k = interest (kern w) \<and>
    interest k fd = None \<and>
    acceptor_handleRead ntop6 e mem K ncb w =
      (case ncb of Some cb \<Rightarrow> cb fd (padded a) (w\<lparr>kern := k\<rparr>) | None \<Rightarrow> Inr (w\<lparr>kern := k_close K fd k\<rparr>))"
proof -
  have i: "inLoopThread w" using inv by (simp add: acceptor_inv_def reactor_inv_def)
  obtain k fd where k: "k_accept K (kern w) = (k, Accepted fd a)" "0 \<le> fd" "fd \<notin> fds (kern w)" "interest (kern w) fd = None"
      "fds k = insert fd (fds (kern w))" "backlog k = as" "interest k = interest (kern w)"
    using fd_contractD(4) [OF K, of "kern w"] bl room unfolding accept_contract_def by auto
  obtain s where "inet_toIpPort ntop6 e (padded a) = Inr s" by (rule toIpPort_padded [OF v6])
  then have "acceptor_handleRead ntop6 e mem K ncb w =
      (case ncb of Some cb \<Rightarrow> cb fd (padded a) (w\<lparr>kern := k\<rparr>) | None \<Rightarrow> Inr (w\<lparr>kern := k_close K fd k\<rparr>))"
    using i k(1,2) by (auto simp: acceptor_handleRead_def assertInLoopThread_def accepted_address Let_def split: option.splits)
  then show ?thesis using k by (intro exI [of _ k] exI [of _ fd]) simp
qed

lemma handleRead_full:
  assumes K: "fd_contract K interest fds backlog limit" and inv: "acceptor_inv interest fds w"
    and bl: "backlog (kern w) = a # as" and full: "\<not> card (fds (kern w)) < limit"
  shows "\<exists>k. fds k = fds (kern w) \<and> backlog k = a # as \<and> interest k = interest (kern w) \<and>
    acceptor_handleRead ntop6 e mem K ncb w = Inr (take_and_drop K (w\<lparr>kern := k\<rparr>))"
proof -
  have i: "inLoopThread w" using inv by (simp add: acceptor_inv_def reactor_inv_def)
  obtain k where k: "k_accept K (kern w) = (k, AcceptFailed EMFILE)" "fds k = fds (kern w)" "backlog k = a # as"
      "interest k = interest (kern w)"
    using fd_contractD(4) [OF K, of "kern w"] bl full unfolding accept_contract_def by auto
  have "acceptor_handleRead ntop6 e mem K ncb w = Inr (take_and_drop K (w\<lparr>kern := k\<rparr>))"
    using i k(1) by (simp add: acceptor_handleRead_def assertInLoopThread_def Socket_accept_def sockets_accept_def accept_errno)
  then show ?thesis using k by (intro exI [of _ k]) simp
qed

lemma acceptor_inv_kern:
  assumes "acceptor_inv interest fds w" "fds (kern w) \<subseteq> fds k" "interest k = interest (kern w)"
  shows "acceptor_inv interest fds (w\<lparr>kern := k\<rparr>)"
  using assms acc_reactor_inv_kern [of interest w k] by (auto simp: acceptor_inv_def)

text \<open>What the acceptor asks of its callback, if it has one: it keeps the idle descriptor and takes no connection itself.\<close>

definition accept_cb_ok ::
  "(('k, 'z) acc \<Rightarrow> bool) \<Rightarrow> ('k \<Rightarrow> byte list list) \<Rightarrow> ('k, 'z) acc acceptCallback \<Rightarrow> bool" where
  "accept_cb_ok I backlog ncb \<longleftrightarrow>
     (\<forall>cb fd peer w. ncb = Some cb \<longrightarrow> I w \<longrightarrow>
        (\<exists>w'. cb fd peer w = Inr w' \<and> I w' \<and> backlog (kern w') = backlog (kern w)))"

lemma handleRead_takes_one:
  assumes K: "fd_contract K interest fds backlog limit" and v6: "inet6_text ntop6 pton6" and inv: "acceptor_inv interest fds w"
    and cb: "accept_cb_ok (acceptor_inv interest fds) backlog ncb" and bl: "backlog (kern w) = a # as"
  shows "\<exists>w'. acceptor_handleRead ntop6 e mem K ncb w = Inr w' \<and> acceptor_inv interest fds w' \<and> backlog (kern w') = as"
proof (cases "card (fds (kern w)) < limit")
  case True
  from handleRead_room [OF K v6 inv bl True] obtain k fd where
    k: "fd \<notin> fds (kern w)" "fds k = insert fd (fds (kern w))" "backlog k = as" "interest k = interest (kern w)" "interest k fd = None"
      "acceptor_handleRead ntop6 e mem K ncb w =
        (case ncb of Some cb \<Rightarrow> cb fd (padded a) (w\<lparr>kern := k\<rparr>) | None \<Rightarrow> Inr (w\<lparr>kern := k_close K fd k\<rparr>))" by blast
  have "acceptor_inv interest fds (w\<lparr>kern := k\<rparr>)" by (rule acceptor_inv_kern [OF inv]) (use k(2,4) in auto)
  moreover have "acceptor_inv interest fds (w\<lparr>kern := k_close K fd k\<rparr>)"
    by (rule acceptor_inv_kern [OF inv]) (use k(1,2,4,5) fd_contractD(6,8) [OF K] in auto)
  ultimately show ?thesis using k(3,6) cb fd_contractD(7) [OF K] by (cases ncb) (fastforce simp: accept_cb_ok_def)+
next
  case False
  from handleRead_full [OF K inv bl False] obtain k where
    k: "fds k = fds (kern w)" "backlog k = a # as" "interest k = interest (kern w)"
      "acceptor_handleRead ntop6 e mem K ncb w = Inr (take_and_drop K (w\<lparr>kern := k\<rparr>))" by blast
  have "acceptor_inv interest fds (w\<lparr>kern := k\<rparr>)" by (rule acceptor_inv_kern [OF inv]) (use k in auto)
  from take_and_drop_inv [OF K this] show ?thesis using k(2,4) by simp
qed

section \<open>Properties of the acceptor\<close>

text \<open>A concrete kernel with three descriptors: the interest list, the open descriptors and the backlog.\<close>

type_synonym small_kernel = "(int \<times> epoll_event) list \<times> int list \<times> byte list list"

definition small_list :: "small_kernel \<Rightarrow> int list" where
  "small_list k = take 3 (remdups (filter (\<lambda>fd. 0 \<le> fd) (fst (snd k))))"

definition small_interest :: "small_kernel \<Rightarrow> int \<Rightarrow> epoll_event option" where
  "small_interest k = map_of (fst k)"

definition small_fds :: "small_kernel \<Rightarrow> int set" where
  "small_fds k = set (small_list k)"

definition small_backlog :: "small_kernel \<Rightarrow> byte list list" where
  "small_backlog k = snd (snd k)"

definition small_fresh :: "small_kernel \<Rightarrow> int" where
  "small_fresh k = 1 + sum_list (map abs (small_list k @ map fst (fst k)))"

definition small_ctl :: "small_kernel epoll_ctl" where
  "small_ctl k op fd e =
     (case op of
        EPOLL_CTL_ADD \<Rightarrow> if small_interest k fd = None then (((fd, e) # fst k, snd k), True) else (k, False)
      | EPOLL_CTL_MOD \<Rightarrow> if small_interest k fd \<noteq> None then (((fd, e) # fst k, snd k), True) else (k, False)
      | EPOLL_CTL_DEL \<Rightarrow> if small_interest k fd \<noteq> None then ((filter (\<lambda>x. fst x \<noteq> fd) (fst k), snd k), True) else (k, False))"

definition small_K :: "small_kernel fd_kernel" where
  "small_K = \<lparr>k_accept = (\<lambda>k. case small_backlog k of
        [] \<Rightarrow> (k, AcceptFailed EAGAIN)
      | a # as \<Rightarrow> if length (small_list k) < 3 then ((fst k, small_fresh k # small_list k, as), Accepted (small_fresh k) a)
                 else (k, AcceptFailed EMFILE)),
     k_open = (\<lambda>k. if length (small_list k) < 3 then ((fst k, small_fresh k # small_list k, small_backlog k), small_fresh k)
                   else (k, -1)),
     k_close = (\<lambda>fd k. (fst k, removeAll fd (small_list k), small_backlog k))\<rparr>"

lemma filter_keys: "map_of (filter (\<lambda>x. fst x \<noteq> fd) xs) = (map_of xs)(fd := None)"
  by (induction xs) auto

lemma small_ctl_contract: "epoll_contract small_ctl small_interest"
  unfolding epoll_contract_def by (auto simp: small_ctl_def small_interest_def filter_keys)

lemma small_list_props: "distinct (small_list k)" "length (small_list k) \<le> 3" "fd \<in> set (small_list k) \<Longrightarrow> 0 \<le> fd"
  by (auto simp: small_list_def dest: in_set_takeD)

lemma small_list_id: "distinct l \<Longrightarrow> length l \<le> 3 \<Longrightarrow> \<forall>fd \<in> set l. 0 \<le> fd \<Longrightarrow> small_list (i, l, b) = l"
  by (simp add: small_list_def distinct_remdups_id)

lemma abs_le_sum_list: "x \<in> set xs \<Longrightarrow> x \<le> sum_list (map abs xs)" for x :: int
proof (induction xs)
  case (Cons y xs)
  have "0 \<le> sum_list (map abs xs)" by (rule sum_list_nonneg) auto
  then show ?case using Cons by (cases "x = y") auto
qed simp

lemma small_fresh_props: "0 \<le> small_fresh k" "small_fresh k \<notin> set (small_list k)" "small_interest k (small_fresh k) = None"
proof -
  let ?l = "small_list k @ map fst (fst k)"
  have "0 \<le> sum_list (map abs ?l)" by (rule sum_list_nonneg) auto
  then show "0 \<le> small_fresh k" by (simp add: small_fresh_def)
  have no: "small_fresh k \<notin> set ?l" using abs_le_sum_list [of "small_fresh k" ?l] by (auto simp: small_fresh_def)
  then show "small_fresh k \<notin> set (small_list k)" by simp
  show "small_interest k (small_fresh k) = None" using no by (simp add: small_interest_def map_of_eq_None_iff)
qed

lemma small_card: "card (small_fds k) = length (small_list k)"
  by (simp add: small_fds_def distinct_card small_list_props(1))

lemma small_list_new:
  "length (small_list k) < 3 \<Longrightarrow> small_list (i, small_fresh k # small_list k, b) = small_fresh k # small_list k"
  by (rule small_list_id) (use small_list_props(1,2) [of k] small_list_props(3) [of _ k] small_fresh_props [of k] in auto)

lemma small_accept: "accept_contract small_K small_interest small_fds small_backlog 3 k"
  unfolding accept_contract_def small_card
  by (auto simp: small_K_def small_fds_def small_list_new small_fresh_props small_interest_def [of "(_, _)"] split: list.splits)
    (simp_all add: small_interest_def small_backlog_def small_fresh_props [unfolded small_interest_def])

lemma small_open: "open_contract small_K small_interest small_fds small_backlog 3 k"
  unfolding open_contract_def small_card
  by (auto simp: small_K_def small_fds_def small_list_new small_fresh_props)
    (simp_all add: small_interest_def small_backlog_def)

lemma small_close:
  "small_fds (k_close small_K fd k) = small_fds k - {fd}" "small_backlog (k_close small_K fd k) = small_backlog k"
  "small_interest (k_close small_K fd k) = small_interest k"
proof -
  have "small_list (k_close small_K fd k) = removeAll fd (small_list k)"
    unfolding small_K_def fd_kernel.simps
    by (rule small_list_id) (use small_list_props(1,2) [of k] small_list_props(3) [of _ k] in \<open>auto simp: distinct_removeAll intro: le_trans [OF length_removeAll_less_eq]\<close>)
  then show "small_fds (k_close small_K fd k) = small_fds k - {fd}" by (simp add: small_fds_def)
qed (simp_all add: small_K_def small_backlog_def small_interest_def)

lemma small_contract: "fd_contract small_K small_interest small_fds small_backlog 3"
proof -
  have "finite (small_fds k)" "card (small_fds k) \<le> 3" "\<forall>fd \<in> small_fds k. 0 \<le> fd" for k
    using small_list_props by (simp_all only: small_card) (auto simp: small_fds_def)
  then show ?thesis unfolding fd_contract_def using small_accept small_open small_close by simp
qed

definition small_acceptor :: "int list \<Rightarrow> byte list list \<Rightarrow> small_kernel acceptor" where
  "small_acceptor l b = reactor.extend (EPollPoller ([], l, b))
     (acceptor.fields 5 1 False 6 \<lparr>so_closed = [], so_shut = [], so_opts = (\<lambda>_. Map.empty)\<rparr>)"

lemma small_acceptor_sel:
  "kern (small_acceptor l b) = ([], l, b)" "a_idleFd (small_acceptor l b) = 6"
  by (simp_all add: small_acceptor_def EPollPoller_def reactor.defs acceptor.defs)

lemma small_acceptor_inv: "6 \<in> set (small_list ([], l, b)) \<Longrightarrow> acceptor_inv small_interest small_fds (small_acceptor l b)"
  by (simp add: acceptor_inv_def small_acceptor_def EPollPoller_def reactor.defs acceptor.defs reactor_inv_def watched_def
      small_interest_def small_fds_def fun_eq_iff)

text \<open>A readable listening socket gives its first waiting connection to the callback, with a descriptor of its own and the
  address of the peer, as long as the process has a descriptor left.  When it has none, the connection is taken with the
  idle descriptor and closed: no callback runs, no other descriptor changes, and there is an idle one again.\<close>

theorem acceptor_accept_or_drop:
  assumes "fd_contract K interest fds backlog limit" "inet6_text ntop6 pton6" "acceptor_inv interest fds w"
    "backlog (kern w) = a # as"
  shows "if card (fds (kern w)) < limit
    then \<exists>k fd. fd \<notin> fds (kern w) \<and> fds k = insert fd (fds (kern w)) \<and> backlog k = as \<and>
      acceptor_handleRead ntop6 e mem K (Some cb) w = cb fd (padded a) (w\<lparr>kern := k\<rparr>)
    else \<exists>k idle. acceptor_handleRead ntop6 e mem K (Some cb) w = Inr (w\<lparr>kern := k, a_idleFd := idle\<rparr>) \<and> backlog k = as \<and>
      idle \<in> fds k \<and> fds k - {idle} = fds (kern w) - {a_idleFd w}"
proof (cases "card (fds (kern w)) < limit")
  case True
  then show ?thesis using handleRead_room [OF assms True, of e mem "Some cb"] by auto
next
  case False
  from handleRead_full [OF assms(1,3,4) False, of ntop6 e mem "Some cb"] obtain k where
    k: "fds k = fds (kern w)" "backlog k = a # as" "interest k = interest (kern w)"
      "acceptor_handleRead ntop6 e mem K (Some cb) w = Inr (take_and_drop K (w\<lparr>kern := k\<rparr>))" by blast
  have "acceptor_inv interest fds (w\<lparr>kern := k\<rparr>)" by (rule acceptor_inv_kern [OF assms(3)]) (use k in auto)
  from take_and_drop_spec [OF assms(1) this] show ?thesis using False k by auto
qed

theorem acceptor_accept_or_drop_witness:
  "\<exists>k idle. acceptor_handleRead full_ntop6 LittleEndian (replicate 28 (CHR 0x00)) small_K (Some (\<lambda>fd peer. Inr))
      (small_acceptor [5, 6, 7] [''ab'']) = Inr ((small_acceptor [5, 6, 7] [''ab''])\<lparr>kern := k, a_idleFd := idle\<rparr>) \<and>
    small_backlog k = [] \<and> small_fds k - {idle} = {5, 6, 7} - {6}"
proof -
  have l: "small_list ([], [5, 6, 7], b) = [5, 6, 7]" for b by (simp add: small_list_def)
  have f: "small_fds ([], [5, 6, 7], [''ab'']) = {5, 6, 7}" "small_backlog ([], [5, 6, 7], [''ab'']) = [''ab'']"
    by (simp_all add: small_fds_def l small_backlog_def)
  from acceptor_accept_or_drop [OF small_contract inet6_text_full small_acceptor_inv [of "[5, 6, 7]" "[''ab'']"],
      of "''ab''" "[]" LittleEndian "replicate 28 (CHR 0x00)" "\<lambda>fd peer. Inr", unfolded small_acceptor_sel f l]
  obtain k idle where k: "acceptor_handleRead full_ntop6 LittleEndian (replicate 28 (CHR 0x00)) small_K (Some (\<lambda>fd peer. Inr))
      (small_acceptor [5, 6, 7] [''ab'']) = Inr ((small_acceptor [5, 6, 7] [''ab''])\<lparr>kern := k, a_idleFd := idle\<rparr>)"
    "small_backlog k = []" "small_fds k - {idle} = {5, 6, 7} - {6}" by auto
  show ?thesis by (rule exI [of _ k], rule exI [of _ idle], intro conjI) (fact k)+
qed

text \<open>C16. The listening socket does not stay readable for ever: with or without free descriptors, as many read events as
  there are waiting connections empty the backlog, and the acceptor is ready for more.\<close>

theorem acceptor_drains:
  assumes "fd_contract K interest fds backlog limit" "inet6_text ntop6 pton6" "acceptor_inv interest fds w"
    "accept_cb_ok (acceptor_inv interest fds) backlog ncb"
  shows "\<exists>w'. foldR (\<lambda>_. acceptor_handleRead ntop6 e mem K ncb) (backlog (kern w)) w = Inr w' \<and>
    backlog (kern w') = [] \<and> acceptor_inv interest fds w'"
  using assms(3)
proof (induction "backlog (kern w)" arbitrary: w)
  case Nil
  then show ?case by simp
next
  case (Cons a as)
  then obtain w1 where w1: "acceptor_handleRead ntop6 e mem K ncb w = Inr w1" "acceptor_inv interest fds w1" "backlog (kern w1) = as"
    using handleRead_takes_one [OF assms(1,2) Cons.prems assms(4) Cons.hyps(2) [symmetric]] by blast
  then show ?case using Cons.hyps(1) [of w1] unfolding Cons.hyps(2) [symmetric] by simp
qed

theorem acceptor_drains_witness:
  "\<exists>w'. foldR (\<lambda>_. acceptor_handleRead full_ntop6 LittleEndian (replicate 28 (CHR 0x00)) small_K None) [''ab'', ''cd'']
      (small_acceptor [5, 6] [''ab'', ''cd'']) = Inr w' \<and> small_backlog (kern w') = []"
proof -
  have l: "small_list ([], [5, 6], b) = [5, 6]" for b by (simp add: small_list_def)
  show ?thesis
    using acceptor_drains [OF small_contract inet6_text_full small_acceptor_inv [of "[5, 6]" "[''ab'', ''cd'']"], of None LittleEndian "replicate 28 (CHR 0x00)"]
    by (auto simp: l small_acceptor_sel accept_cb_ok_def small_backlog_def)
qed

text \<open>\<^verbatim>\<open>disableAll\<close> and \<^verbatim>\<open>remove\<close> one after the other, outside of event handling, take any channel off the poller.\<close>

lemma disable_remove_ok:
  assumes K: "epoll_contract ctl interest" and inv: "reactor_inv interest w" and c: "heap w p = Some c" "\<not> ch_eventHandling c"
    and free: "ch_index c = kNew \<Longrightarrow> channels w (ch_fd c) = None" and quiet: "\<not> eventHandling w"
  shows "\<exists>k1 k2 d. disableAll ctl p w = Inr (updated p (all_off c) k1 w) \<and>
    chan_remove ctl p (updated p (all_off c) k1 w) = Inr (removed p d k2 (updated p (all_off c) k1 w)) \<and>
    reactor_inv interest (removed p d k2 (updated p (all_off c) k1 w)) \<and> \<not> ch_eventHandling d \<and> ch_fd d = ch_fd c"
proof -
  from switch_ok [OF K inv c(1) free switches(5)] obtain k1 where
    k1: "disableAll ctl p w = Inr (updated p (all_off c) k1 w)" "reactor_inv interest (updated p (all_off c) k1 w)"
    by (auto simp: disableAll_def)
  let ?w1 = "updated p (all_off c) k1 w" and ?c1 = "(all_off c)\<lparr>ch_addedToLoop := True, ch_index := next_index (all_off c)\<rparr>"
  have c1: "heap ?w1 p = Some ?c1" "ch_index ?c1 \<noteq> kNew" "isNoneEvent ?c1" "\<not> ch_eventHandling ?c1" "ch_fd ?c1 = ch_fd c"
    using c(2) by (simp_all add: updated_def next_index_def index_defs isNoneEvent_def all_off_def)
  have "\<not> eventHandling ?w1" using quiet by (simp add: updated_def)
  with chan_remove_ok [OF K k1(2) c1(1-3)] obtain k2 where
    "chan_remove ctl p ?w1 = Inr (removed p ?c1 k2 ?w1)" "reactor_inv interest (removed p ?c1 k2 ?w1)" by blast
  then show ?thesis using k1(1) c1(4,5) by (intro exI [of _ k1] exI [of _ k2] exI [of _ ?c1]) simp
qed

lemma Acceptor_dtor_ok:
  assumes E: "epoll_contract ctl interest" and K: "fd_contract K interest fds backlog limit" and inv: "reactor_inv interest w"
    and c: "heap w (a_acceptChannel w) = Some c" "\<not> ch_eventHandling c" "ch_fd c = a_acceptSocket w"
      "ch_index c = kNew \<Longrightarrow> channels w (ch_fd c) = None"
    and quiet: "\<not> eventHandling w" and idle: "channels w (a_idleFd w) = None" "a_idleFd w \<noteq> a_acceptSocket w"
  shows "\<exists>d. Acceptor_dtor ctl K w = Inr d \<and> reactor_inv interest d \<and> heap d = (heap w)(a_acceptChannel w := None) \<and>
    channels d = (channels w)(a_acceptSocket w := None) \<and> a_idleFd w \<notin> fds (kern d) \<and> a_acceptSocket w \<notin> fds (kern d)"
proof -
  let ?p = "a_acceptChannel w" let ?i = "a_idleFd w" let ?s = "a_acceptSocket w"
  from disable_remove_ok [OF E inv c(1,2,4) quiet] obtain k1 k2 d where
    r: "disableAll ctl ?p w = Inr (updated ?p (all_off c) k1 w)"
      "chan_remove ctl ?p (updated ?p (all_off c) k1 w) = Inr (removed ?p d k2 (updated ?p (all_off c) k1 w))"
      "reactor_inv interest (removed ?p d k2 (updated ?p (all_off c) k1 w))" "\<not> ch_eventHandling d" "ch_fd d = ?s"
    using c(3) by auto
  let ?w2 = "removed ?p d k2 (updated ?p (all_off c) k1 w)"
  have w2: "a_acceptChannel ?w2 = ?p" "a_idleFd ?w2 = ?i" "a_acceptSocket ?w2 = ?s" "kern ?w2 = k2"
    "channels ?w2 = (channels w)(?s := None)" "heap ?w2 = (heap w)(?p \<mapsto> d\<lparr>ch_addedToLoop := False, ch_index := kNew\<rparr>)"
    using r(5) c(3) by (auto simp: removed_def updated_def all_off_def fun_eq_iff)
  have un: "interest k2 ?i = None" "interest k2 ?s = None"
    using reactor_invD(4) [OF r(3)] w2(4,5) idle by (simp_all add: watched_def)
  let ?k3 = "k_close K ?i k2" let ?w3 = "?w2\<lparr>kern := ?k3\<rparr>"
  have k3: "interest ?k3 = interest k2" using fd_contractD(8) [OF K] un(1) by blast
  have w3: "reactor_inv interest ?w3" using acc_reactor_inv_kern [OF r(3)] k3 w2(4) by simp
  have "heap ?w3 ?p = Some (d\<lparr>ch_addedToLoop := False, ch_index := kNew\<rparr>)" using w2(6) by simp
  from Channel_dtor_ok [OF w3 this] r(4) have w4: "Channel_dtor ?p ?w3 = Inr (?w3\<lparr>heap := (heap ?w3)(?p := None)\<rparr>)"
    "reactor_inv interest (?w3\<lparr>heap := (heap ?w3)(?p := None)\<rparr>)" by simp_all
  let ?w4 = "?w3\<lparr>heap := (heap ?w3)(?p := None)\<rparr>" let ?k5 = "k_close K ?s ?k3"
  have "interest ?k5 = interest ?k3" using fd_contractD(8) [OF K] un(2) k3 by simp
  then have "reactor_inv interest (?w4\<lparr>kern := ?k5\<rparr>)" using acc_reactor_inv_kern [OF w4(2)] by simp
  moreover have "Acceptor_dtor ctl K w = Inr (?w4\<lparr>kern := ?k5\<rparr>)"
    using r(1,2) w2 w4(1) by (simp add: Acceptor_dtor_def Let_def)
  moreover have "?i \<notin> fds ?k5" "?s \<notin> fds ?k5" using fd_contractD(6) [OF K] by auto
  ultimately show ?thesis using w2(5,6) by (intro exI [of _ "?w4\<lparr>kern := ?k5\<rparr>"]) simp
qed

text \<open>An acceptor can be built, can listen and can be destroyed at any time outside of event handling, whether it listened
  or not: no assert fails, while it listens the poller watches its socket for reading, and afterwards the poller is as it
  was before and the two descriptors of the acceptor are closed.\<close>

theorem acceptor_lifecycle:
  assumes "epoll_contract ctl interest" "fd_contract K interest fds backlog limit" "reactor_inv interest w" "heap w p = None"
    "0 \<le> sockfd" "0 \<le> idleFd" "sockfd \<noteq> idleFd" "channels w sockfd = None" "channels w idleFd = None" "\<not> eventHandling w"
    "0 \<le> bound" "0 \<le> ret"
  shows "\<exists>a b. Acceptor p sockfd idleFd ra rp bound reuse socks w = Inr a \<and> acceptor_listen ctl ret a = Inr b \<and>
    interest (kern b) sockfd = Some (kReadEvent, p) \<and>
    (\<forall>x \<in> {a, b}. \<exists>d. Acceptor_dtor ctl K x = Inr d \<and> reactor_inv interest d \<and> heap d = heap w \<and> channels d = channels w \<and>
       sockfd \<notin> fds (kern d) \<and> idleFd \<notin> fds (kern d))"
proof -
  let ?w1 = "set_chan p (Channel sockfd) w"
  let ?socks = "setReusePort rp reuse sockfd (setReuseAddr ra True sockfd socks)"
  let ?a = "reactor.extend ?w1 (acceptor.fields sockfd p False idleFd ?socks)"
  have a: "Acceptor p sockfd idleFd ra rp bound reuse socks w = Inr ?a"
    using assms(5,6,11) by (simp add: Acceptor_def createNonblockingOrDie_def orDie_def new_channel_def bindAddress_def bindOrDie_def Let_def)
  have sel: "heap ?a = heap ?w1" "channels ?a = channels ?w1" "kern ?a = kern ?w1" "inLoopThread ?a = inLoopThread ?w1"
    "eventHandling ?a = eventHandling w" "a_acceptChannel ?a = p" "a_idleFd ?a = idleFd" "a_acceptSocket ?a = sockfd"
    by (simp_all add: reactor.defs acceptor.defs set_chan_def)
  have r1: "reactor_inv interest ?w1" by (rule new_channel_inv [OF assms(3,4)])
  have ra: "reactor_inv interest ?a"
    using r1 unfolding reactor_inv_def watched_def chan_inv_def fun_eq_iff sel by (simp cong: option.case_cong)
  have ca: "heap ?a p = Some (Channel sockfd)" "channels ?a sockfd = None" "channels ?a idleFd = None"
    using assms(8,9) sel by simp_all
  let ?l = "?a\<lparr>a_listenning := True\<rparr>"
  have rl: "reactor_inv interest ?l" using ra by (subst reactor_inv_cong [of _ ?a]) simp_all
  have "heap ?l p = Some (Channel sockfd)" "channels ?l (ch_fd (Channel sockfd)) = None" using ca by (simp_all add: Channel_def)
  from switch_ok [OF assms(1) rl this(1) this(2) switches(1)] obtain k where
    k: "enableReading ctl p ?l = Inr (updated p (reading_on (Channel sockfd)) k ?l)"
      "reactor_inv interest (updated p (reading_on (Channel sockfd)) k ?l)" by (auto simp: enableReading_def)
  let ?c = "reading_on (Channel sockfd)" let ?b = "updated p ?c k ?l"
  have c: "ch_fd ?c = sockfd" "ch_index ?c = kNew" "\<not> ch_eventHandling ?c" "ch_events ?c = kReadEvent"
    by (simp_all add: reading_on_def Channel_def kNew_def)
  have b: "acceptor_listen ctl ret ?a = Inr ?b"
    using k(1) assms(12) reactor_invD(1) [OF ra] sel(6)
    by (simp add: acceptor_listen_def assertInLoopThread_def Let_def Socket_listen_def listenOrDie_def orDie_def)
  have bs: "heap ?b p = Some (?c\<lparr>ch_addedToLoop := True, ch_index := kAdded\<rparr>)" "channels ?b = (channels w)(sockfd \<mapsto> p)"
    "a_acceptChannel ?b = p" "a_idleFd ?b = idleFd" "a_acceptSocket ?b = sockfd" "\<not> eventHandling ?b" "kern ?b = k"
    "heap ?b = (heap w)(p \<mapsto> ?c\<lparr>ch_addedToLoop := True, ch_index := kAdded\<rparr>)"
    using c assms(10) sel by (simp_all add: updated_def next_index_def index_defs)
  have "interest (kern ?b) sockfd = Some (kReadEvent, p)"
    using reactor_invD(4) [OF k(2)] bs c by (simp add: watched_def)
  moreover have "\<exists>d. Acceptor_dtor ctl K ?a = Inr d \<and> reactor_inv interest d \<and> heap d = heap w \<and> channels d = channels w \<and>
      sockfd \<notin> fds (kern d) \<and> idleFd \<notin> fds (kern d)"
    using Acceptor_dtor_ok [OF assms(1,2) ra] ca assms(4,7,8,10) sel by (fastforce simp: Channel_def fun_eq_iff)
  moreover have "\<exists>d. Acceptor_dtor ctl K ?b = Inr d \<and> reactor_inv interest d \<and> heap d = heap w \<and> channels d = channels w \<and>
      sockfd \<notin> fds (kern d) \<and> idleFd \<notin> fds (kern d)"
    using Acceptor_dtor_ok [OF assms(1,2) k(2)] bs c assms(4,7,8,9,10) by (fastforce simp: index_defs fun_eq_iff)
  ultimately show ?thesis using a b by (intro exI [of _ ?a] exI [of _ ?b]) simp
qed

theorem acceptor_lifecycle_witness:
  "\<exists>a b. Acceptor 1 5 6 0 0 0 True \<lparr>so_closed = [], so_shut = [], so_opts = (\<lambda>_. Map.empty)\<rparr> (EPollPoller ([], [5, 6], [])) = Inr a \<and>
    acceptor_listen small_ctl 0 a = Inr b \<and> small_interest (kern b) 5 = Some (kReadEvent, 1)"
  using acceptor_lifecycle [OF small_ctl_contract small_contract EPollPoller_inv [of small_interest "([], [5, 6], [])"],
      of 1 5 6 0 0 0 0 True "\<lparr>so_closed = [], so_shut = [], so_opts = (\<lambda>_. Map.empty)\<rparr>"]
  by (fastforce simp: EPollPoller_def small_interest_def)

end
