(* ===== verification/Lute_AcceptServer.thy ===== *)
theory Lute_AcceptServer
  imports Lute_Acceptor Lute_TCPServer
begin

text \<open>
  The acceptor and the server together: \<^verbatim>\<open>TCPServer::newConnection\<close> is the callback of the acceptor (\<^verbatim>\<open>polaris/src/TCPServer.cc\<close>,
  \<^verbatim>\<open>polaris/src/Acceptor.cc\<close>).  From the clients that wait at the listening socket to the map of the server.
\<close>

text \<open>The socket and the address of the peer that a connection object was made with.\<close>

record 'k accept_server = "'k acceptor" +
  as_server :: server
  as_sock :: "addr \<rightharpoonup> int"
  as_peer :: "addr \<rightharpoonup> inetAddress"

text \<open>The callback; \<open>alloc\<close> is the address that \<^verbatim>\<open>new TCPConnection\<close> returns.\<close>

definition server_newConnection ::
  "(server \<Rightarrow> addr) \<Rightarrow> int \<Rightarrow> inetAddress \<Rightarrow> ('k, 'z) accept_server_scheme \<Rightarrow> ('k, 'z) accept_server_scheme result" where
  "server_newConnection alloc sockfd peerAddr w =
     (let p = alloc (as_server w)
      in bindR (newConnection p (as_server w)) (\<lambda>s.
           Inr (w\<lparr>as_server := s, as_sock := (as_sock w)(p \<mapsto> sockfd), as_peer := (as_peer w)(p \<mapsto> peerAddr)\<rparr>)))"

definition server_handleRead ::
  "(byte list \<Rightarrow> string) \<Rightarrow> endian \<Rightarrow> byte list \<Rightarrow> 'k fd_kernel \<Rightarrow> (server \<Rightarrow> addr) \<Rightarrow>
   ('k, 'z) accept_server_scheme \<Rightarrow> ('k, 'z) accept_server_scheme result" where
  "server_handleRead ntop6 e mem K alloc = acceptor_handleRead ntop6 e mem K (Some (server_newConnection alloc))"

section \<open>One client\<close>

lemma newConnection_step:
  assumes "server_inv s" "s_objs s p = None" "s_nextConnId s < 2 ^ 31"
  shows "\<exists>t c. newConnection p s = Inr t \<and> server_inv t \<and> s_objs t = (s_objs s)(p \<mapsto> c) \<and> sc_state c \<noteq> kDisconnected \<and>
    s_nextConnId t = s_nextConnId s + 1"
proof -
  obtain t where t: "newConnection p s = Inr t" "server_inv t" using newConnection_ok [OF assms] by blast
  have "\<exists>c. s_objs t = (s_objs s)(p \<mapsto> c) \<and> sc_state c \<noteq> kDisconnected" "s_nextConnId t = s_nextConnId s + 1"
    using t(1)
    by (auto simp: newConnection_def do_establish_def conn_deref_def set_conn_def queue_to_def Let_def result_simps split: if_splits)
  then show ?thesis using t by blast
qed

lemma acceptor_inv_server:
  "acceptor_inv interest fds w \<Longrightarrow> acceptor_inv interest fds (w\<lparr>as_server := s, as_sock := f, as_peer := g\<rparr>)"
  unfolding acceptor_inv_def by (subst reactor_inv_cong [of _ w]) simp_all

text \<open>What holds between events: the two invariants.\<close>

definition serving_inv ::
  "('k \<Rightarrow> int \<Rightarrow> epoll_event option) \<Rightarrow> ('k \<Rightarrow> int set) \<Rightarrow> ('k, 'z) accept_server_scheme \<Rightarrow> bool" where
  "serving_inv interest fds w \<longleftrightarrow> acceptor_inv interest fds w \<and> server_inv (as_server w)"

lemma serve_one:
  assumes K: "fd_contract K interest fds backlog limit" and v6: "inet6_text ntop6 pton6" and inv: "serving_inv interest fds w"
    and alloc: "s_objs (as_server w) (alloc (as_server w)) = None" and bl: "backlog (kern w) = a # as"
    and room: "card (fds (kern w)) < limit" and id: "s_nextConnId (as_server w) < 2 ^ 31"
  shows "\<exists>w' fd p c. server_handleRead ntop6 e mem K alloc w = Inr w' \<and> serving_inv interest fds w' \<and> backlog (kern w') = as \<and>
    fds (kern w') = insert fd (fds (kern w)) \<and> fd \<notin> fds (kern w) \<and> s_objs (as_server w) p = None \<and>
    s_objs (as_server w') = (s_objs (as_server w))(p \<mapsto> c) \<and> sc_state c \<noteq> kDisconnected \<and>
    s_nextConnId (as_server w') = s_nextConnId (as_server w) + 1 \<and>
    as_sock w' = (as_sock w)(p \<mapsto> fd) \<and> as_peer w' = (as_peer w)(p \<mapsto> padded a)"
proof -
  have i: "acceptor_inv interest fds w" "server_inv (as_server w)" using inv by (simp_all add: serving_inv_def)
  obtain k fd where k: "fd \<notin> fds (kern w)" "fds k = insert fd (fds (kern w))" "backlog k = as" "interest k = interest (kern w)"
      "server_handleRead ntop6 e mem K alloc w = server_newConnection alloc fd (padded a) (w\<lparr>kern := k\<rparr>)"
    using handleRead_room [OF K v6 i(1) bl room, of e mem "Some (server_newConnection alloc)"] by (auto simp: server_handleRead_def)
  let ?p = "alloc (as_server w)"
  obtain t c where t: "newConnection ?p (as_server w) = Inr t" "server_inv t" "s_objs t = (s_objs (as_server w))(?p \<mapsto> c)"
      "sc_state c \<noteq> kDisconnected" "s_nextConnId t = s_nextConnId (as_server w) + 1"
    using newConnection_step [OF i(2) alloc id] by blast
  let ?w = "(w\<lparr>kern := k\<rparr>)\<lparr>as_server := t, as_sock := (as_sock w)(?p \<mapsto> fd), as_peer := (as_peer w)(?p \<mapsto> padded a)\<rparr>"
  have "acceptor_inv interest fds (w\<lparr>kern := k\<rparr>)" by (rule acceptor_inv_kern [OF i(1)]) (use k in auto)
  then have "serving_inv interest fds ?w" using t(2) acceptor_inv_server by (simp add: serving_inv_def)
  moreover have "server_handleRead ntop6 e mem K alloc w = Inr ?w" using k(5) t(1) by (simp add: server_newConnection_def Let_def)
  ultimately show ?thesis using k t alloc by (intro exI [of _ ?w] exI [of _ fd] exI [of _ ?p] exI [of _ c]) simp
qed

section \<open>All clients\<close>

text \<open>What \<open>n\<close> clients with the addresses \<open>as\<close> become: objects \<open>ps\<close> with descriptors \<open>ds\<close>, all new.\<close>

definition served ::
  "('k \<Rightarrow> int set) \<Rightarrow> byte list list \<Rightarrow> addr list \<Rightarrow> int list \<Rightarrow> ('k, 'z) accept_server_scheme \<Rightarrow> ('k, 'z) accept_server_scheme \<Rightarrow> bool" where
  "served fds as ps ds w w' \<longleftrightarrow>
     distinct ps \<and> distinct ds \<and> set ds \<inter> fds (kern w) = {} \<and> set ps \<inter> dom (s_objs (as_server w)) = {} \<and>
     map (as_peer w') ps = map (\<lambda>a. Some (padded a)) as \<and> map (as_sock w') ps = map Some ds \<and>
     fds (kern w') = fds (kern w) \<union> set ds \<and>
     (\<forall>p \<in> set ps. \<exists>c. s_objs (as_server w') p = Some c \<and> s_connections (as_server w') (sc_name c) = Some p) \<and>
     (\<forall>q. q \<notin> set ps \<longrightarrow> s_objs (as_server w') q = s_objs (as_server w) q \<and> as_peer w' q = as_peer w q \<and> as_sock w' q = as_sock w q)"

lemma entry_open:
  assumes "server_inv s" "s_objs s p = Some c" "sc_state c \<noteq> kDisconnected"
  shows "s_connections s (sc_name c) = Some p"
  using server_invD(7) [OF assms(1,2)] assms(3) by (auto simp: phase_ok_def split: conn_state.splits)

text \<open>An allocator for the examples: the first free of as many addresses as the server has had connections.\<close>

definition first_free :: "server \<Rightarrow> addr" where
  "first_free s = (case find (\<lambda>p. s_objs s p = None) [0..<Suc (s_nextConnId s)] of Some p \<Rightarrow> p | None \<Rightarrow> 0)"

lemma few_objects:
  assumes "server_inv s" "finite P" "P \<subseteq> dom (s_objs s)"
  shows "card P \<le> s_nextConnId s"
proof -
  have "\<forall>p \<in> P. \<exists>i < s_nextConnId s. \<exists>c. s_objs s p = Some c \<and> sc_name c = name_of_id s i"
    using server_invD(8) [OF assms(1)] assms(3) by fastforce
  then obtain f where f: "\<And>p. p \<in> P \<Longrightarrow> f p < s_nextConnId s \<and> (\<exists>c. s_objs s p = Some c \<and> sc_name c = name_of_id s (f p))" by metis
  have "inj_on f P" using f server_invD(9) [OF assms(1)] by (metis inj_onI)
  moreover have "f ` P \<subseteq> {..<s_nextConnId s}" using f by auto
  ultimately show ?thesis using card_inj_on_le [of f P "{..<s_nextConnId s}"] by simp
qed

lemma first_free_ok:
  assumes "server_inv s"
  shows "s_objs s (first_free s) = None"
proof (cases "find (\<lambda>p. s_objs s p = None) [0..<Suc (s_nextConnId s)]")
  case None
  then have "\<forall>p \<in> set [0..<Suc (s_nextConnId s)]. s_objs s p \<noteq> None" by (auto simp: find_None_iff simp del: upt_Suc)
  then have "{..s_nextConnId s} \<subseteq> dom (s_objs s)" by (auto simp: dom_def less_Suc_eq_le simp del: upt_Suc)
  from few_objects [OF assms _ this] show ?thesis by simp
next
  case (Some p)
  then have "s_objs s p = None" by (auto simp: find_Some_iff simp del: upt_Suc)
  then show ?thesis using Some by (simp add: first_free_def del: upt_Suc)
qed

text \<open>C17. Every client that waits is served: with a free descriptor for each, as many read events of the listening socket as there are waiting
  clients make a connection of each, in order.  Every one has an object of its own with a new descriptor and the address of
  its peer, and is in the map of the server under its name; the connections that were there before are untouched, and nobody waits any more.\<close>

theorem clients_served:
  assumes "fd_contract K interest fds backlog limit" "inet6_text ntop6 pton6" "serving_inv interest fds w"
    "\<And>s. server_inv s \<Longrightarrow> s_objs s (alloc s) = None" "card (fds (kern w)) + length (backlog (kern w)) \<le> limit"
    "s_nextConnId (as_server w) + length (backlog (kern w)) \<le> 2 ^ 31"
  shows "\<exists>w' ps ds. foldR (\<lambda>_. server_handleRead ntop6 e mem K alloc) (backlog (kern w)) w = Inr w' \<and>
    serving_inv interest fds w' \<and> backlog (kern w') = [] \<and> served fds (backlog (kern w)) ps ds w w'"
  using assms(3,5,6)
proof (induction "backlog (kern w)" arbitrary: w)
  case Nil
  have "served fds [] [] [] w w" by (simp add: served_def)
  then show ?case using Nil by (intro exI [of _ w] exI [of _ "[]"]) simp
next
  case (Cons a as)
  note bl = Cons.hyps(2) [symmetric]
  have fin: "finite (fds (kern w))" by (rule fd_contractD(1) [OF assms(1)])
  have s: "server_inv (as_server w)" using Cons.prems(1) by (simp add: serving_inv_def)
  have room: "card (fds (kern w)) < limit" "s_nextConnId (as_server w) < 2 ^ 31" using Cons.prems(2,3) bl by simp_all
  obtain w1 fd p c where w1: "server_handleRead ntop6 e mem K alloc w = Inr w1" "serving_inv interest fds w1" "backlog (kern w1) = as"
      "fds (kern w1) = insert fd (fds (kern w))" "fd \<notin> fds (kern w)" "s_objs (as_server w) p = None"
      "s_objs (as_server w1) = (s_objs (as_server w))(p \<mapsto> c)" "sc_state c \<noteq> kDisconnected"
      "s_nextConnId (as_server w1) = s_nextConnId (as_server w) + 1"
      "as_sock w1 = (as_sock w)(p \<mapsto> fd)" "as_peer w1 = (as_peer w)(p \<mapsto> padded a)"
    using serve_one [where alloc = alloc and e = e and mem = mem, OF assms(1,2) Cons.prems(1) assms(4) [OF s] bl room] by metis
  have "card (fds (kern w1)) + length (backlog (kern w1)) \<le> limit" "s_nextConnId (as_server w1) + length (backlog (kern w1)) \<le> 2 ^ 31"
    using Cons.prems(2,3) bl w1(3-5,9) fin by simp_all
  from Cons.hyps(1) [OF w1(3) [symmetric] w1(2) this] w1(3) obtain w' ps ds where
    w': "foldR (\<lambda>_. server_handleRead ntop6 e mem K alloc) as w1 = Inr w'" "serving_inv interest fds w'" "backlog (kern w') = []"
      "served fds as ps ds w1 w'" by auto
  have sv: "server_inv (as_server w')" using w'(2) by (simp add: serving_inv_def)
  have p: "p \<notin> set ps" using w'(4) w1(7) by (auto simp: served_def)
  then have c: "s_objs (as_server w') p = Some c" "as_peer w' p = Some (padded a)" "as_sock w' p = Some fd"
    using w'(4) w1(7,10,11) by (simp_all add: served_def)
  have "served fds (a # as) (p # ps) (fd # ds) w w'"
    using w'(4) w1(4-7,10,11) p c entry_open [OF sv c(1) w1(8)] by (auto simp: served_def)
  then show ?case using w1(1) w' unfolding bl by (intro exI [of _ w'] exI [of _ "p # ps"] exI [of _ "fd # ds"]) simp
qed

theorem clients_served_witness:
  "\<exists>s w' ps. bindR (server_setThreadNum 0 (TCPServer 1 ''0.0.0.0:80'' ''srv'')) (server_start id True False) = Inr s \<and>
    foldR (\<lambda>_. server_handleRead full_ntop6 LittleEndian (replicate 28 (CHR 0x00)) small_K first_free) [''ab'']
      (acceptor.extend (small_acceptor [5, 6] [''ab'']) (accept_server.fields s Map.empty Map.empty)) = Inr w' \<and>
    length ps = 1 \<and> map (as_peer w') ps = [Some (padded ''ab'')] \<and> small_backlog (kern w') = []"
proof -
  obtain s where s: "bindR (server_setThreadNum 0 (TCPServer 1 ''0.0.0.0:80'' ''srv'')) (server_start id True False) = Inr s" "s_nextConnId s = 1"
    by (simp add: server_setThreadNum_def server_start_def TCPServer_def pool_start_def assertBase_def Let_def
        setThreadNum_def EventLoopThreadPool_def)
  have inv: "server_inv s" by (rule TCPServer_inv [OF _ _ s(1)]) simp_all
  let ?w = "acceptor.extend (small_acceptor [5, 6] [''ab'']) (accept_server.fields s Map.empty Map.empty)"
  have l: "small_list ([], [5, 6], b) = [5, 6]" for b by (simp add: small_list_def)
  have w: "kern ?w = ([], [5, 6], [''ab''])" "as_server ?w = s" "a_idleFd ?w = a_idleFd (small_acceptor [5, 6] [''ab''])"
    by (simp_all add: small_acceptor_def EPollPoller_def reactor.defs acceptor.defs accept_server.defs)
  have "reactor_inv small_interest ?w \<longleftrightarrow> reactor_inv small_interest (small_acceptor [5, 6] [''ab''])"
    by (rule reactor_inv_cong) (simp_all add: acceptor.defs accept_server.defs)
  then have "acceptor_inv small_interest small_fds ?w"
    using small_acceptor_inv [of "[5, 6]" "[''ab'']"] w by (simp add: acceptor_inv_def l small_acceptor_sel)
  then have i: "serving_inv small_interest small_fds ?w" using inv w(2) by (simp add: serving_inv_def)
  have bl: "small_backlog (kern ?w) = [''ab'']" by (simp add: w small_backlog_def)
  have "card (small_fds (kern ?w)) + length (small_backlog (kern ?w)) \<le> 3" by (simp add: w small_card l small_backlog_def)
  moreover have "s_nextConnId (as_server ?w) + length (small_backlog (kern ?w)) \<le> 2 ^ 31" using s(2) bl by (simp add: w(2))
  ultimately obtain w' ps ds where
    f: "foldR (\<lambda>_. server_handleRead full_ntop6 LittleEndian (replicate 28 (CHR 0x00)) small_K first_free) [''ab''] ?w = Inr w'"
      "small_backlog (kern w') = []" "served small_fds [''ab''] ps ds ?w w'"
    using clients_served [OF small_contract inet6_text_full i first_free_ok, of LittleEndian "replicate 28 (CHR 0x00)"] bl by auto
  have m: "map (as_peer w') ps = [Some (padded ''ab'')]" using f(3) by (simp add: served_def)
  then have "length ps = 1" by (metis length_map length_Cons list.size(3) One_nat_def)
  with s(1) f(1,2) m show ?thesis by (intro exI [of _ s] exI [of _ w'] exI [of _ ps] conjI)
qed

end
