(* ===== verification/Lute_SocketBuilds.thy ===== *)
theory Lute_SocketBuilds
  imports Lute_Sockets
begin

text \<open>
  The two builds of \<^verbatim>\<open>polaris/src/Sockets.cc\<close>.  A build for valgrind, or for a system without \<^verbatim>\<open>accept4\<close>, makes a descriptor
  non-blocking and close-on-exec by calls of \<^verbatim>\<open>fcntl\<close> after the descriptor was made; the other build asks for both in the call that
  makes it.  The system calls are parameters; what is asked of them is what their manual pages say of the flags of a descriptor and
  of \<^verbatim>\<open>errno\<close>.
\<close>

unbundle bit_operations_syntax

section \<open>System calls\<close>

definition O_RDWR :: "32 word" where "O_RDWR = 0x2"
definition O_NONBLOCK :: "32 word" where "O_NONBLOCK = 0x800"
definition FD_CLOEXEC :: "32 word" where "FD_CLOEXEC = 0x1"
definition EBADF :: int where "EBADF = 9"

datatype fcntl_cmd = F_GETFL | F_SETFL "32 word" | F_GETFD | F_SETFD "32 word"

text \<open>
  \<open>c_fcntl\<close> gives the answer or the error number.  The boolean argument of the others is whether the type of the socket, or the flags of
  \<^verbatim>\<open>accept4\<close>, have \<^verbatim>\<open>SOCK_NONBLOCK | SOCK_CLOEXEC\<close>.
\<close>

record 'k fd_calls =
  c_fcntl :: "'k \<Rightarrow> int \<Rightarrow> fcntl_cmd \<Rightarrow> 'k \<times> (int + 32 word)"
  c_socket :: "'k \<Rightarrow> bool \<Rightarrow> 'k \<times> int"
  c_accept :: "'k \<Rightarrow> bool \<Rightarrow> 'k \<times> accept_reply"

record 'k sys =
  sys_kern :: 'k
  sys_errno :: int

text \<open>\<open>tab\<close> are the open descriptors with their status flags and their descriptor flags.\<close>

definition fcntl_contract :: "'k fd_calls \<Rightarrow> ('k \<Rightarrow> int \<rightharpoonup> 32 word \<times> 32 word) \<Rightarrow> bool" where
  "fcntl_contract C tab \<longleftrightarrow>
     (\<forall>k fd cmd. tab k fd = None \<longrightarrow> (\<exists>k'. c_fcntl C k fd cmd = (k', Inl EBADF) \<and> tab k' = tab k)) \<and>
     (\<forall>k fd fl fg. tab k fd = Some (fl, fg) \<longrightarrow>
        (\<exists>k'. c_fcntl C k fd F_GETFL = (k', Inr fl) \<and> tab k' = tab k) \<and>
        (\<exists>k'. c_fcntl C k fd (F_SETFL (fl OR O_NONBLOCK)) = (k', Inr 0) \<and> tab k' = (tab k)(fd \<mapsto> (fl OR O_NONBLOCK, fg))) \<and>
        (\<exists>k'. c_fcntl C k fd F_GETFD = (k', Inr fg) \<and> tab k' = tab k) \<and>
        (\<exists>k'. c_fcntl C k fd (F_SETFD (fg OR FD_CLOEXEC)) = (k', Inr 0) \<and> tab k' = (tab k)(fd \<mapsto> (fl, fg OR FD_CLOEXEC))))"

definition new_flags :: "bool \<Rightarrow> 32 word \<times> 32 word" where
  "new_flags b = (if b then (O_RDWR OR O_NONBLOCK, FD_CLOEXEC) else (O_RDWR, 0))"

text \<open>A new descriptor is the lowest one that is free, whatever its flags; whether a call fails does not depend on them either.\<close>

definition fresh_fd :: "(int \<rightharpoonup> 'a) \<Rightarrow> int \<Rightarrow> bool" where
  "fresh_fd t fd \<longleftrightarrow> 0 \<le> fd \<and> t fd = None"

definition socket_contract :: "'k fd_calls \<Rightarrow> ('k \<Rightarrow> int \<rightharpoonup> 32 word \<times> 32 word) \<Rightarrow> bool" where
  "socket_contract C tab \<longleftrightarrow>
     (\<forall>k. tab k (-1) = None) \<and>
     (\<forall>k. (\<exists>fd. fresh_fd (tab k) fd \<and>
            (\<forall>b. \<exists>k'. c_socket C k b = (k', fd) \<and> tab k' = (tab k)(fd \<mapsto> new_flags b))) \<or>
          (\<forall>b. \<exists>k'. c_socket C k b = (k', -1) \<and> tab k' = tab k)) \<and>
     (\<forall>k. (\<exists>fd bs. fresh_fd (tab k) fd \<and>
            (\<forall>b. \<exists>k'. c_accept C k b = (k', Accepted fd bs) \<and> tab k' = (tab k)(fd \<mapsto> new_flags b))) \<or>
          (\<exists>en. \<forall>b. \<exists>k'. c_accept C k b = (k', AcceptFailed en) \<and> tab k' = tab k))"

section \<open>The build with \<^verbatim>\<open>fcntl\<close>\<close>

definition fcntl :: "'k fd_calls \<Rightarrow> int \<Rightarrow> fcntl_cmd \<Rightarrow> 'k sys \<Rightarrow> 32 word \<times> 'k sys" where
  "fcntl C fd cmd s =
     (case c_fcntl C (sys_kern s) fd cmd of
        (k, Inl en) \<Rightarrow> (-1, s\<lparr>sys_kern := k, sys_errno := en\<rparr>)
      | (k, Inr r) \<Rightarrow> (r, s\<lparr>sys_kern := k\<rparr>))"

text \<open>A failure of \<^verbatim>\<open>F_SETFL\<close> or \<^verbatim>\<open>F_SETFD\<close> is only logged.\<close>

definition setNonBlockAndCloseOnExec :: "'k fd_calls \<Rightarrow> int \<Rightarrow> 'k sys \<Rightarrow> 'k sys" where
  "setNonBlockAndCloseOnExec C sockfd s =
     (let (flags, s1) = fcntl C sockfd F_GETFL s;
          (ret, s2) = fcntl C sockfd (F_SETFL (flags OR O_NONBLOCK)) s1;
          (flags', s3) = fcntl C sockfd F_GETFD s2;
          (ret', s4) = fcntl C sockfd (F_SETFD (flags' OR FD_CLOEXEC)) s3
      in s4)"

definition createNonblockingOrDie_fcntl :: "'k fd_calls \<Rightarrow> 'k sys \<Rightarrow> (int \<times> 'k sys) result" where
  "createNonblockingOrDie_fcntl C s =
     (let (k, sockfd) = c_socket C (sys_kern s) False
      in bindR (orDie sockfd) (\<lambda>fd. Inr (fd, setNonBlockAndCloseOnExec C fd (s\<lparr>sys_kern := k\<rparr>))))"

text \<open>\<^verbatim>\<open>connfd\<close> is made non-blocking before it is looked at; the error number is read after that.\<close>

definition accept_fcntl :: "'k fd_calls \<Rightarrow> byte list \<Rightarrow> 'k sys \<Rightarrow> ((int \<times> byte list \<times> int) \<times> 'k sys) result" where
  "accept_fcntl C a s =
     (let (k, reply) = c_accept C (sys_kern s) False
      in case reply of
           Accepted connfd bs \<Rightarrow>
             bindR (sockets_accept reply a) (\<lambda>r. Inr (r, setNonBlockAndCloseOnExec C connfd (s\<lparr>sys_kern := k\<rparr>)))
         | AcceptFailed en \<Rightarrow>
             let s1 = setNonBlockAndCloseOnExec C (-1) (s\<lparr>sys_kern := k, sys_errno := en\<rparr>)
             in bindR (sockets_accept (AcceptFailed (sys_errno s1)) a) (\<lambda>r. Inr (r, s1)))"

section \<open>The build with the flags\<close>

definition create_flags :: "'k fd_calls \<Rightarrow> 'k sys \<Rightarrow> (int \<times> 'k sys) result" where
  "create_flags C s =
     (let (k, sockfd) = c_socket C (sys_kern s) True
      in bindR (createNonblockingOrDie sockfd) (\<lambda>fd. Inr (fd, s\<lparr>sys_kern := k\<rparr>)))"

definition accept_flags :: "'k fd_calls \<Rightarrow> byte list \<Rightarrow> 'k sys \<Rightarrow> ((int \<times> byte list \<times> int) \<times> 'k sys) result" where
  "accept_flags C a s =
     (let (k, reply) = c_accept C (sys_kern s) True
      in bindR (sockets_accept reply a) (\<lambda>r.
           Inr (r, case reply of Accepted connfd bs \<Rightarrow> s\<lparr>sys_kern := k\<rparr> | AcceptFailed en \<Rightarrow> s\<lparr>sys_kern := k, sys_errno := en\<rparr>)))"

section \<open>The builds compared\<close>

text \<open>What a program sees of an outcome: the result, the descriptors with their flags, and the error number.\<close>

definition seen :: "('k \<Rightarrow> int \<rightharpoonup> 32 word \<times> 32 word) \<Rightarrow> ('a \<times> 'k sys) result \<Rightarrow> ('a \<times> (int \<rightharpoonup> 32 word \<times> 32 word) \<times> int) result" where
  "seen tab m = bindR m (\<lambda>(x, s). Inr (x, tab (sys_kern s), sys_errno s))"

lemma fcntl_open:
  assumes "fcntl_contract C tab" "tab (sys_kern s) fd = Some (fl, fg)"
  shows "\<exists>k. fcntl C fd F_GETFL s = (fl, s\<lparr>sys_kern := k\<rparr>) \<and> tab k = tab (sys_kern s)"
    "\<exists>k. fcntl C fd (F_SETFL (fl OR O_NONBLOCK)) s = (0, s\<lparr>sys_kern := k\<rparr>) \<and> tab k = (tab (sys_kern s))(fd \<mapsto> (fl OR O_NONBLOCK, fg))"
    "\<exists>k. fcntl C fd F_GETFD s = (fg, s\<lparr>sys_kern := k\<rparr>) \<and> tab k = tab (sys_kern s)"
    "\<exists>k. fcntl C fd (F_SETFD (fg OR FD_CLOEXEC)) s = (0, s\<lparr>sys_kern := k\<rparr>) \<and> tab k = (tab (sys_kern s))(fd \<mapsto> (fl, fg OR FD_CLOEXEC))"
  using assms unfolding fcntl_contract_def fcntl_def by fastforce+

lemma fcntl_closed:
  assumes "fcntl_contract C tab" "tab (sys_kern s) fd = None"
  shows "\<exists>k. fcntl C fd cmd s = (-1, s\<lparr>sys_kern := k, sys_errno := EBADF\<rparr>) \<and> tab k = tab (sys_kern s)"
proof -
  obtain k where "c_fcntl C (sys_kern s) fd cmd = (k, Inl EBADF)" "tab k = tab (sys_kern s)"
    using assms unfolding fcntl_contract_def by blast
  then show ?thesis by (intro exI [of _ k]) (simp add: fcntl_def)
qed

text \<open>On an open descriptor both flags are set and nothing else changes; on a closed one only \<^verbatim>\<open>errno\<close> does.\<close>

lemma setNonBlock_open:
  assumes C: "fcntl_contract C tab" and fd: "tab (sys_kern s) fd = Some (fl, fg)"
  shows "\<exists>k. setNonBlockAndCloseOnExec C fd s = s\<lparr>sys_kern := k\<rparr> \<and>
    tab k = (tab (sys_kern s))(fd \<mapsto> (fl OR O_NONBLOCK, fg OR FD_CLOEXEC))"
proof -
  obtain k1 where k1: "fcntl C fd F_GETFL s = (fl, s\<lparr>sys_kern := k1\<rparr>)" "tab k1 = tab (sys_kern s)"
    using fcntl_open(1) [OF C fd] by blast
  obtain k2 where k2: "fcntl C fd (F_SETFL (fl OR O_NONBLOCK)) (s\<lparr>sys_kern := k1\<rparr>) = (0, s\<lparr>sys_kern := k2\<rparr>)"
      "tab k2 = (tab (sys_kern s))(fd \<mapsto> (fl OR O_NONBLOCK, fg))"
    using fcntl_open(2) [OF C, of "s\<lparr>sys_kern := k1\<rparr>" fd fl fg] k1(2) fd by auto
  obtain k3 where k3: "fcntl C fd F_GETFD (s\<lparr>sys_kern := k2\<rparr>) = (fg, s\<lparr>sys_kern := k3\<rparr>)" "tab k3 = tab k2"
    using fcntl_open(3) [OF C, of "s\<lparr>sys_kern := k2\<rparr>" fd "fl OR O_NONBLOCK" fg] k2(2) by auto
  obtain k4 where "fcntl C fd (F_SETFD (fg OR FD_CLOEXEC)) (s\<lparr>sys_kern := k3\<rparr>) = (0, s\<lparr>sys_kern := k4\<rparr>)"
      "tab k4 = (tab k2)(fd \<mapsto> (fl OR O_NONBLOCK, fg OR FD_CLOEXEC))"
    using fcntl_open(4) [OF C, of "s\<lparr>sys_kern := k3\<rparr>" fd "fl OR O_NONBLOCK" fg] k3(2) k2(2) by auto
  then show ?thesis using k1(1) k2 k3(1) by (intro exI [of _ k4]) (simp add: setNonBlockAndCloseOnExec_def)
qed

lemma setNonBlock_closed:
  assumes C: "fcntl_contract C tab" and fd: "tab (sys_kern s) fd = None"
  shows "\<exists>k. setNonBlockAndCloseOnExec C fd s = s\<lparr>sys_kern := k, sys_errno := EBADF\<rparr> \<and> tab k = tab (sys_kern s)"
proof -
  have step: "\<exists>k. fcntl C fd cmd (s\<lparr>sys_kern := k0, sys_errno := en\<rparr>) = (-1, s\<lparr>sys_kern := k, sys_errno := EBADF\<rparr>) \<and> tab k = tab k0"
    if "tab k0 = tab (sys_kern s)" for cmd k0 en
    using fcntl_closed [OF C, of "s\<lparr>sys_kern := k0, sys_errno := en\<rparr>" fd cmd] that fd by simp
  obtain k1 where k1: "fcntl C fd F_GETFL s = (-1, s\<lparr>sys_kern := k1, sys_errno := EBADF\<rparr>)" "tab k1 = tab (sys_kern s)"
    using fcntl_closed [OF C fd] by blast
  obtain k2 where k2: "fcntl C fd (F_SETFL (-1 OR O_NONBLOCK)) (s\<lparr>sys_kern := k1, sys_errno := EBADF\<rparr>) =
      (-1, s\<lparr>sys_kern := k2, sys_errno := EBADF\<rparr>)" "tab k2 = tab (sys_kern s)" using step [OF k1(2)] k1(2) by metis
  obtain k3 where k3: "fcntl C fd F_GETFD (s\<lparr>sys_kern := k2, sys_errno := EBADF\<rparr>) =
      (-1, s\<lparr>sys_kern := k3, sys_errno := EBADF\<rparr>)" "tab k3 = tab (sys_kern s)" using step [OF k2(2)] k2(2) by metis
  obtain k4 where "fcntl C fd (F_SETFD (-1 OR FD_CLOEXEC)) (s\<lparr>sys_kern := k3, sys_errno := EBADF\<rparr>) =
      (-1, s\<lparr>sys_kern := k4, sys_errno := EBADF\<rparr>)" "tab k4 = tab (sys_kern s)" using step [OF k3(2)] k3(2) by metis
  then show ?thesis using k1(1) k2(1) k3(1) by (intro exI [of _ k4]) (simp add: setNonBlockAndCloseOnExec_def)
qed

lemma new_flags_fcntl: "(fst (new_flags False) OR O_NONBLOCK, snd (new_flags False) OR FD_CLOEXEC) = new_flags True"
  by (simp add: new_flags_def)

text \<open>A descriptor that was made without the flags and gets them later is a descriptor that was made with them.\<close>

lemma setNonBlock_new:
  assumes C: "fcntl_contract C tab" and k: "tab k = t(fd \<mapsto> new_flags False)"
  shows "\<exists>k'. setNonBlockAndCloseOnExec C fd (s\<lparr>sys_kern := k\<rparr>) = s\<lparr>sys_kern := k'\<rparr> \<and> tab k' = t(fd \<mapsto> new_flags True)"
  using setNonBlock_open [OF C, of "s\<lparr>sys_kern := k\<rparr>" fd "fst (new_flags False)" "snd (new_flags False)"] k new_flags_fcntl by simp

lemma socket_contractD:
  assumes "socket_contract C tab"
  shows "tab k (-1) = None"
    "(\<exists>fd. fresh_fd (tab k) fd \<and> (\<forall>b. \<exists>k'. c_socket C k b = (k', fd) \<and> tab k' = (tab k)(fd \<mapsto> new_flags b))) \<or>
     (\<forall>b. \<exists>k'. c_socket C k b = (k', -1) \<and> tab k' = tab k)"
    "(\<exists>fd bs. fresh_fd (tab k) fd \<and> (\<forall>b. \<exists>k'. c_accept C k b = (k', Accepted fd bs) \<and> tab k' = (tab k)(fd \<mapsto> new_flags b))) \<or>
     (\<exists>en. \<forall>b. \<exists>k'. c_accept C k b = (k', AcceptFailed en) \<and> tab k' = tab k)"
  using assms unfolding socket_contract_def by blast+

text \<open>A kernel for the examples: descriptor number \<open>i\<close> has the flags at place \<open>i\<close> of a list, and connections wait in a second list.\<close>

type_synonym list_kernel = "(32 word \<times> 32 word) list \<times> byte list list"

definition list_tab :: "list_kernel \<Rightarrow> int \<rightharpoonup> 32 word \<times> 32 word" where
  "list_tab k fd = (if 0 \<le> fd \<and> nat fd < length (fst k) then Some (fst k ! nat fd) else None)"

definition list_fcntl :: "list_kernel \<Rightarrow> int \<Rightarrow> fcntl_cmd \<Rightarrow> list_kernel \<times> (int + 32 word)" where
  "list_fcntl k fd cmd =
     (case list_tab k fd of
        None \<Rightarrow> (k, Inl EBADF)
      | Some (fl, fg) \<Rightarrow>
          (case cmd of F_GETFL \<Rightarrow> (k, Inr fl) | F_SETFL v \<Rightarrow> (((fst k)[nat fd := (v, fg)], snd k), Inr 0)
           | F_GETFD \<Rightarrow> (k, Inr fg) | F_SETFD v \<Rightarrow> (((fst k)[nat fd := (fl, v)], snd k), Inr 0)))"

definition list_calls :: "list_kernel fd_calls" where
  "list_calls = \<lparr>c_fcntl = list_fcntl, c_socket = (\<lambda>k b. ((fst k @ [new_flags b], snd k), int (length (fst k)))),
     c_accept = (\<lambda>k b. case snd k of [] \<Rightarrow> (k, AcceptFailed EAGAIN)
       | a # as \<Rightarrow> ((fst k @ [new_flags b], as), Accepted (int (length (fst k))) a))\<rparr>"

lemma list_tab_snoc: "list_tab (xs @ [x], b) = (list_tab (xs, c))(int (length xs) \<mapsto> x)"
  by (auto simp: list_tab_def fun_eq_iff nth_append)

lemma list_tab_update: "list_tab k fd = Some y \<Longrightarrow> list_tab ((fst k)[nat fd := x], b) = (list_tab k)(fd \<mapsto> x)"
  by (auto simp: list_tab_def fun_eq_iff nth_list_update split: if_splits)

lemma list_calls_contract: "fcntl_contract list_calls list_tab" "socket_contract list_calls list_tab"
proof -
  show "fcntl_contract list_calls list_tab"
    by (auto simp: fcntl_contract_def list_calls_def list_fcntl_def list_tab_update)
  have "fresh_fd (list_tab k) (int (length (fst k)))" for k by (simp add: fresh_fd_def list_tab_def)
  moreover have "list_tab k (-1) = None" for k by (simp add: list_tab_def)
  moreover have "list_tab (xs @ [new_flags b], ys) = (list_tab (xs, zs))(int (length xs) \<mapsto> new_flags b)" for xs ys zs b
    by (rule list_tab_snoc)
  ultimately show "socket_contract list_calls list_tab"
    unfolding socket_contract_def by (auto simp: list_calls_def split: list.split)
qed

text \<open>C33. Both builds make the same sockets: \<^verbatim>\<open>createNonblockingOrDie\<close> gives the same descriptor with the same flags, or ends the process, in both;
  and so does \<^verbatim>\<open>accept\<close> whenever a connection is there to be taken.\<close>

theorem socket_builds_agree:
  assumes "fcntl_contract C tab" "socket_contract C tab"
  shows "seen tab (createNonblockingOrDie_fcntl C s) = seen tab (create_flags C s) \<and>
    (\<forall>fd bs. snd (c_accept C (sys_kern s) False) = Accepted fd bs \<longrightarrow> seen tab (accept_fcntl C a s) = seen tab (accept_flags C a s))"
proof (intro conjI allI impI)
  note S = socket_contractD [OF assms(2)]
  let ?t = "tab (sys_kern s)"
  from S(2) [of "sys_kern s"] show "seen tab (createNonblockingOrDie_fcntl C s) = seen tab (create_flags C s)"
  proof
    assume "\<exists>fd. fresh_fd ?t fd \<and> (\<forall>b. \<exists>k'. c_socket C (sys_kern s) b = (k', fd) \<and> tab k' = ?t(fd \<mapsto> new_flags b))"
    then obtain fd k1 k2 where k: "0 \<le> fd" "c_socket C (sys_kern s) False = (k1, fd)" "tab k1 = ?t(fd \<mapsto> new_flags False)"
        "c_socket C (sys_kern s) True = (k2, fd)" "tab k2 = ?t(fd \<mapsto> new_flags True)" unfolding fresh_fd_def by meson
    from setNonBlock_new [OF assms(1) k(3), of s] show ?thesis using k
      by (auto simp: seen_def createNonblockingOrDie_fcntl_def create_flags_def createNonblockingOrDie_def orDie_def)
  next
    assume "\<forall>b. \<exists>k'. c_socket C (sys_kern s) b = (k', -1) \<and> tab k' = ?t"
    then obtain k1 k2 where "c_socket C (sys_kern s) False = (k1, -1)" "c_socket C (sys_kern s) True = (k2, -1)" by meson
    then show ?thesis
      by (simp add: seen_def createNonblockingOrDie_fcntl_def create_flags_def createNonblockingOrDie_def orDie_def)
  qed
next
  fix fd bs
  note S = socket_contractD(3) [OF assms(2), of "sys_kern s"]
  let ?t = "tab (sys_kern s)"
  assume acc: "snd (c_accept C (sys_kern s) False) = Accepted fd bs"
  with S obtain k1 k2 where k: "c_accept C (sys_kern s) False = (k1, Accepted fd bs)" "tab k1 = ?t(fd \<mapsto> new_flags False)"
      "c_accept C (sys_kern s) True = (k2, Accepted fd bs)" "tab k2 = ?t(fd \<mapsto> new_flags True)"
    by (metis accept_reply.distinct(1) accept_reply.inject(1) snd_conv)
  from setNonBlock_new [OF assms(1) k(2), of s] show "seen tab (accept_fcntl C a s) = seen tab (accept_flags C a s)" using k
    by (auto simp: seen_def accept_fcntl_def accept_flags_def sockets_accept_def)
qed

theorem socket_builds_agree_witness:
  "seen list_tab (createNonblockingOrDie_fcntl list_calls \<lparr>sys_kern = ([], []), sys_errno = 0\<rparr>) =
     Inr (0, [0 \<mapsto> (O_RDWR OR O_NONBLOCK, FD_CLOEXEC)], 0)"
  using socket_builds_agree [OF list_calls_contract, of "\<lparr>sys_kern = ([], []), sys_errno = 0\<rparr>" "[]"] list_tab_snoc [of "[]" _ "[]" "[]"]
  by (auto simp: seen_def create_flags_def createNonblockingOrDie_def orDie_def list_calls_def list_tab_def new_flags_def fun_eq_iff)

text \<open>C39. A failed \<^verbatim>\<open>accept\<close> ends the process in the build with \<^verbatim>\<open>fcntl\<close>, whatever the error: the descriptor -1 is made non-blocking before it is
  looked at, which overwrites \<^verbatim>\<open>errno\<close> with \<^verbatim>\<open>EBADF\<close>, one of the unexpected errors.  The other build returns -1 after each of the six
  expected errors, with the error number of the call.\<close>

theorem accept_fcntl_fatal:
  assumes "fcntl_contract C tab" "socket_contract C tab" "snd (c_accept C (sys_kern s) False) = AcceptFailed en"
  shows "accept_fcntl C a s = Inl Fatal \<and>
    (en \<in> {EAGAIN, ECONNABORTED, EINTR, EPROTO, EPERM, EMFILE} \<longrightarrow>
     seen tab (accept_flags C a s) = Inr ((-1, a, en), tab (sys_kern s), en))"
proof -
  obtain k1 k2 where k: "c_accept C (sys_kern s) False = (k1, AcceptFailed en)" "tab k1 = tab (sys_kern s)"
      "c_accept C (sys_kern s) True = (k2, AcceptFailed en)" "tab k2 = tab (sys_kern s)"
    using socket_contractD(3) [OF assms(2), of "sys_kern s"] assms(3)
    by (metis accept_reply.distinct(1) accept_reply.inject(2) snd_conv)
  have "tab k1 (-1) = None" by (rule socket_contractD(1) [OF assms(2)])
  then obtain k' where "setNonBlockAndCloseOnExec C (-1) (s\<lparr>sys_kern := k1, sys_errno := en\<rparr>) = s\<lparr>sys_kern := k', sys_errno := EBADF\<rparr>"
    using setNonBlock_closed [OF assms(1), of "s\<lparr>sys_kern := k1, sys_errno := en\<rparr>" "-1"] by auto
  then have "accept_fcntl C a s = Inl Fatal"
    using k(1) by (simp add: accept_fcntl_def sockets_accept_def EBADF_def accept_errno)
  then show ?thesis using k(3,4) by (auto simp: seen_def accept_flags_def sockets_accept_def)
qed

theorem accept_fcntl_fatal_witness:
  "accept_fcntl list_calls [] \<lparr>sys_kern = ([], []), sys_errno = 0\<rparr> = Inl Fatal \<and>
   seen list_tab (accept_flags list_calls [] \<lparr>sys_kern = ([], []), sys_errno = 0\<rparr>) = Inr ((-1, [], EAGAIN), list_tab ([], []), EAGAIN)"
  using accept_fcntl_fatal [OF list_calls_contract, of "\<lparr>sys_kern = ([], []), sys_errno = 0\<rparr>" EAGAIN "[]"]
  by (simp add: list_calls_def)

end
