(* ===== verification/Lute_Lifetime.thy ===== *)
theory Lute_Lifetime
  imports Lute_TCPConnection
begin

text \<open>
  How long a connection lives: the counted pointers to it, the functors of its loop and the class \<^verbatim>\<open>WeakCallback\<close> of
  \<^verbatim>\<open>polaris/include/polaris/Callbacks.h\<close>.  A functor of \<^verbatim>\<open>polaris/src/TCPConnection.cc\<close> is bound to \<^verbatim>\<open>shared_from_this()\<close>, which
  keeps the connection alive, to a weak pointer, which looks whether it is alive, or to the bare \<^verbatim>\<open>this\<close>.
\<close>

datatype hold = Strong | Weak | Bare

fun task_hold :: "conn_task \<Rightarrow> hold" where
  "task_hold WriteComplete = Strong"
| "task_hold (HighWaterMark n) = Strong"
| "task_hold (SendInLoop m) = Bare"
| "task_hold ShutdownInLoop = Bare"
| "task_hold ForceCloseInLoop = Strong"
| "task_hold ForceCloseLater = Weak"
| "task_hold StartReadInLoop = Bare"
| "task_hold StopReadInLoop = Bare"
| "task_hold ConnectDestroyed = Strong"

text \<open>An object with the number of the counted pointers to it; an object whose count has reached 0 is destroyed.  The functors of the loop
  are kept with the address of the object that they are bound to.\<close>

record 'o cell =
  refs :: nat
  object :: 'o

record ('k, 'z) lives =
  v_objs :: "addr \<rightharpoonup> ('k, 'z) conn cell"
  v_queue :: "(addr \<times> conn_task) list"

definition strong_refs :: "conn_task list \<Rightarrow> nat" where
  "strong_refs ts = length (filter (\<lambda>t. task_hold t = Strong) ts)"

section \<open>Pointers\<close>

definition cell_deref :: "addr \<Rightarrow> ('k, 'z) lives \<Rightarrow> (('k, 'z) conn cell \<Rightarrow> 'r result) \<Rightarrow> 'r result" where
  "cell_deref a s f = (case v_objs s a of None \<Rightarrow> Inl UseAfterFree | Some c \<Rightarrow> f c)"

text \<open>Copying a \<^verbatim>\<open>shared_ptr\<close>, and its destructor.\<close>

definition share :: "addr \<Rightarrow> ('k, 'z) lives \<Rightarrow> ('k, 'z) lives result" where
  "share a s = cell_deref a s (\<lambda>c. Inr (s\<lparr>v_objs := (v_objs s)(a \<mapsto> c\<lparr>refs := refs c + 1\<rparr>)\<rparr>))"

definition release :: "addr \<Rightarrow> ('k, 'z) lives \<Rightarrow> ('k, 'z) lives result" where
  "release a s =
     cell_deref a s (\<lambda>c.
       if 1 < refs c then Inr (s\<lparr>v_objs := (v_objs s)(a \<mapsto> c\<lparr>refs := refs c - 1\<rparr>)\<rparr>)
       else bindR (TCPConnection_dtor (object c)) (\<lambda>_. Inr (s\<lparr>v_objs := (v_objs s)(a := None)\<rparr>)))"

text \<open>A call of a member function: the functors that it queues go to the loop, and those bound to \<^verbatim>\<open>shared_from_this()\<close> are counted.\<close>

definition on_object ::
  "addr \<Rightarrow> (('k, 'z) conn \<Rightarrow> ('k, 'z) conn result) \<Rightarrow> ('k, 'z) lives \<Rightarrow> ('k, 'z) lives result" where
  "on_object a f s =
     cell_deref a s (\<lambda>c. bindR (f (object c)) (\<lambda>w.
       Inr (s\<lparr>v_objs := (v_objs s)(a \<mapsto> \<lparr>refs = refs c + strong_refs (c_tasks w), object = w\<lparr>c_tasks := []\<rparr>\<rparr>),
              v_queue := v_queue s @ map (Pair a) (c_tasks w)\<rparr>)))"

text \<open>A call from another thread than that of the loop.\<close>

definition off_loop :: "(('k, 'z) conn \<Rightarrow> ('k, 'z) conn result) \<Rightarrow> ('k, 'z) conn \<Rightarrow> ('k, 'z) conn result" where
  "off_loop f w = bindR (f (w\<lparr>inLoopThread := False\<rparr>)) (\<lambda>w1. Inr (w1\<lparr>inLoopThread := True\<rparr>))"

section \<open>\<^verbatim>\<open>WeakCallback\<close>\<close>

record ('k, 'z) weakCallback =
  wc_object :: addr
  wc_function :: "addr \<Rightarrow> ('k, 'z) lives \<Rightarrow> ('k, 'z) lives result"

definition makeWeakCallback ::
  "addr \<Rightarrow> (addr \<Rightarrow> ('k, 'z) lives \<Rightarrow> ('k, 'z) lives result) \<Rightarrow> ('k, 'z) weakCallback" where
  "makeWeakCallback a f = \<lparr>wc_object = a, wc_function = f\<rparr>"

text \<open>\<^verbatim>\<open>lock()\<close> is a copy of the pointer if the object is alive and null otherwise; the copy is released at the end of the call.\<close>

definition weak_call :: "('k, 'z) weakCallback \<Rightarrow> ('k, 'z) lives \<Rightarrow> ('k, 'z) lives result" where
  "weak_call cb s =
     (let a = wc_object cb
      in if v_objs s a = None then Inr s
         else bindR (share a s) (\<lambda>s1. bindR (wc_function cb a s1) (release a)))"

section \<open>The functors of the loop\<close>

text \<open>The next functor is called and then destroyed, with the pointer that it holds.  The callback of the timer of a delayed close waits in the
  same list.\<close>

definition run_bound ::
  "'k kernel \<Rightarrow> ('k, 'z) conn conn_callbacks \<Rightarrow> ('k, 'z) lives \<Rightarrow> ('k, 'z) lives result" where
  "run_bound K cbs s =
     (case v_queue s of
        [] \<Rightarrow> Inr s
      | (a, t) # q \<Rightarrow>
          let s1 = s\<lparr>v_queue := q\<rparr>; call = (\<lambda>a. on_object a (run_task K cbs t))
          in case task_hold t of
               Strong \<Rightarrow> bindR (call a s1) (release a)
             | Weak \<Rightarrow> weak_call (makeWeakCallback a call) s1
             | Bare \<Rightarrow> call a s1)"

text \<open>Every functor with a counted pointer is counted, every object has an owner, and its invariant holds.\<close>

definition queued_refs :: "addr \<Rightarrow> (addr \<times> conn_task) list \<Rightarrow> nat" where
  "queued_refs a q = strong_refs (map snd (filter (\<lambda>x. fst x = a) q))"

definition cell_ok :: "('k \<Rightarrow> int \<Rightarrow> epoll_event option) \<Rightarrow> nat \<Rightarrow> ('k, 'z) conn cell option \<Rightarrow> bool" where
  "cell_ok interest n x =
     (case x of
        None \<Rightarrow> n = 0
      | Some c \<Rightarrow> n \<le> refs c \<and> 0 < refs c \<and> conn_inv interest (object c) \<and> c_tasks (object c) = [])"

definition lives_inv :: "('k \<Rightarrow> int \<Rightarrow> epoll_event option) \<Rightarrow> ('k, 'z) lives \<Rightarrow> bool" where
  "lives_inv interest s \<longleftrightarrow> (\<forall>a. cell_ok interest (queued_refs a (v_queue s)) (v_objs s a))"

lemma strong_refs_simps [simp]:
  "strong_refs [] = 0"
  "strong_refs (t # ts) = (if task_hold t = Strong then Suc (strong_refs ts) else strong_refs ts)"
  "strong_refs (ts @ us) = strong_refs ts + strong_refs us"
  by (simp_all add: strong_refs_def)

lemma queued_refs_simps [simp]:
  "queued_refs a [] = 0"
  "queued_refs a ((b, t) # q) = (if b = a \<and> task_hold t = Strong then Suc (queued_refs a q) else queued_refs a q)"
  "queued_refs a (q @ r) = queued_refs a q + queued_refs a r"
  "queued_refs a (map (Pair b) ts) = (if b = a then strong_refs ts else 0)"
proof -
  show "queued_refs a (map (Pair b) ts) = (if b = a then strong_refs ts else 0)"
    by (induction ts) (auto simp: queued_refs_def)
qed (auto simp: queued_refs_def)

lemma cell_ok_simps [simp]:
  "cell_ok interest n None \<longleftrightarrow> n = 0"
  "cell_ok interest n (Some c) \<longleftrightarrow> n \<le> refs c \<and> 0 < refs c \<and> conn_inv interest (object c) \<and> c_tasks (object c) = []"
  by (simp_all add: cell_ok_def)

lemma lives_invD: "lives_inv interest s \<Longrightarrow> cell_ok interest (queued_refs a (v_queue s)) (v_objs s a)"
  by (simp add: lives_inv_def)

text \<open>A change of one object keeps the invariant if it keeps that of the object.\<close>

lemma lives_inv_upd:
  assumes "lives_inv interest s" "\<And>b. b \<noteq> a \<Longrightarrow> queued_refs b (v_queue t) = queued_refs b (v_queue s)"
    "v_objs t = (v_objs s)(a := x)" "cell_ok interest (queued_refs a (v_queue t)) x"
  shows "lives_inv interest t"
  unfolding lives_inv_def
proof
  fix b
  show "cell_ok interest (queued_refs b (v_queue t)) (v_objs t b)"
    using assms by (cases "b = a") (simp_all add: lives_inv_def)
qed

lemma no_tasks_inv: "conn_inv interest w \<Longrightarrow> conn_inv interest (w\<lparr>c_tasks := ts\<rparr>)"
  by (rule conn_inv_same [where w = w]) simp_all

text \<open>A destroyed connection leaves nothing behind: the destructor of a connection that was removed from its loop returns.\<close>

definition channel_idle :: "('k, 'z) conn \<Rightarrow> bool" where
  "channel_idle w \<longleftrightarrow> (case heap w (c_channel w) of None \<Rightarrow> False | Some ch \<Rightarrow> \<not> ch_eventHandling ch)"

lemma thread_tasks_simps [simp]:
  "destroyable (w\<lparr>inLoopThread := b, c_tasks := ts\<rparr>) = destroyable w"
  "channel_idle (w\<lparr>inLoopThread := b, c_tasks := ts\<rparr>) = channel_idle w"
  by (simp_all add: destroyable_def channel_idle_def)

lemma connectDestroyed_dtor:
  assumes "kernel_contract K interest" "conn_inv interest w" "destroyable w" "channel_idle w"
  shows "\<exists>w' w''. connectDestroyed K cbs w = Inr w' \<and> conn_inv interest w' \<and> c_tasks w' = c_tasks w \<and>
    TCPConnection_dtor (w'\<lparr>c_tasks := ts\<rparr>) = Inr w''"
proof -
  obtain k ch where ch: "heap w (c_channel w) = Some ch" and
      r: "connectDestroyed K cbs w = Inr (removed (c_channel w) ch k w)" "reactor_inv interest (removed (c_channel w) ch k w)"
    using connectDestroyed_removes [OF assms(1-3), of cbs] by blast
  let ?w = "removed (c_channel w) ch k w"
  have f: "c_channel ?w = c_channel w" "c_state ?w = c_state w" "c_tasks ?w = c_tasks w"
      "heap ?w (c_channel w) = Some (ch\<lparr>ch_addedToLoop := False, ch_index := kNew\<rparr>)"
    by (simp_all add: removed_def)
  have i: "conn_inv interest ?w" using connectDestroyed_ok [OF assms(1-3), of cbs] r(1) by auto
  have "reactor_inv interest (?w\<lparr>c_tasks := ts\<rparr>)" using conn_invD(1) [OF no_tasks_inv [OF i]] .
  from Channel_dtor_ok [OF this, of "c_channel w"] have "\<exists>v. Channel_dtor (c_channel w) (?w\<lparr>c_tasks := ts\<rparr>) = Inr v"
    using f(4) assms(4) ch by (simp add: channel_idle_def)
  then show ?thesis using r(1) i f assms(3) by (auto simp: TCPConnection_dtor_def destroyable_def)
qed

text \<open>What the caller of the next functor respects: the functor itself is allowed, and the last owner is \<^verbatim>\<open>connectDestroyed\<close>, which runs while
  the channel handles no event.\<close>

definition bound_ok :: "('k, 'z) conn conn_callbacks \<Rightarrow> ('k, 'z) lives \<Rightarrow> bool" where
  "bound_ok cbs s =
     (case v_queue s of
        [] \<Rightarrow> True
      | (a, t) # q \<Rightarrow>
          (case v_objs s a of
             None \<Rightarrow> True
           | Some c \<Rightarrow> task_ok cbs t (object c) \<and>
               (task_hold t = Strong \<and> refs c = 1 \<longrightarrow> t = ConnectDestroyed \<and> channel_idle (object c))))"

lemma on_object_alive:
  assumes "v_objs s a = Some c" "f (object c) = Inr w"
  shows "on_object a f s = Inr (s\<lparr>v_objs := (v_objs s)(a \<mapsto> \<lparr>refs = refs c + strong_refs (c_tasks w), object = w\<lparr>c_tasks := []\<rparr>\<rparr>),
    v_queue := v_queue s @ map (Pair a) (c_tasks w)\<rparr>)"
  using assms by (simp add: on_object_def cell_deref_def)

lemma run_alive:
  assumes K: "kernel_contract K interest" and cbs: "cbs_ok (conn_inv interest) cbs" and inv: "lives_inv interest s"
    and q: "v_queue s = (a, t) # q" and c: "v_objs s a = Some c" and ok: "bound_ok cbs s"
  shows "\<exists>s'. run_bound K cbs s = Inr s' \<and> lives_inv interest s'"
proof -
  have i: "cell_ok interest (queued_refs a (v_queue s)) (Some c)" using lives_invD [OF inv, of a] c by simp
  then have ci: "conn_inv interest (object c)" "0 < refs c" by simp_all
  have t: "task_ok cbs t (object c)" using ok q c by (simp add: bound_ok_def)
  from run_task_ok [OF K cbs ci(1) t] obtain w where w: "run_task K cbs t (object c) = Inr w" "conn_inv interest w" by blast
  note call = on_object_alive [where f = "run_task K cbs t", OF _ w(1)]
  have wi: "conn_inv interest (w\<lparr>c_tasks := []\<rparr>)" by (rule no_tasks_inv [OF w(2)])
  show ?thesis
  proof (cases "task_hold t")
    case Bare
    let ?s = "s\<lparr>v_objs := (v_objs s)(a \<mapsto> \<lparr>refs = refs c + strong_refs (c_tasks w), object = w\<lparr>c_tasks := []\<rparr>\<rparr>),
      v_queue := q @ map (Pair a) (c_tasks w)\<rparr>"
    have "run_bound K cbs s = Inr ?s" using Bare q c w(1) by (simp add: run_bound_def on_object_def cell_deref_def)
    moreover have "lives_inv interest ?s" by (rule lives_inv_upd [OF inv]) (use q i wi Bare in auto)
    ultimately show ?thesis by blast
  next
    case Weak
    let ?s = "s\<lparr>v_objs := (v_objs s)(a \<mapsto> \<lparr>refs = refs c + strong_refs (c_tasks w), object = w\<lparr>c_tasks := []\<rparr>\<rparr>),
      v_queue := q @ map (Pair a) (c_tasks w)\<rparr>"
    have "run_bound K cbs s = Inr ?s" using Weak q c w(1) ci(2)
      by (simp add: run_bound_def weak_call_def makeWeakCallback_def share_def release_def on_object_def cell_deref_def)
    moreover have "lives_inv interest ?s" by (rule lives_inv_upd [OF inv]) (use q i wi Weak in auto)
    ultimately show ?thesis by blast
  next
    case Strong
    show ?thesis
    proof (cases "refs c + strong_refs (c_tasks w) = 1")
      case True
      with ci(2) have n: "refs c = 1" "strong_refs (c_tasks w) = 0" by simp_all
      then have cd: "t = ConnectDestroyed" "channel_idle (object c)" using ok q c Strong by (simp_all add: bound_ok_def)
      have "destroyable (object c)" using t cd(1) by simp
      from connectDestroyed_dtor [OF K ci(1) this cd(2), of cbs "[]"] w(1) cd(1) i
      obtain v where v: "TCPConnection_dtor (w\<lparr>c_tasks := []\<rparr>) = Inr v" "c_tasks w = []" by (auto simp: run_task_def)
      let ?s = "s\<lparr>v_objs := (v_objs s)(a := None), v_queue := q\<rparr>"
      have "run_bound K cbs s = Inr ?s"
        using Strong q c w(1) v n by (simp add: run_bound_def on_object_def cell_deref_def release_def)
      moreover have "lives_inv interest ?s" by (rule lives_inv_upd [OF inv]) (use q i Strong n in auto)
      ultimately show ?thesis by blast
    next
      case False
      let ?s = "s\<lparr>v_objs := (v_objs s)(a \<mapsto> \<lparr>refs = refs c + strong_refs (c_tasks w) - 1, object = w\<lparr>c_tasks := []\<rparr>\<rparr>),
        v_queue := q @ map (Pair a) (c_tasks w)\<rparr>"
      have "run_bound K cbs s = Inr ?s" using False Strong q c w(1) ci(2)
        by (simp add: run_bound_def on_object_def cell_deref_def release_def)
      moreover have "lives_inv interest ?s" by (rule lives_inv_upd [OF inv]) (use q i wi Strong False ci(2) in auto)
      ultimately show ?thesis by blast
    qed
  qed
qed

text \<open>A functor whose object is gone: it is not counted, so that it holds a weak or a bare pointer.\<close>

lemma run_gone:
  assumes inv: "lives_inv interest s" and q: "v_queue s = (a, t) # q" and n: "v_objs s a = None"
  shows "task_hold t \<noteq> Strong"
    "run_bound K cbs s = (if task_hold t = Weak then Inr (s\<lparr>v_queue := q\<rparr>) else Inl UseAfterFree)"
proof -
  show h: "task_hold t \<noteq> Strong" using lives_invD [OF inv, of a] q n by auto
  show "run_bound K cbs s = (if task_hold t = Weak then Inr (s\<lparr>v_queue := q\<rparr>) else Inl UseAfterFree)"
    using n h q
    by (cases "task_hold t") (simp_all add: run_bound_def weak_call_def makeWeakCallback_def on_object_def cell_deref_def)
qed

section \<open>Histories\<close>

text \<open>The users copy and drop their pointers, call the connection through them, in the loop or (those operations that may be called there) in another
  thread, and the loop runs its functors.\<close>

datatype life_cmd = CopyPtr addr | DropPtr addr | Call addr conn_cmd | ShutdownOff addr | ForceCloseOff addr | DelayedClose addr | RunNext

fun life_exec ::
  "'k kernel \<Rightarrow> ('k, 'z) conn conn_callbacks \<Rightarrow> life_cmd \<Rightarrow> ('k, 'z) lives \<Rightarrow> ('k, 'z) lives result" where
  "life_exec K cbs (CopyPtr a) s = share a s"
| "life_exec K cbs (DropPtr a) s = release a s"
| "life_exec K cbs (Call a c) s = on_object a (conn_exec K cbs c) s"
| "life_exec K cbs (ShutdownOff a) s = on_object a (off_loop shutdown) s"
| "life_exec K cbs (ForceCloseOff a) s = on_object a (off_loop forceClose) s"
| "life_exec K cbs (DelayedClose a) s = on_object a (off_loop forceCloseWithDelay) s"
| "life_exec K cbs RunNext s = run_bound K cbs s"

text \<open>A pointer that is dropped is one of a user, not of a functor; the last one destroys the connection only when it was removed from its loop.\<close>

definition removed_conn :: "('k, 'z) conn \<Rightarrow> bool" where
  "removed_conn w \<longleftrightarrow> c_state w = kDisconnected \<and>
     (case heap w (c_channel w) of None \<Rightarrow> False | Some ch \<Rightarrow> ch_index ch = kNew \<and> \<not> ch_eventHandling ch)"

definition on_alive :: "addr \<Rightarrow> (('k, 'z) conn cell \<Rightarrow> bool) \<Rightarrow> ('k, 'z) lives \<Rightarrow> bool" where
  "on_alive a P s = (case v_objs s a of None \<Rightarrow> False | Some c \<Rightarrow> P c)"

text \<open>The next functor finds its connection alive or does not need it.\<close>

definition next_safe :: "('k, 'z) lives \<Rightarrow> bool" where
  "next_safe s = (case v_queue s of [] \<Rightarrow> True | (a, t) # q \<Rightarrow> v_objs s a \<noteq> None \<or> task_hold t \<noteq> Bare)"

fun life_ok :: "('k, 'z) conn conn_callbacks \<Rightarrow> life_cmd \<Rightarrow> ('k, 'z) lives \<Rightarrow> bool" where
  "life_ok cbs (DropPtr a) s =
     on_alive a (\<lambda>c. queued_refs a (v_queue s) < refs c \<and> (refs c = 1 \<longrightarrow> removed_conn (object c))) s"
| "life_ok cbs (Call a c) s = on_alive a (\<lambda>x. conn_ok cbs c (object x)) s"
| "life_ok cbs RunNext s = (bound_ok cbs s \<and> next_safe s)"
| "life_ok cbs (CopyPtr a) s = on_alive a (\<lambda>c. True) s"
| "life_ok cbs (ShutdownOff a) s = on_alive a (\<lambda>c. True) s"
| "life_ok cbs (ForceCloseOff a) s = on_alive a (\<lambda>c. True) s"
| "life_ok cbs (DelayedClose a) s = on_alive a (\<lambda>c. True) s"

lemma on_object_ok:
  assumes inv: "lives_inv interest s" and c: "v_objs s a = Some c" and f: "\<exists>w. f (object c) = Inr w \<and> conn_inv interest w"
  shows "\<exists>s'. on_object a f s = Inr s' \<and> lives_inv interest s'"
proof -
  obtain w where w: "f (object c) = Inr w" "conn_inv interest w" using f by blast
  let ?c = "\<lparr>refs = refs c + strong_refs (c_tasks w), object = w\<lparr>c_tasks := []\<rparr>\<rparr>"
  let ?s = "s\<lparr>v_objs := (v_objs s)(a \<mapsto> ?c), v_queue := v_queue s @ map (Pair a) (c_tasks w)\<rparr>"
  have "lives_inv interest ?s"
    by (rule lives_inv_upd [OF inv, where a = a and x = "Some ?c"])
      (use lives_invD [OF inv, of a] c no_tasks_inv [OF w(2)] in auto)
  then show ?thesis using on_object_alive [where f = f, OF c w(1)] by blast
qed

lemma release_ok:
  assumes inv: "lives_inv interest s" and ok: "life_ok cbs (DropPtr a) s"
  shows "\<exists>s'. release a s = Inr s' \<and> lives_inv interest s'"
proof -
  obtain c where c: "v_objs s a = Some c" "queued_refs a (v_queue s) < refs c" "refs c = 1 \<longrightarrow> removed_conn (object c)"
    using ok by (auto simp: on_alive_def split: option.splits)
  have i: "cell_ok interest (queued_refs a (v_queue s)) (Some c)" using lives_invD [OF inv, of a] c(1) by simp
  show ?thesis
  proof (cases "refs c = 1")
    case True
    then obtain ch where ch: "c_state (object c) = kDisconnected" "heap (object c) (c_channel (object c)) = Some ch"
        "ch_index ch = kNew" "\<not> ch_eventHandling ch"
      using c(3) by (auto simp: removed_conn_def split: option.splits)
    have r: "reactor_inv interest (object c)" using conn_invD(1) i by auto
    have "\<exists>v. TCPConnection_dtor (object c) = Inr v"
      using Channel_dtor_ok [OF r ch(2-4)] ch(1) by (simp add: TCPConnection_dtor_def)
    then have "release a s = Inr (s\<lparr>v_objs := (v_objs s)(a := None)\<rparr>)" using True c(1) by (auto simp: release_def cell_deref_def)
    moreover have "lives_inv interest (s\<lparr>v_objs := (v_objs s)(a := None)\<rparr>)"
      by (rule lives_inv_upd [OF inv, where a = a and x = None]) (use True c(2) in simp_all)
    ultimately show ?thesis by blast
  next
    case False
    then have "release a s = Inr (s\<lparr>v_objs := (v_objs s)(a \<mapsto> c\<lparr>refs := refs c - 1\<rparr>)\<rparr>)"
      using c i by (simp add: release_def cell_deref_def)
    moreover have "lives_inv interest (s\<lparr>v_objs := (v_objs s)(a \<mapsto> c\<lparr>refs := refs c - 1\<rparr>)\<rparr>)"
      by (rule lives_inv_upd [OF inv]) (use False c(2) i in auto)
    ultimately show ?thesis by blast
  qed
qed

lemma share_ok:
  assumes inv: "lives_inv interest s" and c: "v_objs s a = Some c"
  shows "\<exists>s'. share a s = Inr s' \<and> lives_inv interest s'"
proof -
  have "share a s = Inr (s\<lparr>v_objs := (v_objs s)(a \<mapsto> c\<lparr>refs := refs c + 1\<rparr>)\<rparr>)" using c by (simp add: share_def cell_deref_def)
  moreover have "lives_inv interest (s\<lparr>v_objs := (v_objs s)(a \<mapsto> c\<lparr>refs := refs c + 1\<rparr>)\<rparr>)"
    by (rule lives_inv_upd [OF inv]) (use lives_invD [OF inv, of a] c in auto)
  ultimately show ?thesis by blast
qed

text \<open>The operations that another thread may call only change the state and queue a functor.\<close>

lemma off_loop_state:
  assumes inv: "conn_inv interest w"
  shows "\<exists>w'. off_loop shutdown w = Inr w' \<and> conn_inv interest w'" "\<exists>w'. off_loop forceClose w = Inr w' \<and> conn_inv interest w'"
    "\<exists>w'. off_loop forceCloseWithDelay w = Inr w' \<and> conn_inv interest w'"
proof -
  note t = conn_invD(2) [OF inv]
  have task: "conn_inv interest (w\<lparr>c_state := kDisconnecting, c_tasks := ts, inLoopThread := True\<rparr>)" if "up w" for ts
    by (rule conn_inv_same [OF disconnecting_inv [OF inv that]]) (simp_all add: setState_def t)
  have id: "conn_inv interest (w\<lparr>inLoopThread := True\<rparr>)" by (rule conn_inv_same [OF inv]) (simp_all add: t)
  show "\<exists>w'. off_loop shutdown w = Inr w' \<and> conn_inv interest w'"
    using task id by (simp add: off_loop_def shutdown_def setState_def queue_task_def up_def)
  show "\<exists>w'. off_loop forceClose w = Inr w' \<and> conn_inv interest w'"
    using task id by (simp add: off_loop_def forceClose_def setState_def queue_task_def up_def)
  show "\<exists>w'. off_loop forceCloseWithDelay w = Inr w' \<and> conn_inv interest w'"
    using task id by (simp add: off_loop_def forceCloseWithDelay_def setState_def queue_task_def up_def)
qed

interpretation lifetimes: safe_commands "life_exec K cbs"
  "\<lambda>s. kernel_contract K interest \<and> cbs_ok (conn_inv interest) cbs \<and> lives_inv interest s" "life_ok cbs"
  for K cbs interest
proof
  fix s c
  assume "kernel_contract K interest \<and> cbs_ok (conn_inv interest) cbs \<and> lives_inv interest s" and ok: "life_ok cbs c s"
  then have K: "kernel_contract K interest" and cbs: "cbs_ok (conn_inv interest) cbs" and inv: "lives_inv interest s" by auto
  have obj: "conn_inv interest (object x)" if "v_objs s a = Some x" for a x using lives_invD [OF inv, of a] that by simp
  have "\<exists>s'. life_exec K cbs c s = Inr s' \<and> lives_inv interest s'"
  proof (cases c)
    case (Call a cmd)
    then obtain x where x: "v_objs s a = Some x" "conn_ok cbs cmd (object x)" using ok by (auto simp: on_alive_def split: option.splits)
    show ?thesis
      using on_object_ok [OF inv x(1), of "conn_exec K cbs cmd"] tcp_conn.exec_safe [of K interest cbs "object x" cmd] K cbs obj [OF x(1)] x(2)
        Call by auto
  next
    case (DropPtr a)
    then show ?thesis using release_ok [OF inv] ok by simp
  next
    case RunNext
    show ?thesis
    proof (cases "v_queue s")
      case Nil
      then show ?thesis using RunNext inv by (simp add: run_bound_def)
    next
      case (Cons e q)
      obtain a t where q: "v_queue s = (a, t) # q" using Cons by (cases e) simp
      show ?thesis
      proof (cases "v_objs s a")
        case None
        have "task_hold t = Weak" using run_gone(1) [OF inv q None] ok RunNext q None by (cases "task_hold t") (auto simp: next_safe_def)
        moreover from this have "lives_inv interest (s\<lparr>v_queue := q\<rparr>)" using inv q by (auto simp: lives_inv_def)
        ultimately show ?thesis using run_gone(2) [OF inv q None] RunNext by simp
      next
        case (Some x)
        then show ?thesis using run_alive [OF K cbs inv q Some] ok RunNext by simp
      qed
    qed
  qed (use ok inv share_ok [OF inv] on_object_ok [OF inv] off_loop_state [OF obj] in \<open>auto simp: on_alive_def split: option.splits\<close>)
  with K cbs show "\<exists>s'. life_exec K cbs c s = Inr s' \<and> kernel_contract K interest \<and> cbs_ok (conn_inv interest) cbs \<and> lives_inv interest s'"
    by blast
qed


text \<open>A closed connection for the examples, about to be destroyed: one pointer is in the queue, and another thread may hold one more.\<close>

definition closing :: "nat \<Rightarrow> (addr \<times> conn_task) list \<Rightarrow> (int \<Rightarrow> epoll_event option, unit) lives" where
  "closing n q = \<lparr>v_objs = [7 \<mapsto> \<lparr>refs = n, object = sample_conn kDisconnected 0 []\<rparr>], v_queue = (7, ConnectDestroyed) # q\<rparr>"

lemma closing_conn:
  "conn_inv (\<lambda>k. k) (sample_conn kDisconnected 0 [])" "destroyable (sample_conn kDisconnected 0 [])"
  "channel_idle (sample_conn kDisconnected 0 [])" "c_tasks (sample_conn kDisconnected 0 []) = []"
proof -
  show "conn_inv (\<lambda>k. k) (sample_conn kDisconnected 0 [])"
    by (rule sample_conn_inv) (simp_all add: lib_mask_def chan_state_ok_def isNoneEvent_def kNoneEvent_def)
qed (simp_all add: destroyable_def channel_idle_def sample_tcp_def blank_tcp_def Channel_def index_defs)


text \<open>\<^verbatim>\<open>stopRead\<close> queues a functor bound to the bare \<^verbatim>\<open>this\<close>: when a thread calls it through its pointer on a connection that is about to be
  destroyed, and then drops the pointer, \<^verbatim>\<open>connectDestroyed\<close> destroys the connection and the functor runs on the destroyed object.  A delayed
  close in its place does no harm.\<close>

theorem bare_functor_dangles:
  assumes "kernel_contract K interest" "lives_inv interest s" "v_objs s a = Some c" "refs c = 2" "v_queue s = [(a, ConnectDestroyed)]"
    "destroyable (object c)" "channel_idle (object c)"
  shows "\<exists>s1 s2 s3. on_object a (off_loop (stopRead K)) s = Inr s1 \<and> release a s1 = Inr s2 \<and> run_bound K cbs s2 = Inr s3 \<and>
    v_objs s3 a = None \<and> run_bound K cbs s3 = Inl UseAfterFree \<and>
    run_bound K cbs (s3\<lparr>v_queue := [(a, ForceCloseLater)]\<rparr>) = Inr (s3\<lparr>v_queue := []\<rparr>)"
proof -
  let ?w = "(object c)\<lparr>inLoopThread := True, c_tasks := []\<rparr>"
  have ci: "conn_inv interest (object c)" "c_tasks (object c) = []" using lives_invD [OF assms(2), of a] assms(3) by simp_all
  have wi: "conn_inv interest ?w" by (rule conn_inv_same [OF ci(1)]) (simp_all add: conn_invD(2) [OF ci(1)])
  have d: "destroyable ?w" "channel_idle ?w" using assms(6,7) by simp_all
  obtain w' v where w': "connectDestroyed K cbs ?w = Inr w'" "c_tasks w' = []" "TCPConnection_dtor (w'\<lparr>c_tasks := []\<rparr>) = Inr v"
    using connectDestroyed_dtor [OF assms(1) wi d, of cbs "[]"] by auto
  let ?q = "[(a, ConnectDestroyed), (a, StopReadInLoop)]"
  let ?s1 = "s\<lparr>v_objs := (v_objs s)(a \<mapsto> \<lparr>refs = 2, object = ?w\<rparr>), v_queue := ?q\<rparr>"
  let ?s2 = "s\<lparr>v_objs := (v_objs s)(a \<mapsto> \<lparr>refs = 1, object = ?w\<rparr>), v_queue := ?q\<rparr>"
  let ?s3 = "s\<lparr>v_objs := (v_objs s)(a := None), v_queue := [(a, StopReadInLoop)]\<rparr>"
  have "on_object a (off_loop (stopRead K)) s = Inr ?s1"
    using assms(3-5) ci(2) by (simp add: on_object_def cell_deref_def off_loop_def stopRead_def queue_task_def)
  moreover have "release a ?s1 = Inr ?s2" by (simp add: release_def cell_deref_def)
  moreover have "run_bound K cbs ?s2 = Inr ?s3"
    using w' by (simp add: run_bound_def on_object_def cell_deref_def release_def run_task_def)
  moreover have "run_bound K cbs ?s3 = Inl UseAfterFree" by (simp add: run_bound_def on_object_def cell_deref_def)
  moreover have "run_bound K cbs (?s3\<lparr>v_queue := [(a, ForceCloseLater)]\<rparr>) = Inr (?s3\<lparr>v_queue := []\<rparr>)"
    by (simp add: run_bound_def weak_call_def makeWeakCallback_def)
  ultimately show ?thesis by (intro exI [of _ ?s1] exI [of _ ?s2] exI [of _ ?s3] conjI) simp_all
qed

theorem bare_functor_dangles_witness:
  "\<exists>s1 s2 s3. on_object 7 (off_loop (stopRead echo_kernel)) (closing 2 []) = Inr s1 \<and> release 7 s1 = Inr s2 \<and>
    run_bound echo_kernel idle_callbacks s2 = Inr s3 \<and> run_bound echo_kernel idle_callbacks s3 = Inl UseAfterFree"
proof -
  have "lives_inv (\<lambda>k. k) (closing 2 [])" using closing_conn by (simp add: lives_inv_def closing_def)
  from bare_functor_dangles [OF echo_kernel_contract this, of 7 _ idle_callbacks] closing_conn show ?thesis
    by (auto simp: closing_def)
qed

end
