(* ===== verification/Lute_HttpContext.thy ===== *)
theory Lute_HttpContext
  imports Lute_Buffer
begin

text \<open>
  The HTTP request parser: \<^verbatim>\<open>app/http/include/http/HttpRequest.h\<close>, \<^verbatim>\<open>HttpContext.h\<close> and
  \<^verbatim>\<open>app/http/src/HttpContext.cc\<close>.  A pointer range of the source is the list of its bytes.  The loop of
  \<^verbatim>\<open>parseRequest\<close> has a state in which it spins, so it is a \<^theory_text>\<open>partial_function\<close> whose
  value \<open>None\<close> is "does not return"; that it returns from every other state is proved.  The
  specification \<open>parse_bytes\<close> is the same parser on a byte list, without the buffer.
\<close>

section \<open>Requests\<close>

datatype http_method = kInvalid | kGet | kPost | kHead | kPut | kDelete

datatype http_version = kUnknown | kHttp10 | kHttp11

record httpRequest =
  req_method :: http_method
  req_version :: http_version
  req_path :: string
  req_query :: string
  req_receiveTime :: "timestamp option"
  req_headers :: "string \<rightharpoonup> string"
  req_body :: string

text \<open>A timestamp counts microseconds; \<open>None\<close> is the default-constructed \<^verbatim>\<open>Timestamp\<close>.\<close>

definition HttpRequest :: httpRequest where
  "HttpRequest = \<lparr>req_method = kInvalid, req_version = kUnknown, req_path = '''', req_query = '''',
     req_receiveTime = None, req_headers = Map.empty, req_body = ''''\<rparr>"

definition method_of_string :: "string \<Rightarrow> http_method" where
  "method_of_string m =
     (if m = ''GET'' then kGet
      else if m = ''POST'' then kPost
      else if m = ''HEAD'' then kHead
      else if m = ''PUT'' then kPut
      else if m = ''DELETE'' then kDelete
      else kInvalid)"

definition setMethod :: "string \<Rightarrow> httpRequest \<Rightarrow> (bool \<times> httpRequest) result" where
  "setMethod m r =
     assertR (req_method r = kInvalid)
       (let r' = r\<lparr>req_method := method_of_string m\<rparr> in Inr (req_method r' \<noteq> kInvalid, r'))"

definition methodString :: "httpRequest \<Rightarrow> string" where
  "methodString r =
     (case req_method r of
        kGet \<Rightarrow> ''GET'' | kPost \<Rightarrow> ''GET'' | kHead \<Rightarrow> ''GET'' | kPut \<Rightarrow> ''GET'' | kDelete \<Rightarrow> ''GET''
      | _ \<Rightarrow> ''UNKNOWN'')"

definition setVersion :: "http_version \<Rightarrow> httpRequest \<Rightarrow> httpRequest" where
  "setVersion v r = r\<lparr>req_version := v\<rparr>"

definition setPath :: "string \<Rightarrow> httpRequest \<Rightarrow> httpRequest" where
  "setPath p r = r\<lparr>req_path := p\<rparr>"

definition setQuery :: "string \<Rightarrow> httpRequest \<Rightarrow> httpRequest" where
  "setQuery q r = r\<lparr>req_query := q\<rparr>"

definition setReceiveTime :: "timestamp \<Rightarrow> httpRequest \<Rightarrow> httpRequest" where
  "setReceiveTime t r = r\<lparr>req_receiveTime := Some t\<rparr>"

definition setBody_req :: "string \<Rightarrow> httpRequest \<Rightarrow> httpRequest" where
  "setBody_req body r = r\<lparr>req_body := body\<rparr>"

text \<open>\<^verbatim>\<open>isspace\<close> in the C locale, and \<^verbatim>\<open>std::find\<close> as the offset it returns (the length if absent).\<close>

definition isspace :: "char \<Rightarrow> bool" where
  "isspace c \<longleftrightarrow> c = CHR '' '' \<or> (9 \<le> (of_char c :: nat) \<and> (of_char c :: nat) \<le> 13)"

definition std_find :: "char \<Rightarrow> string \<Rightarrow> nat" where
  "std_find c s = length (takeWhile (\<lambda>x. x \<noteq> c) s)"

definition trim_right :: "string \<Rightarrow> string" where
  "trim_right s = rev (dropWhile isspace (rev s))"

definition addHeader :: "string \<Rightarrow> nat \<Rightarrow> httpRequest \<Rightarrow> httpRequest" where
  "addHeader line colon r =
     (let field = take colon line;
          value = trim_right (dropWhile isspace (drop (colon + 1) line))
      in r\<lparr>req_headers := (req_headers r)(field \<mapsto> value)\<rparr>)"

definition getHeader :: "string \<Rightarrow> httpRequest \<Rightarrow> string" where
  "getHeader field r = (case req_headers r field of Some v \<Rightarrow> v | None \<Rightarrow> '''')"

definition req_swap :: "httpRequest \<Rightarrow> httpRequest \<Rightarrow> httpRequest \<times> httpRequest" where
  "req_swap r that =
     (\<lparr>req_method = req_method that, req_version = req_version that, req_path = req_path that,
       req_query = req_query that, req_receiveTime = req_receiveTime that,
       req_headers = req_headers that, req_body = req_body that\<rparr>,
      \<lparr>req_method = req_method r, req_version = req_version r, req_path = req_path r,
       req_query = req_query r, req_receiveTime = req_receiveTime r,
       req_headers = req_headers r, req_body = req_body r\<rparr>)"

section \<open>Contexts\<close>

datatype parse_state = kExpectRequestLine | kExpectHeaders | kExpectBody | kGotAll

record httpContext =
  ctx_state :: parse_state
  ctx_request :: httpRequest

definition HttpContext :: httpContext where
  "HttpContext = \<lparr>ctx_state = kExpectRequestLine, ctx_request = HttpRequest\<rparr>"

definition gotAll :: "httpContext \<Rightarrow> bool" where
  "gotAll c \<longleftrightarrow> ctx_state c = kGotAll"

definition reset_ctx :: "httpContext \<Rightarrow> httpContext" where
  "reset_ctx c = c\<lparr>ctx_state := kExpectRequestLine,
     ctx_request := fst (req_swap (ctx_request c) HttpRequest)\<rparr>"

definition processRequestLine :: "string \<Rightarrow> httpRequest \<Rightarrow> (bool \<times> httpRequest) result" where
  "processRequestLine line r =
     (let space = std_find (CHR '' '') line
      in if space = length line then Inr (False, r)
         else bindR (setMethod (take space line) r) (\<lambda>(known, r1).
           if \<not> known then Inr (False, r1)
           else let start = drop (space + 1) line; space2 = std_find (CHR '' '') start
                in if space2 = length start then Inr (False, r1)
                   else let target = take space2 start;
                            question = std_find (CHR ''?'') target;
                            r2 = (if question \<noteq> length target
                                  then setQuery (drop question target)
                                         (setPath (take question target) r1)
                                  else setPath target r1);
                            version = drop (space2 + 1) start
                        in if length version = 8 \<and> take 7 version = ''HTTP/1.''
                           then if version ! 7 = CHR ''1'' then Inr (True, setVersion kHttp11 r2)
                                else if version ! 7 = CHR ''0'' then Inr (True, setVersion kHttp10 r2)
                                else Inr (False, r2)
                           else Inr (False, r2)))"

text \<open>
  One round of the loop of \<^verbatim>\<open>parseRequest\<close>: the flags \<^verbatim>\<open>hasMore\<close> and \<^verbatim>\<open>ok\<close>, the context and the
  buffer.  In the state \<^verbatim>\<open>kGotAll\<close> no branch is taken and \<^verbatim>\<open>hasMore\<close> stays true.
\<close>

definition parse_step ::
  "timestamp \<Rightarrow> bool \<Rightarrow> httpContext \<Rightarrow> buffer \<Rightarrow> (bool \<times> bool \<times> httpContext \<times> buffer) result" where
  "parse_step receiveTime ok c b =
     (case ctx_state c of
        kExpectRequestLine \<Rightarrow>
          bindR (findCRLF b) (\<lambda>r.
            case r of None \<Rightarrow> Inr (False, ok, c, b)
            | Some crlf \<Rightarrow>
                bindR (mem_read (peek b) (crlf - peek b) (vec b)) (\<lambda>line.
                bindR (processRequestLine line (ctx_request c)) (\<lambda>(ok', r).
                  if ok'
                  then bindR (retrieveUntil (crlf + 2) b) (\<lambda>b'.
                         Inr (True, ok', c\<lparr>ctx_request := setReceiveTime receiveTime r,
                                           ctx_state := kExpectHeaders\<rparr>, b'))
                  else Inr (False, ok', c\<lparr>ctx_request := r\<rparr>, b))))
      | kExpectHeaders \<Rightarrow>
          bindR (findCRLF b) (\<lambda>r.
            case r of None \<Rightarrow> Inr (False, ok, c, b)
            | Some crlf \<Rightarrow>
                bindR (mem_read (peek b) (crlf - peek b) (vec b)) (\<lambda>line.
                  let colon = std_find (CHR '':'') line;
                      c' = (if colon \<noteq> length line
                            then c\<lparr>ctx_request := addHeader line colon (ctx_request c)\<rparr>
                            else c\<lparr>ctx_state := kExpectBody\<rparr>)
                  in bindR (retrieveUntil (crlf + 2) b) (\<lambda>b'. Inr (True, ok, c', b'))))
      | kExpectBody \<Rightarrow>
          bindR (retrieveAllAsString b) (\<lambda>(body, b').
            Inr (False, ok,
              c\<lparr>ctx_request := (if body \<noteq> '''' then setBody_req body (ctx_request c) else ctx_request c),
                ctx_state := kGotAll\<rparr>, b'))
      | kGotAll \<Rightarrow> Inr (True, ok, c, b))"

partial_function (option) parse_loop ::
  "timestamp \<Rightarrow> bool \<Rightarrow> httpContext \<Rightarrow> buffer \<Rightarrow> (bool \<times> httpContext \<times> buffer) result option" where
  "parse_loop receiveTime ok c b =
     (case parse_step receiveTime ok c b of
        Inl e \<Rightarrow> Some (Inl e)
      | Inr (hasMore, ok', c', b') \<Rightarrow>
          if hasMore then parse_loop receiveTime ok' c' b' else Some (Inr (ok', c', b')))"

definition parseRequest ::
  "buffer \<Rightarrow> timestamp \<Rightarrow> httpContext \<Rightarrow> (bool \<times> httpContext \<times> buffer) result option" where
  "parseRequest b receiveTime c = parse_loop receiveTime True c b"

section \<open>The specification on byte lists\<close>

definition list_step ::
  "timestamp \<Rightarrow> bool \<Rightarrow> httpContext \<Rightarrow> string \<Rightarrow> (bool \<times> bool \<times> httpContext \<times> string) result" where
  "list_step t ok c s =
     (case ctx_state c of
        kExpectRequestLine \<Rightarrow>
          (case memmem s kCRLF of None \<Rightarrow> Inr (False, ok, c, s)
           | Some i \<Rightarrow>
               bindR (processRequestLine (take i s) (ctx_request c)) (\<lambda>(ok', r).
                 if ok' then Inr (True, True, c\<lparr>ctx_request := setReceiveTime t r,
                                               ctx_state := kExpectHeaders\<rparr>, drop (i + 2) s)
                 else Inr (False, False, c\<lparr>ctx_request := r\<rparr>, s)))
      | kExpectHeaders \<Rightarrow>
          (case memmem s kCRLF of None \<Rightarrow> Inr (False, ok, c, s)
           | Some i \<Rightarrow>
               let line = take i s; colon = std_find (CHR '':'') line
               in Inr (True, ok,
                    (if colon \<noteq> i then c\<lparr>ctx_request := addHeader line colon (ctx_request c)\<rparr>
                     else c\<lparr>ctx_state := kExpectBody\<rparr>), drop (i + 2) s))
      | kExpectBody \<Rightarrow>
          Inr (False, ok, c\<lparr>ctx_request := (if s \<noteq> '''' then setBody_req s (ctx_request c)
                                            else ctx_request c),
                            ctx_state := kGotAll\<rparr>, '''')
      | kGotAll \<Rightarrow> Inr (False, ok, c, s))"

lemma list_step_decreases: "list_step t ok c s = Inr (True, ok', c', s') \<Longrightarrow> length s' < length s"
  by (auto simp: list_step_def Let_def result_simps split: parse_state.splits option.splits if_splits
      dest!: memmem_kCRLF_bound)

function parse_bytes ::
  "timestamp \<Rightarrow> bool \<Rightarrow> httpContext \<Rightarrow> string \<Rightarrow> (bool \<times> httpContext \<times> string) result" where
  "parse_bytes t ok c s =
     (case list_step t ok c s of
        Inl e \<Rightarrow> Inl e
      | Inr (hasMore, ok', c', s') \<Rightarrow>
          if hasMore then parse_bytes t ok' c' s' else Inr (ok', c', s'))"
  by pat_completeness auto
termination
  by (relation "measure (\<lambda>(t, ok, c, s). length s)") (auto dest: list_step_decreases)

declare parse_bytes.simps [simp del]

section \<open>The loop refines the specification\<close>

definition abs_parse :: "(bool \<times> httpContext \<times> buffer) result \<Rightarrow> (bool \<times> httpContext \<times> string) result" where
  "abs_parse r = map_sum id (map_prod id (map_prod id content)) r"

lemma abs_parse_simps [simp]:
  "abs_parse (Inl e) = Inl e"
  "abs_parse (Inr (ok, c, b)) = Inr (ok, c, content b)"
  by (simp_all add: abs_parse_def)

lemma retrieve_line:
  assumes "buffer_inv b" "memmem (content b) kCRLF = Some i"
  shows "\<exists>b'. retrieveUntil (peek b + i + 2) b = Inr b' \<and> buffer_inv b' \<and>
    content b' = drop (i + 2) (content b)"
proof -
  have i: "i + 2 \<le> length (content b)" using memmem_kCRLF_bound assms(2) by blast
  show ?thesis
    using retrieveUntil_ok [OF assms(1) i] retrieve_ok [OF assms(1) i] by (auto simp: add.assoc)
qed

lemma read_line:
  assumes "buffer_inv b" "memmem (content b) kCRLF = Some i"
  shows "mem_read (peek b) (peek b + i - peek b) (vec b) = Inr (take i (content b))"
proof -
  have "i \<le> readableBytes b" using memmem_kCRLF_bound [OF assms(2)] assms(1) by (simp add: readable_content)
  then show ?thesis using assms(1) by (simp add: mem_read_content index_simps)
qed

text \<open>How a round on the buffer and the same round on the byte list agree.\<close>

definition step_agrees ::
  "(bool \<times> bool \<times> httpContext \<times> buffer) result \<Rightarrow> (bool \<times> bool \<times> httpContext \<times> string) result \<Rightarrow> bool" where
  "step_agrees x y \<longleftrightarrow>
     (case x of Inl e \<Rightarrow> y = Inl e
      | Inr (m, ok, c, b) \<Rightarrow> buffer_inv b \<and> y = Inr (m, ok, c, content b))"

lemma parse_step_agrees:
  assumes inv: "buffer_inv b" and st: "ctx_state c \<noteq> kGotAll"
  shows "step_agrees (parse_step t ok c b) (list_step t ok c (content b))"
proof (cases "ctx_state c")
  case kExpectRequestLine
  show ?thesis
  proof (cases "memmem (content b) kCRLF")
    case None
    then show ?thesis
      using inv kExpectRequestLine by (simp add: step_agrees_def parse_step_def list_step_def findCRLF_ok)
  next
    case (Some i)
    from retrieve_line [OF inv Some] obtain b' where
      b': "retrieveUntil (peek b + i + 2) b = Inr b'" "buffer_inv b'" "content b' = drop (i + 2) (content b)"
      by blast
    show ?thesis
    proof (cases "processRequestLine (take i (content b)) (ctx_request c)")
      case (Inl e)
      then show ?thesis using inv kExpectRequestLine Some read_line [OF inv Some]
        by (simp add: step_agrees_def parse_step_def list_step_def findCRLF_ok)
    next
      case (Inr p)
      then show ?thesis using inv kExpectRequestLine Some read_line [OF inv Some] b'
        by (cases p) (auto simp: step_agrees_def parse_step_def list_step_def findCRLF_ok)
    qed
  qed
next
  case kExpectHeaders
  show ?thesis
  proof (cases "memmem (content b) kCRLF")
    case None
    then show ?thesis
      using inv kExpectHeaders by (simp add: step_agrees_def parse_step_def list_step_def findCRLF_ok)
  next
    case (Some i)
    have "length (take i (content b)) = i" using memmem_kCRLF_bound [OF Some] by simp
    then show ?thesis
      using inv kExpectHeaders Some read_line [OF inv Some] retrieve_line [OF inv Some]
      by (auto simp: step_agrees_def parse_step_def list_step_def findCRLF_ok Let_def)
  qed
next
  case kExpectBody
  then show ?thesis
    using retrieveAllAsString_ok [OF inv] by (auto simp: step_agrees_def parse_step_def list_step_def)
qed (use st in simp)

lemma list_step_not_gotAll:
  "list_step t ok c s = Inr (True, ok', c', s') \<Longrightarrow> ctx_state c' \<noteq> kGotAll"
  by (auto simp: list_step_def Let_def result_simps split: parse_state.splits option.splits if_splits)

lemma parse_loop_refines:
  assumes "buffer_inv b" "ctx_state c \<noteq> kGotAll"
  shows "\<exists>r. parse_loop t ok c b = Some r \<and> abs_parse r = parse_bytes t ok c (content b) \<and>
    (\<forall>ok' c' b'. r = Inr (ok', c', b') \<longrightarrow> buffer_inv b')"
  using assms
proof (induction "length (content b)" arbitrary: ok c b rule: less_induct)
  case less
  have agree: "step_agrees (parse_step t ok c b) (list_step t ok c (content b))"
    using less.prems by (rule parse_step_agrees)
  show ?case
  proof (cases "parse_step t ok c b")
    case (Inl e)
    with agree show ?thesis
      by (simp add: step_agrees_def parse_loop.simps [of t ok c b] parse_bytes.simps [of t ok c])
  next
    case (Inr p)
    obtain m ok1 c1 b1 where p: "p = (m, ok1, c1, b1)" by (cases p) auto
    with agree Inr have b1: "buffer_inv b1" "list_step t ok c (content b) = Inr (m, ok1, c1, content b1)"
      by (auto simp: step_agrees_def)
    show ?thesis
    proof (cases m)
      case True
      have "length (content b1) < length (content b)" "ctx_state c1 \<noteq> kGotAll"
        using list_step_decreases [OF b1(2) [simplified True]]
          list_step_not_gotAll [OF b1(2) [simplified True]] by simp_all
      then have "\<exists>r. parse_loop t ok1 c1 b1 = Some r \<and> abs_parse r = parse_bytes t ok1 c1 (content b1) \<and>
          (\<forall>ok' c' b'. r = Inr (ok', c', b') \<longrightarrow> buffer_inv b')"
        using less.hyps b1(1) by blast
      with True Inr p b1 show ?thesis
        by (simp add: parse_loop.simps [of t ok c b] parse_bytes.simps [of t ok c])
    next
      case False
      with Inr p b1 show ?thesis
        by (simp add: parse_loop.simps [of t ok c b] parse_bytes.simps [of t ok c])
    qed
  qed
qed

lemma parse_loop_spins:
  assumes "parse_loop t ok c b = Some r"
  shows "ctx_state c \<noteq> kGotAll"
proof (rule parse_loop.raw_induct [where P = "\<lambda>t ok c b r. ctx_state c \<noteq> kGotAll", OF _ assms])
  fix f t ok c b r
  assume IH: "\<And>t ok c b r. f t ok c b = Some r \<Longrightarrow> ctx_state c \<noteq> kGotAll"
    and eq: "(case parse_step t ok c b of Inl e \<Rightarrow> Some (Inl e)
      | Inr (hasMore, ok', c', b') \<Rightarrow> if hasMore then f t ok' c' b' else Some (Inr (ok', c', b'))) = Some r"
  show "ctx_state c \<noteq> kGotAll"
  proof
    assume "ctx_state c = kGotAll"
    with eq have "f t ok c b = Some r" by (simp add: parse_step_def)
    with IH \<open>ctx_state c = kGotAll\<close> show False by blast
  qed
qed

section \<open>Fragmentation\<close>

lemma list_step_append:
  assumes "list_step t ok c xs = Inr (True, ok', c', xs')"
  shows "list_step t ok c (xs @ ys) = Inr (True, ok', c', xs' @ ys)"
proof -
  show ?thesis
  proof (cases "memmem xs kCRLF")
    case None
    then show ?thesis using assms by (auto simp: list_step_def split: parse_state.splits)
  next
    case (Some i)
    note i = memmem_kCRLF_bound [OF Some] memmem_append [OF kCRLF_not_Nil Some, of ys]
    show ?thesis
    proof (cases "ctx_state c")
      case kExpectRequestLine
      with assms Some obtain r where "processRequestLine (take i xs) (ctx_request c) = Inr (True, r)"
          "ok'" "xs' = drop (i + 2) xs"
          "c' = c\<lparr>ctx_request := setReceiveTime t r, ctx_state := kExpectHeaders\<rparr>"
        by (auto simp: list_step_def bindR_eq_Inr split: if_splits)
      then show ?thesis using kExpectRequestLine i by (simp add: list_step_def)
    next
      case kExpectHeaders
      with assms Some show ?thesis using i by (auto simp: list_step_def Let_def)
    qed (use assms in \<open>auto simp: list_step_def\<close>)
  qed
qed

lemma parse_bytes_append:
  assumes "parse_bytes t ok c xs = Inr (True, c1, rest)"
    "ctx_state c1 = kExpectRequestLine \<or> ctx_state c1 = kExpectHeaders"
  shows "parse_bytes t ok c (xs @ ys) = parse_bytes t True c1 (rest @ ys)"
  using assms
proof (induction t ok c xs rule: parse_bytes.induct)
  case (1 t ok c xs)
  obtain m ok' c' xs' where st: "list_step t ok c xs = Inr (m, ok', c', xs')"
    using "1.prems"(1) by (subst (asm) parse_bytes.simps) (auto split: sum.splits prod.splits)
  show ?case
  proof (cases m)
    case True
    have "parse_bytes t ok' c' xs' = Inr (True, c1, rest)"
      using "1.prems"(1) st True by (simp add: parse_bytes.simps [of t ok c])
    then have "parse_bytes t ok' c' (xs' @ ys) = parse_bytes t True c1 (rest @ ys)"
      using "1.IH" [OF st] True "1.prems"(2) by simp
    then show ?thesis
      using list_step_append [OF st [simplified True]] True by (simp add: parse_bytes.simps [of t ok c])
  next
    case False
    then have "ok' = True" "c' = c1" "xs' = rest"
      using "1.prems"(1) st by (simp_all add: parse_bytes.simps [of t ok c])
    moreover from this have "c1 = c \<and> rest = xs \<and> ok"
      using st False "1.prems"(2)
      by (auto simp: list_step_def Let_def result_simps split: parse_state.splits option.splits if_splits)
    ultimately show ?thesis by simp
  qed
qed

section \<open>Well-formed requests\<close>

text \<open>The text of a request, as a client sends it, and what a client may put into its parts.\<close>

fun method_text :: "http_method \<Rightarrow> string" where
  "method_text kInvalid = ''''"
| "method_text kGet = ''GET''"
| "method_text kPost = ''POST''"
| "method_text kHead = ''HEAD''"
| "method_text kPut = ''PUT''"
| "method_text kDelete = ''DELETE''"

fun version_text :: "http_version \<Rightarrow> string" where
  "version_text kHttp10 = ''HTTP/1.0''"
| "version_text kHttp11 = ''HTTP/1.1''"
| "version_text kUnknown = ''''"

fun header_line :: "string \<times> string \<Rightarrow> string" where
  "header_line (k, v) = k @ '': '' @ v @ kCRLF"

definition request_text ::
  "http_method \<Rightarrow> string \<Rightarrow> string \<Rightarrow> http_version \<Rightarrow> (string \<times> string) list \<Rightarrow> string \<Rightarrow> string" where
  "request_text m path query v hdrs body =
     method_text m @ '' '' @ (path @ query) @ '' '' @ version_text v @ kCRLF @
     concat (map header_line hdrs) @ kCRLF @ body"

definition wf_target :: "string \<Rightarrow> string \<Rightarrow> bool" where
  "wf_target path query \<longleftrightarrow>
     CHR '' '' \<notin> set path \<and> CHR 0x0D \<notin> set path \<and> CHR ''?'' \<notin> set path \<and>
     CHR '' '' \<notin> set query \<and> CHR 0x0D \<notin> set query \<and>
     (query = '''' \<or> hd query = CHR ''?'')"

fun wf_header :: "string \<times> string \<Rightarrow> bool" where
  "wf_header (k, v) \<longleftrightarrow>
     CHR '':'' \<notin> set k \<and> CHR 0x0D \<notin> set k \<and> CHR 0x0D \<notin> set v \<and>
     (v = '''' \<or> \<not> isspace (hd v) \<and> \<not> isspace (last v))"

lemma std_find_absent: "std_find c s = length s \<longleftrightarrow> c \<notin> set s"
  by (induction s) (auto simp: std_find_def)

lemma std_find_append: "c \<notin> set xs \<Longrightarrow> std_find c (xs @ ys) = length xs + std_find c ys"
  by (induction xs) (auto simp: std_find_def)

lemma std_find_hit [simp]: "std_find c (c # ys) = 0"
  by (simp add: std_find_def)

lemma method_of_text: "method_of_string (method_text m) = m"
  by (cases m) (simp_all add: method_of_string_def)

lemma method_text_no: "CHR '' '' \<notin> set (method_text m)" "CHR 0x0D \<notin> set (method_text m)"
  by (cases m; simp)+

lemma version_text_no: "CHR 0x0D \<notin> set (version_text v)"
  by (cases v) simp_all

lemma processRequestLine_ok:
  assumes "req_method r = kInvalid" "m \<noteq> kInvalid" "v \<noteq> kUnknown" "wf_target path query"
  shows "processRequestLine (method_text m @ '' '' @ (path @ query) @ '' '' @ version_text v) r =
    Inr (True, r\<lparr>req_method := m, req_path := path, req_version := v,
      req_query := (if query = '''' then req_query r else query)\<rparr>)"
proof -
  let ?line = "method_text m @ '' '' @ (path @ query) @ '' '' @ version_text v"
  let ?start = "(path @ query) @ '' '' @ version_text v"
  have s1: "std_find (CHR '' '') ?line = length (method_text m)"
    by (simp add: std_find_append method_text_no)
  have sm: "setMethod (method_text m) r = Inr (True, r\<lparr>req_method := m\<rparr>)"
    using assms(1,2) by (simp add: setMethod_def method_of_text Let_def)
  have s2: "std_find (CHR '' '') ?start = length (path @ query)"
    using assms(4) by (simp add: wf_target_def std_find_append)
  have q: "std_find (CHR ''?'') (path @ query) = length path"
  proof (cases query)
    case Nil
    then show ?thesis using assms(4) by (simp add: wf_target_def std_find_absent)
  next
    case (Cons c cs)
    then show ?thesis using assms(4) by (simp add: wf_target_def std_find_append)
  qed
  have v: "length (version_text v) = 8" "take 7 (version_text v) = ''HTTP/1.''"
    "version_text v ! 7 = CHR ''1'' \<longleftrightarrow> v = kHttp11" "version_text v ! 7 = CHR ''0'' \<longleftrightarrow> v = kHttp10"
    using assms(3) by (cases v; simp)+
  show ?thesis
    unfolding processRequestLine_def Let_def s1
    using assms(3) v q s2
    by (cases v; cases "query = []") (simp_all add: sm setQuery_def setPath_def setVersion_def)
qed

lemma trim_value:
  assumes "v = '''' \<or> \<not> isspace (hd v) \<and> \<not> isspace (last v)"
  shows "trim_right (dropWhile isspace ('' '' @ v)) = v"
proof (cases "v = ''''")
  case True
  then show ?thesis by (simp add: trim_right_def isspace_def)
next
  case False
  with assms have "\<not> isspace (hd v)" "\<not> isspace (hd (rev v))" by (simp_all add: hd_rev)
  with False have "dropWhile isspace v = v" "dropWhile isspace (rev v) = rev v"
    by (cases v, auto) (metis dropWhile_eq_self_iff rev.simps(2) rev_is_Nil_conv)
  then show ?thesis by (simp add: trim_right_def isspace_def)
qed

lemma list_step_header:
  assumes "wf_header (k, v)"
  shows "list_step t ok \<lparr>ctx_state = kExpectHeaders, ctx_request = r\<rparr> (header_line (k, v) @ rest) =
    Inr (True, ok, \<lparr>ctx_state = kExpectHeaders,
      ctx_request = r\<lparr>req_headers := (req_headers r)(k \<mapsto> v)\<rparr>\<rparr>, rest)"
proof -
  let ?line = "k @ '': '' @ v"
  have cr: "CHR 0x0D \<notin> set ?line" using assms by auto
  have m: "memmem (header_line (k, v) @ rest) kCRLF = Some (length ?line)"
    using memmem_line [OF cr, of rest] by simp
  have f: "std_find (CHR '':'') ?line = length k"
    using assms by (simp add: std_find_append)
  have split: "header_line (k, v) @ rest = ?line @ kCRLF @ rest" by simp
  note tl = take_line [of ?line "kCRLF @ rest", folded split] and dl = drop_line [of ?line rest, folded split]
  have tv: "trim_right (dropWhile isspace ('' '' @ v)) = v"
    using assms by (intro trim_value) simp
  show ?thesis
    using m f tl dl tv by (simp add: list_step_def Let_def addHeader_def del: header_line.simps)
qed

lemma parse_headers:
  assumes "list_all wf_header hdrs"
  shows "parse_bytes t True \<lparr>ctx_state = kExpectHeaders, ctx_request = r\<rparr>
      (concat (map header_line hdrs) @ kCRLF @ body) =
    Inr (True, \<lparr>ctx_state = kGotAll, ctx_request =
      r\<lparr>req_headers := req_headers r ++ map_of (rev hdrs),
        req_body := (if body = '''' then req_body r else body)\<rparr>\<rparr>, '''')"
  using assms
proof (induction hdrs arbitrary: r)
  case Nil
  have "memmem (kCRLF @ body) kCRLF = Some 0" using memmem_line [of "[]"] by simp
  then have "list_step t True \<lparr>ctx_state = kExpectHeaders, ctx_request = r\<rparr> (kCRLF @ body) =
      Inr (True, True, \<lparr>ctx_state = kExpectBody, ctx_request = r\<rparr>, body)"
    by (simp add: list_step_def std_find_def kCRLF_def)
  moreover have "list_step t True \<lparr>ctx_state = kExpectBody, ctx_request = r\<rparr> body =
      Inr (False, True, \<lparr>ctx_state = kGotAll, ctx_request =
        r\<lparr>req_body := (if body = '''' then req_body r else body)\<rparr>\<rparr>, '''')"
    by (simp add: list_step_def setBody_req_def)
  ultimately show ?case by (simp add: parse_bytes.simps)
next
  case (Cons h hs)
  obtain k v where h: "h = (k, v)" by (cases h)
  with Cons.prems have wf: "wf_header (k, v)" "list_all wf_header hs" by simp_all
  let ?r = "r\<lparr>req_headers := (req_headers r)(k \<mapsto> v)\<rparr>"
  have "parse_bytes t True \<lparr>ctx_state = kExpectHeaders, ctx_request = r\<rparr>
      (concat (map header_line (h # hs)) @ kCRLF @ body) =
    parse_bytes t True \<lparr>ctx_state = kExpectHeaders, ctx_request = ?r\<rparr>
      (concat (map header_line hs) @ kCRLF @ body)"
    using list_step_header [OF wf(1), of t True r "concat (map header_line hs) @ kCRLF @ body"]
    by (subst parse_bytes.simps) (simp add: h del: header_line.simps)
  also have "\<dots> = Inr (True, \<lparr>ctx_state = kGotAll, ctx_request =
      ?r\<lparr>req_headers := req_headers ?r ++ map_of (rev hs),
        req_body := (if body = [] then req_body ?r else body)\<rparr>\<rparr>, [])"
    by (rule Cons.IH [OF wf(2)])
  also have "req_headers ?r ++ map_of (rev hs) = req_headers r ++ map_of (rev (h # hs))"
    using map_add_rev_Cons [of "req_headers r" k v hs] by (simp add: h)
  finally show ?case by simp
qed

section \<open>Prefixes of a message\<close>

lemma list_step_ok: "list_step t True c xs = Inr (True, ok', c', xs') \<Longrightarrow> ok'"
  by (auto simp: list_step_def Let_def result_simps split: parse_state.splits option.splits if_splits)

lemma parse_bytes_unfold:
  "list_step t ok c s = Inr (True, ok', c', s') \<Longrightarrow> parse_bytes t ok c s = parse_bytes t ok' c' s'"
  "list_step t ok c s = Inr (False, ok', c', s') \<Longrightarrow> parse_bytes t ok c s = Inr (ok', c', s')"
  "list_step t ok c s = Inl e \<Longrightarrow> parse_bytes t ok c s = Inl e"
  by (simp_all add: parse_bytes.simps [of t ok c])

text \<open>A failed assert and a rejected request line are decided by the first line alone.\<close>

lemma list_step_append_error:
  assumes "list_step t ok c xs = Inl e"
  shows "list_step t ok c (xs @ ys) = Inl e"
proof -
  from assms obtain i where i: "ctx_state c = kExpectRequestLine" "memmem xs kCRLF = Some i"
      "processRequestLine (take i xs) (ctx_request c) = Inl e"
    by (cases "ctx_state c") (auto simp: list_step_def Let_def bindR_eq_Inr bindR_eq_Inl split: option.splits if_splits)
  then show ?thesis
    using memmem_kCRLF_bound [OF i(2)] memmem_append [OF kCRLF_not_Nil i(2), of ys]
    by (simp add: list_step_def)
qed

lemma list_step_append_rejected:
  assumes "list_step t True c xs = Inr (False, False, c', xs')"
  shows "list_step t True c (xs @ ys) = Inr (False, False, c', xs' @ ys)"
proof -
  from assms obtain i r where i: "ctx_state c = kExpectRequestLine" "memmem xs kCRLF = Some i"
      "processRequestLine (take i xs) (ctx_request c) = Inr (False, r)"
      "c' = c\<lparr>ctx_request := r\<rparr>" "xs' = xs"
    by (cases "ctx_state c") (auto simp: list_step_def Let_def bindR_eq_Inr bindR_eq_Inl split: option.splits if_splits)
  then show ?thesis
    using memmem_kCRLF_bound [OF i(2)] memmem_append [OF kCRLF_not_Nil i(2), of ys]
    by (simp add: list_step_def)
qed

lemma parse_bytes_append_error:
  "parse_bytes t True c xs = Inl e \<Longrightarrow> parse_bytes t True c (xs @ ys) = Inl e"
proof (induction "length xs" arbitrary: c xs rule: less_induct)
  case less
  show ?case
  proof (cases "list_step t True c xs")
    case (Inl e')
    then show ?thesis
      using less.prems parse_bytes_unfold(3) list_step_append_error by (metis sum.inject(1))
  next
    case (Inr p)
    obtain m ok c' xs' where p: "p = (m, ok, c', xs')" by (cases p)
    with Inr less.prems have m: "m" by (cases m) (auto simp: parse_bytes_unfold)
    have st: "list_step t True c xs = Inr (True, True, c', xs')"
      using Inr p m list_step_ok by (cases ok) auto
    then have "parse_bytes t True c' (xs' @ ys) = Inl e"
      using less list_step_decreases [OF st] parse_bytes_unfold(1) by metis
    then show ?thesis using list_step_append [OF st, of ys] parse_bytes_unfold(1) by simp
  qed
qed

lemma parse_bytes_append_rejected:
  "parse_bytes t True c xs = Inr (False, c', rest) \<Longrightarrow>
   parse_bytes t True c (xs @ ys) = Inr (False, c', rest @ ys)"
proof (induction "length xs" arbitrary: c xs rule: less_induct)
  case less
  obtain m ok c1 xs1 where st: "list_step t True c xs = Inr (m, ok, c1, xs1)"
    using less.prems by (subst (asm) parse_bytes.simps) (auto split: sum.splits prod.splits)
  show ?case
  proof (cases m)
    case True
    with st list_step_ok have st: "list_step t True c xs = Inr (True, True, c1, xs1)" by (cases ok) auto
    then have "parse_bytes t True c1 (xs1 @ ys) = Inr (False, c', rest @ ys)"
      using less list_step_decreases [OF st] parse_bytes_unfold(1) by metis
    then show ?thesis using list_step_append [OF st, of ys] parse_bytes_unfold(1) by simp
  next
    case False
    with st less.prems have "list_step t True c xs = Inr (False, False, c', rest)"
      by (auto dest: parse_bytes_unfold(2))
    then show ?thesis using list_step_append_rejected parse_bytes_unfold(2) by metis
  qed
qed

lemma processRequestLine_body:
  assumes "processRequestLine line r = Inr (ok, r')"
  shows "req_body r' = req_body r \<and> req_headers r' = req_headers r"
proof -
  have sm: "setMethod m r = Inr (k, r1) \<Longrightarrow> req_body r1 = req_body r \<and> req_headers r1 = req_headers r"
    for m k r1 by (auto simp: setMethod_def Let_def result_simps)
  show ?thesis
    using assms
    by (auto simp: processRequestLine_def Let_def bindR_eq_Inr setVersion_def setPath_def setQuery_def
        split: if_splits dest!: sm)
qed

lemma list_step_body:
  assumes "list_step t ok c xs = Inr (True, ok', c', xs')"
  shows "req_body (ctx_request c') = req_body (ctx_request c)"
  using assms
  by (cases "ctx_state c") (auto simp: list_step_def Let_def bindR_eq_Inr setReceiveTime_def addHeader_def
      split: option.splits if_splits dest: processRequestLine_body)

lemma parse_bytes_not_body: "parse_bytes t ok c xs = Inr (ok', c', rest) \<Longrightarrow> ctx_state c' \<noteq> kExpectBody"
proof (induction "length xs" arbitrary: ok c xs rule: less_induct)
  case less
  obtain m ok1 c1 xs1 where st: "list_step t ok c xs = Inr (m, ok1, c1, xs1)"
    using less.prems by (subst (asm) parse_bytes.simps) (auto split: sum.splits prod.splits)
  show ?case
  proof (cases m)
    case True
    with st have st': "list_step t ok c xs = Inr (True, ok1, c1, xs1)" by simp
    then have "parse_bytes t ok1 c1 xs1 = Inr (ok', c', rest)"
      using less.prems by (simp add: parse_bytes_unfold(1) [OF st'])
    then show ?thesis by (rule less.hyps [OF list_step_decreases [OF st']])
  next
    case False
    with st less.prems have "list_step t ok c xs = Inr (False, ok', c', rest)"
      by (auto dest: parse_bytes_unfold(2))
    then show ?thesis
      by (cases "ctx_state c") (auto simp: list_step_def Let_def bindR_eq_Inr split: option.splits if_splits)
  qed
qed

text \<open>A message that completes a request makes all that follows it part of the body.\<close>

lemma parse_bytes_append_body:
  assumes "parse_bytes t True c xs = Inr (True, c', rest)" "ctx_state c \<noteq> kGotAll" "ctx_state c' = kGotAll"
    "req_body (ctx_request c) = ''''"
  shows "parse_bytes t True c (xs @ ys) =
      Inr (True, c'\<lparr>ctx_request := (ctx_request c')\<lparr>req_body := req_body (ctx_request c') @ ys\<rparr>\<rparr>, '''')"
  using assms
proof (induction "length xs" arbitrary: c xs rule: less_induct)
  case less
  obtain m ok c1 xs1 where st: "list_step t True c xs = Inr (m, ok, c1, xs1)"
    using less.prems by (subst (asm) parse_bytes.simps) (auto split: sum.splits prod.splits)
  show ?case
  proof (cases m)
    case True
    with st list_step_ok have st: "list_step t True c xs = Inr (True, True, c1, xs1)" by (cases ok) auto
    have body: "req_body (ctx_request c1) = ''''"
      using list_step_body [OF st] less.prems(4) by simp
    have "parse_bytes t True c1 xs1 = Inr (True, c', rest)"
      using st less.prems(1) parse_bytes_unfold(1) by metis
    from less.hyps [OF list_step_decreases [OF st] this list_step_not_gotAll [OF st] less.prems(3) body]
    show ?thesis using list_step_append [OF st, of ys] parse_bytes_unfold(1) by simp
  next
    case False
    with st less.prems(1) have "list_step t True c xs = Inr (False, True, c', rest)"
      by (auto dest: parse_bytes_unfold(2))
    with less.prems have "list_step t True c (xs @ ys) = Inr (False, True,
        c'\<lparr>ctx_request := (ctx_request c')\<lparr>req_body := req_body (ctx_request c') @ ys\<rparr>\<rparr>, '''')"
      by (cases "ctx_state c")
        (auto simp: list_step_def Let_def bindR_eq_Inr setBody_req_def split: option.splits if_splits)
    then show ?thesis by (rule parse_bytes_unfold(2))
  qed
qed

text \<open>A proper prefix of the head of a request is accepted and leaves the request open.\<close>

lemma parse_bytes_partial:
  assumes whole: "parse_bytes t True c (xs @ ys) = Inr (True, c', '''')"
    and c: "ctx_state c \<noteq> kGotAll" "req_body (ctx_request c) = ''''" 
    and short: "length (req_body (ctx_request c')) < length ys"
  shows "\<exists>c1 rest. parse_bytes t True c xs = Inr (True, c1, rest) \<and> \<not> gotAll c1 \<and>
    parse_bytes t True c1 (rest @ ys) = Inr (True, c', '''')"
proof (cases "parse_bytes t True c xs")
  case (Inl e)
  then show ?thesis using whole parse_bytes_append_error by fastforce
next
  case (Inr p)
  obtain ok c1 rest where p: "p = (ok, c1, rest)" by (cases p)
  have ok: ok using Inr p whole parse_bytes_append_rejected [of t c xs c1 rest ys] by (cases ok) auto
  have got: "\<not> gotAll c1"
  proof
    assume "gotAll c1"
    with Inr p ok whole c have "c' = c1\<lparr>ctx_request := (ctx_request c1)\<lparr>req_body := req_body (ctx_request c1) @ ys\<rparr>\<rparr>"
      using parse_bytes_append_body [of t c xs c1 rest ys] by (simp add: gotAll_def)
    then show False using short by simp
  qed
  have "ctx_state c1 \<noteq> kExpectBody" using parse_bytes_not_body Inr p by blast
  with got have "ctx_state c1 = kExpectRequestLine \<or> ctx_state c1 = kExpectHeaders"
    by (cases "ctx_state c1") (auto simp: gotAll_def)
  then show ?thesis using Inr p ok got whole parse_bytes_append [of t True c xs c1 rest ys] by auto
qed

section \<open>Properties of the parser\<close>

text \<open>The context at the start of a request, as the constructor and \<open>reset\<close> leave it.\<close>

lemma fresh_context: "reset_ctx c = HttpContext"
  by (simp add: reset_ctx_def HttpContext_def req_swap_def HttpRequest_def)

text \<open>The request that the parser delivers for the parts a client wrote.\<close>

definition request_of ::
  "timestamp \<Rightarrow> http_method \<Rightarrow> string \<Rightarrow> string \<Rightarrow> http_version \<Rightarrow> (string \<times> string) list \<Rightarrow> string \<Rightarrow>
   httpRequest" where
  "request_of t m path query v hdrs body =
     \<lparr>req_method = m, req_version = v, req_path = path, req_query = query, req_receiveTime = Some t,
      req_headers = map_of (rev hdrs), req_body = body\<rparr>"

lemma parse_request_text:
  assumes "m \<noteq> kInvalid" "v \<noteq> kUnknown" "wf_target path query" "list_all wf_header hdrs"
  shows "parse_bytes t True HttpContext (request_text m path query v hdrs body) =
    Inr (True, \<lparr>ctx_state = kGotAll, ctx_request = request_of t m path query v hdrs body\<rparr>, '''')"
proof -
  let ?line = "method_text m @ '' '' @ (path @ query) @ '' '' @ version_text v"
  let ?rest = "concat (map header_line hdrs) @ kCRLF @ body"
  let ?r = "HttpRequest\<lparr>req_method := m, req_path := path, req_version := v, req_query := query,
    req_receiveTime := Some t\<rparr>"
  have eq: "request_text m path query v hdrs body = ?line @ kCRLF @ ?rest"
    by (simp add: request_text_def)
  have cr: "CHR 0x0D \<notin> set ?line"
    using assms(3) method_text_no [of m] version_text_no [of v] by (simp add: wf_target_def)
  have mm: "memmem (?line @ kCRLF @ ?rest) kCRLF = Some (length ?line)" by (rule memmem_line [OF cr])
  note tk = take_line [of ?line "kCRLF @ ?rest"] and dp = drop_line [of ?line ?rest]
  have pl: "processRequestLine ?line HttpRequest = Inr (True, HttpRequest\<lparr>req_method := m, req_path := path,
      req_version := v, req_query := query\<rparr>)"
    using processRequestLine_ok [OF _ assms(1,2,3), of HttpRequest] by (simp add: HttpRequest_def)
  have "list_step t True HttpContext (?line @ kCRLF @ ?rest) =
      Inr (True, True, \<lparr>ctx_state = kExpectHeaders, ctx_request = ?r\<rparr>, ?rest)"
    unfolding list_step_def mm
    by (simp only: HttpContext_def httpContext.simps parse_state.case option.case tk dp pl bindR_simps
        prod.case if_True) (simp add: setReceiveTime_def)
  then have "parse_bytes t True HttpContext (request_text m path query v hdrs body) =
      parse_bytes t True \<lparr>ctx_state = kExpectHeaders, ctx_request = ?r\<rparr> ?rest"
    unfolding eq by (rule parse_bytes_unfold(1))
  then show ?thesis
    by (simp add: parse_headers [OF assms(4)] request_of_def HttpRequest_def)
qed

text \<open>C21. \<^verbatim>\<open>parseRequest\<close> returns on every well-formed buffer exactly if the context has not got a whole request
  yet; once the state is \<^verbatim>\<open>kGotAll\<close> and before \<^verbatim>\<open>reset\<close>, its loop never ends.\<close>

theorem parseRequest_terminates:
  assumes "buffer_inv b"
  shows "(\<exists>r. parseRequest b t c = Some r) \<longleftrightarrow> \<not> gotAll c"
  using parse_loop_refines [OF assms, of c t True] parse_loop_spins [of t True c b]
  by (auto simp: parseRequest_def gotAll_def)

theorem parseRequest_terminates_witness:
  "(\<exists>r. parseRequest \<lparr>vec = replicate 16 (CHR 0x00), readerIndex = 8, writerIndex = 8\<rparr> 7 HttpContext = Some r) \<and>
   parseRequest \<lparr>vec = replicate 16 (CHR 0x00), readerIndex = 8, writerIndex = 8\<rparr> 7
     \<lparr>ctx_state = kGotAll, ctx_request = HttpRequest\<rparr> = None"
proof -
  let ?b = "\<lparr>vec = replicate 16 (CHR 0x00), readerIndex = 8, writerIndex = 8\<rparr> :: buffer"
  have inv: "buffer_inv ?b" by (simp add: buffer_inv_def kCheapPrepend_def vec_max_def)
  show ?thesis
    using parseRequest_terminates [OF inv, of 7 HttpContext]
      parseRequest_terminates [OF inv, of 7 "\<lparr>ctx_state = kGotAll, ctx_request = HttpRequest\<rparr>"]
    by (simp add: gotAll_def HttpContext_def)
qed

text \<open>C20. Parsing the buffer computes what the specification computes on its readable bytes: the same verdict,
  context and failed asserts, and the bytes left in the buffer are those the specification leaves.\<close>

theorem parseRequest_refines:
  assumes "buffer_inv b" "\<not> gotAll c"
  shows "\<exists>r. parseRequest b t c = Some r \<and> abs_parse r = parse_bytes t True c (content b)"
  using parse_loop_refines [OF assms(1), of c t True] assms(2) by (auto simp: parseRequest_def gotAll_def)

theorem parseRequest_refines_witness:
  "\<exists>r. parseRequest \<lparr>vec = replicate 8 (CHR 0x00) @ ''GET / HTTP/1.1'', readerIndex = 8, writerIndex = 22\<rparr> 7 HttpContext
      = Some r \<and> abs_parse r = Inr (True, HttpContext, ''GET / HTTP/1.1'')"
proof -
  let ?b = "\<lparr>vec = replicate 8 (CHR 0x00) @ ''GET / HTTP/1.1'', readerIndex = 8, writerIndex = 22\<rparr> :: buffer"
  have inv: "buffer_inv ?b" by (simp add: buffer_inv_def kCheapPrepend_def vec_max_def)
  have "parse_bytes 7 True HttpContext ''GET / HTTP/1.1'' = Inr (True, HttpContext, ''GET / HTTP/1.1'')"
    by (simp add: parse_bytes.simps list_step_def HttpContext_def memmem.simps kCRLF_def)
  then show ?thesis
    using parseRequest_refines [OF inv, of HttpContext 7] by (simp add: content_def gotAll_def HttpContext_def)
qed

text \<open>C2. Round trip: a request that a client writes with a known method and version, a target without blanks
  and headers without surrounding blanks is parsed, in one delivery, into exactly these parts, and the
  buffer is left empty.  A later header of the same name replaces an earlier one.\<close>

theorem parseRequest_roundtrip:
  assumes "m \<noteq> kInvalid" "v \<noteq> kUnknown" "wf_target path query" "list_all wf_header hdrs"
    "buffer_inv b" "content b = request_text m path query v hdrs body"
  shows "\<exists>b'. parseRequest b t HttpContext =
      Some (Inr (True, \<lparr>ctx_state = kGotAll, ctx_request = request_of t m path query v hdrs body\<rparr>, b')) \<and>
    buffer_inv b' \<and> content b' = ''''"
proof -
  have "ctx_state HttpContext \<noteq> kGotAll" by (simp add: HttpContext_def)
  from parse_loop_refines [OF assms(5) this, of t True] obtain r where
    r: "parseRequest b t HttpContext = Some r" 
      "abs_parse r = parse_bytes t True HttpContext (request_text m path query v hdrs body)"
      "\<forall>ok' c' b'. r = Inr (ok', c', b') \<longrightarrow> buffer_inv b'"
    by (auto simp: parseRequest_def assms(6))
  then show ?thesis
    unfolding parse_request_text [OF assms(1-4)]
    by (cases r) (auto simp: abs_parse_def)
qed

theorem parseRequest_roundtrip_witness:
  "\<exists>b'. parseRequest \<lparr>vec = replicate 8 (CHR 0x00) @ ''POST /a?b HTTP/1.1'' @ kCRLF @ ''Host: x'' @ kCRLF @ kCRLF @ ''hi'',
      readerIndex = 8, writerIndex = 41\<rparr> 7 HttpContext =
    Some (Inr (True, \<lparr>ctx_state = kGotAll, ctx_request = request_of 7 kPost ''/a'' ''?b'' kHttp11 [(''Host'', ''x'')] ''hi''\<rparr>, b'))"
proof -
  let ?b = "\<lparr>vec = replicate 8 (CHR 0x00) @ ''POST /a?b HTTP/1.1'' @ kCRLF @ ''Host: x'' @ kCRLF @ kCRLF @ ''hi'',
      readerIndex = 8, writerIndex = 41\<rparr> :: buffer"
  have "buffer_inv ?b" "content ?b = request_text kPost ''/a'' ''?b'' kHttp11 [(''Host'', ''x'')] ''hi''"
    by (simp_all add: buffer_inv_def kCheapPrepend_def vec_max_def content_def request_text_def kCRLF_def)
  then show ?thesis
    using parseRequest_roundtrip [of kPost kHttp11 "''/a''" "''?b''" "[(''Host'', ''x'')]" ?b "''hi''" 7]
    by (auto simp: wf_target_def isspace_def)
qed



lemma abs_parse_Inl: "abs_parse r = Inl e \<longleftrightarrow> r = Inl e"
  by (cases r) (auto simp: abs_parse_def)

lemma parse_bytes_rejected:
  assumes "parse_bytes t True c s = Inr (False, c1, s1)" "ctx_state c = kExpectRequestLine"
  shows "\<exists>i r. memmem s kCRLF = Some i \<and> s1 = s \<and> c1 = c\<lparr>ctx_request := r\<rparr> \<and>
    processRequestLine (take i s) (ctx_request c) = Inr (False, r)"
proof -
  have hd: "parse_bytes t True c' s' \<noteq> Inr (False, c1, s1)" if "ctx_state c' = kExpectHeaders \<or> ctx_state c' = kExpectBody" for c' s'
    using that
  proof (induction "length s'" arbitrary: c' s' rule: less_induct)
    case less
    show ?case
    proof (cases "list_step t True c' s'")
      case (Inr p)
      obtain m ok c2 s2 where p: "p = (m, ok, c2, s2)" by (cases p)
      from Inr p less.prems have ok: "ok" "m \<Longrightarrow> ctx_state c2 = kExpectHeaders \<or> ctx_state c2 = kExpectBody"
        by (auto simp: list_step_def Let_def split: option.splits if_splits)
      show ?thesis
      proof (cases m)
        case True
        with Inr p ok have st: "list_step t True c' s' = Inr (True, True, c2, s2)" by simp
        show ?thesis
          using less.hyps [OF list_step_decreases [OF st] ok(2) [OF True]] parse_bytes_unfold(1) [OF st] by simp
      qed (use Inr p ok parse_bytes_unfold(2) [of t True c' s'] in auto)
    qed (simp add: parse_bytes_unfold(3))
  qed
  obtain m ok c2 s2 where st: "list_step t True c s = Inr (m, ok, c2, s2)"
    using assms(1) by (subst (asm) parse_bytes.simps) (auto split: sum.splits prod.splits)
  have "\<not> m"
  proof
    assume m
    with st list_step_ok have st: "list_step t True c s = Inr (True, True, c2, s2)" by (cases ok) auto
    then have "ctx_state c2 = kExpectHeaders"
      using assms(2) by (auto simp: list_step_def bindR_eq_Inr split: option.splits if_splits)
    then show False using hd [of c2 s2] parse_bytes_unfold(1) [OF st] assms(1) by simp
  qed
  with st assms(1) have "list_step t True c s = Inr (False, False, c1, s1)"
    using parse_bytes_unfold(2) [of t True c s] by auto
  then show ?thesis
    using assms(2) by (auto simp: list_step_def bindR_eq_Inr split: option.splits if_splits)
qed

text \<open>A request line that is rejected after its method was recognised leaves the method in the context and
  the line in the buffer: the next call of the parser fails the assert of \<^verbatim>\<open>setMethod\<close>.\<close>

theorem parseRequest_rejected_again:
  assumes "buffer_inv b" "ctx_state c = kExpectRequestLine" "req_method (ctx_request c) = kInvalid"
    "parseRequest b t c = Some (Inr (False, c1, b1))" "req_method (ctx_request c1) \<noteq> kInvalid"
  shows "content b1 = content b \<and> parseRequest b1 t' c1 = Some (Inl AssertFailed)"
proof -
  have st: "ctx_state c \<noteq> kGotAll" using assms(2) by simp
  have p: "parse_bytes t True c (content b) = Inr (False, c1, content b1)" and inv: "buffer_inv b1"
    using parse_loop_refines [OF assms(1) st, of t True] assms(4) by (auto simp: parseRequest_def)
  obtain i r where i: "memmem (content b) kCRLF = Some i" "content b1 = content b" "c1 = c\<lparr>ctx_request := r\<rparr>"
      "processRequestLine (take i (content b)) (ctx_request c) = Inr (False, r)"
    using parse_bytes_rejected [OF p assms(2)] by blast
  have "std_find (CHR '' '') (take i (content b)) \<noteq> length (take i (content b))"
    using i(3,4) assms(3,5) by (auto simp: processRequestLine_def Let_def)
  then have "processRequestLine (take i (content b)) r = Inl AssertFailed"
    using i(3) assms(5) by (simp add: processRequestLine_def Let_def setMethod_def)
  then have "parse_bytes t' True c1 (content b1) = Inl AssertFailed"
    using i assms(2) by (intro parse_bytes_unfold(3)) (simp add: list_step_def)
  moreover have "ctx_state c1 \<noteq> kGotAll" using i(3) assms(2) by simp
  ultimately show ?thesis
    using parse_loop_refines [OF inv, of c1 t' True] i(2)
    by (auto simp: parseRequest_def abs_parse_Inl)
qed

theorem parseRequest_rejected_again_witness:
  "\<exists>c1 b1. parseRequest \<lparr>vec = replicate 8 (CHR 0x00) @ ''GET /'' @ kCRLF, readerIndex = 8, writerIndex = 15\<rparr> 7 HttpContext =
      Some (Inr (False, c1, b1)) \<and> parseRequest b1 8 c1 = Some (Inl AssertFailed)"
proof -
  let ?b = "\<lparr>vec = replicate 8 (CHR 0x00) @ ''GET /'' @ kCRLF, readerIndex = 8, writerIndex = 15\<rparr> :: buffer"
  let ?c = "HttpContext\<lparr>ctx_request := HttpRequest\<lparr>req_method := kGet\<rparr>\<rparr>"
  have inv: "buffer_inv ?b" by (simp add: buffer_inv_def kCheapPrepend_def vec_max_def kCRLF_def)
  have "parseRequest ?b 7 HttpContext = Some (Inr (False, ?c, ?b))"
    by (simp add: parseRequest_def parse_loop.simps parse_step_def findCRLF_def mem_read_def peek_def
        beginWrite_def readableBytes_def kCRLF_def memmem.simps HttpContext_def HttpRequest_def
        processRequestLine_def std_find_def setMethod_def method_of_string_def)
  then show ?thesis
    using parseRequest_rejected_again [OF inv, of HttpContext 7 ?c ?b 8] by (auto simp: HttpContext_def HttpRequest_def)
qed

end
