(* ===== verification/Lute_HttpResponse.thy ===== *)
theory Lute_HttpResponse
  imports Lute_Buffer "HOL-Library.Char_ord" "HOL-Library.List_Lexorder"
begin

text \<open>
  HTTP responses: \<^verbatim>\<open>app/http/include/http/HttpResponse.h\<close> and \<^verbatim>\<open>app/http/src/HttpResponse.cc\<close>.  The
  \<^verbatim>\<open>std::map\<close> of headers is the list of its entries in the order of iteration, sorted by key.  A
  reference client that frames a response by its \<^verbatim>\<open>Content-Length\<close> reads back what the server wrote.
\<close>

section \<open>Responses\<close>

datatype http_status = st_kUnknown | k200Ok | k301MovedPermanently | k400BadRequest | k404NotFound

fun status_code :: "http_status \<Rightarrow> nat" where
  "status_code st_kUnknown = 0"
| "status_code k200Ok = 200"
| "status_code k301MovedPermanently = 301"
| "status_code k400BadRequest = 400"
| "status_code k404NotFound = 404"

record httpResponse =
  resp_headers :: "(string \<times> string) list"
  resp_statusCode :: http_status
  resp_statusMessage :: string
  resp_closeConnection :: bool
  resp_body :: string

definition HttpResponse :: "bool \<Rightarrow> httpResponse" where
  "HttpResponse close = \<lparr>resp_headers = [], resp_statusCode = st_kUnknown, resp_statusMessage = '''',
     resp_closeConnection = close, resp_body = ''''\<rparr>"

definition setStatusCode :: "http_status \<Rightarrow> httpResponse \<Rightarrow> httpResponse" where
  "setStatusCode code r = r\<lparr>resp_statusCode := code\<rparr>"

definition setStatusMessage :: "string \<Rightarrow> httpResponse \<Rightarrow> httpResponse" where
  "setStatusMessage message r = r\<lparr>resp_statusMessage := message\<rparr>"

definition setCloseConnection :: "bool \<Rightarrow> httpResponse \<Rightarrow> httpResponse" where
  "setCloseConnection on r = r\<lparr>resp_closeConnection := on\<rparr>"

text \<open>The subscript operator of \<^verbatim>\<open>std::map\<close>, assigned to: replace the value of the key or insert it in order.\<close>

fun map_set :: "string \<Rightarrow> string \<Rightarrow> (string \<times> string) list \<Rightarrow> (string \<times> string) list" where
  "map_set k v [] = [(k, v)]"
| "map_set k v ((k', v') # r) =
     (if k < k' then (k, v) # (k', v') # r
      else if k = k' then (k, v) # r
      else (k', v') # map_set k v r)"

definition addHeader_resp :: "string \<Rightarrow> string \<Rightarrow> httpResponse \<Rightarrow> httpResponse" where
  "addHeader_resp key val r = r\<lparr>resp_headers := map_set key val (resp_headers r)\<rparr>"

definition setContentType :: "string \<Rightarrow> httpResponse \<Rightarrow> httpResponse" where
  "setContentType contentType r = addHeader_resp ''Content-Type'' contentType r"

definition setBody_resp :: "string \<Rightarrow> httpResponse \<Rightarrow> httpResponse" where
  "setBody_resp body r = r\<lparr>resp_body := body\<rparr>"

text \<open>\<^verbatim>\<open>snprintf\<close> into a buffer of \<open>n\<close> bytes keeps the first \<open>n - 1\<close> characters.\<close>

definition snprintf :: "nat \<Rightarrow> string \<Rightarrow> string" where
  "snprintf n s = take (n - 1) s"

fun append_headers :: "(string \<times> string) list \<Rightarrow> buffer \<Rightarrow> buffer result" where
  "append_headers [] output = Inr output"
| "append_headers ((k, v) # hs) output =
     bindR (append_buf k output) (\<lambda>o1.
     bindR (append_buf '': '' o1) (\<lambda>o2.
     bindR (append_buf v o2) (\<lambda>o3.
     bindR (append_buf kCRLF o3) (append_headers hs))))"

definition appendToBuffer :: "httpResponse \<Rightarrow> buffer \<Rightarrow> buffer result" where
  "appendToBuffer r output =
     bindR (append_buf (snprintf 32 (''HTTP/1.1 '' @ dec (status_code (resp_statusCode r)) @ '' '')) output) (\<lambda>o1.
     bindR (append_buf (resp_statusMessage r) o1) (\<lambda>o2.
     bindR (append_buf kCRLF o2) (\<lambda>o3.
     bindR (if resp_closeConnection r then append_buf (''Connection: close'' @ kCRLF) o3
            else bindR (append_buf (snprintf 32 (''Content-Length: '' @ dec (length (resp_body r)) @ kCRLF)) o3)
                   (append_buf (''Connection: Keep-Alive'' @ kCRLF))) (\<lambda>o4.
     bindR (append_headers (resp_headers r) o4) (\<lambda>o5.
     bindR (append_buf kCRLF o5)
       (append_buf (resp_body r)))))))"

section \<open>The bytes of a response\<close>

fun header_text :: "string \<times> string \<Rightarrow> string" where
  "header_text (k, v) = k @ '': '' @ v @ kCRLF"

definition response_headers :: "httpResponse \<Rightarrow> (string \<times> string) list" where
  "response_headers r =
     (if resp_closeConnection r then [(''Connection'', ''close'')]
      else [(''Content-Length'', dec (length (resp_body r))), (''Connection'', ''Keep-Alive'')]) @
     resp_headers r"

definition status_line :: "httpResponse \<Rightarrow> string" where
  "status_line r = ''HTTP/1.1 '' @ dec (status_code (resp_statusCode r)) @ '' '' @ resp_statusMessage r"

definition response_text :: "httpResponse \<Rightarrow> string" where
  "response_text r =
     status_line r @ kCRLF @ concat (map header_text (response_headers r)) @ kCRLF @ resp_body r"

fun header_chunks :: "(string \<times> string) list \<Rightarrow> string list" where
  "header_chunks [] = []"
| "header_chunks ((k, v) # hs) = k # '': '' # v # kCRLF # header_chunks hs"

lemma append_headers_chunks: "append_headers hs = foldR append_buf (header_chunks hs)"
proof (induction hs rule: header_chunks.induct)
  case (2 k v hs)
  then show ?case by (intro ext) (simp add: foldR_fun del: foldR.simps)
qed auto

lemma concat_header_chunks: "concat (header_chunks hs) = concat (map header_text hs)"
  by (induction hs rule: header_chunks.induct) simp_all

text \<open>The chunks that \<open>appendToBuffer\<close> appends, in order; the formatted ones may be cut at 31 characters.\<close>

definition response_chunks :: "httpResponse \<Rightarrow> string list" where
  "response_chunks r =
     [snprintf 32 (''HTTP/1.1 '' @ dec (status_code (resp_statusCode r)) @ '' ''), resp_statusMessage r, kCRLF] @
     (if resp_closeConnection r then [''Connection: close'' @ kCRLF]
      else [snprintf 32 (''Content-Length: '' @ dec (length (resp_body r)) @ kCRLF), ''Connection: Keep-Alive'' @ kCRLF]) @
     header_chunks (resp_headers r) @ [kCRLF, resp_body r]"

lemma appendToBuffer_chunks: "appendToBuffer r b = foldR append_buf (response_chunks r) b"
  by (simp add: appendToBuffer_def response_chunks_def append_headers_chunks foldR_fun bindR_assoc del: foldR.simps append_Cons)

lemma status_code_length: "length (dec (status_code s)) \<le> 3"
  by (rule dec_length) (cases s; simp)+

lemma response_chunks_text:
  assumes "length (resp_body r) < 10 ^ 13"
  shows "concat (response_chunks r) = response_text r"
proof -
  have "length (dec (length (resp_body r))) \<le> 13" using dec_length [OF assms] by simp
  then have "snprintf 32 (''Content-Length: '' @ dec (length (resp_body r)) @ kCRLF) =
      ''Content-Length: '' @ dec (length (resp_body r)) @ kCRLF"
    by (simp add: snprintf_def kCRLF_def)
  moreover have "snprintf 32 (''HTTP/1.1 '' @ dec (status_code (resp_statusCode r)) @ '' '') =
      ''HTTP/1.1 '' @ dec (status_code (resp_statusCode r)) @ '' ''"
    using status_code_length [of "resp_statusCode r"] by (simp add: snprintf_def)
  ultimately show ?thesis
    by (simp add: response_chunks_def response_text_def response_headers_def status_line_def
        concat_header_chunks)
qed

lemma appendToBuffer_ok:
  assumes "buffer_inv b" "length (resp_body r) < 10 ^ 13" "used_bytes b + length (response_text r) \<le> vec_max"
  shows "\<exists>b'. appendToBuffer r b = Inr b' \<and> buffer_inv b' \<and> content b' = content b @ response_text r"
  using buffer_queue.app_all [OF assms(1), of "response_chunks r"] assms(2,3)
  by (auto simp: response_chunks_text appendToBuffer_chunks)

section \<open>The headers are a map in key order\<close>

lemma map_set_keys: "fst ` set (map_set k v m) = insert k (fst ` set m)"
  by (induction k v m rule: map_set.induct) auto

lemma map_set_sorted: "sorted (map fst m) \<Longrightarrow> distinct (map fst m) \<Longrightarrow>
  sorted (map fst (map_set k v m)) \<and> distinct (map fst (map_set k v m))"
proof (induction k v m rule: map_set.induct)
  case (2 k v k' v' r)
  then have IH: "\<not> k < k' \<Longrightarrow> k \<noteq> k' \<Longrightarrow>
      sorted (map fst (map_set k v r)) \<and> distinct (map fst (map_set k v r))" by simp
  have keys: "fst ` set (map_set k v r) = insert k (fst ` set r)" by (rule map_set_keys)
  show ?case
  proof (cases "k < k'")
    case True
    with "2.prems" show ?thesis by (auto simp: order.order_iff_strict dest: order.strict_trans2)
  next
    case False
    then show ?thesis
    proof (cases "k = k'")
      case True
      with "2.prems" show ?thesis by simp
    next
      case False
      with \<open>\<not> k < k'\<close> have "k' < k" by simp
      with keys have "\<forall>y \<in> fst ` set (map_set k v r). k' \<le> y \<and> y \<noteq> k'"
        using "2.prems" by auto
      with IH [OF \<open>\<not> k < k'\<close> False] False \<open>\<not> k < k'\<close> show ?thesis by fastforce
    qed
  qed
qed simp

lemma map_of_map_set: "map_of (map_set k v m) = (map_of m)(k \<mapsto> v)"
  by (induction k v m rule: map_set.induct) (auto simp: fun_upd_twist)

section \<open>A reference client\<close>

text \<open>Header lines up to an empty line, each cut at its first colon and the blank behind it.\<close>

function read_headers :: "string \<Rightarrow> ((string \<times> string) list \<times> string) option" where
  "read_headers s =
     (case memmem s kCRLF of
        None \<Rightarrow> None
      | Some i \<Rightarrow>
          if i = 0 then Some ([], drop 2 s)
          else let line = take i s; colon = length (takeWhile (\<lambda>c. c \<noteq> CHR '':'') line)
               in map_option (\<lambda>(hs, rest). ((take colon line, drop (colon + 2) line) # hs, rest))
                    (read_headers (drop (i + 2) s)))"
  by pat_completeness auto
termination
  by (relation "measure length") (auto dest!: memmem_kCRLF_bound)

declare read_headers.simps [simp del]

text \<open>The status line, the headers, and as many bytes of body as \<^verbatim>\<open>Content-Length\<close> says; what follows
  belongs to the next response.\<close>

definition read_response :: "string \<Rightarrow> (string \<times> (string \<times> string) list \<times> string \<times> string) option" where
  "read_response s =
     (case memmem s kCRLF of
        None \<Rightarrow> None
      | Some i \<Rightarrow>
          case read_headers (drop (i + 2) s) of
            None \<Rightarrow> None
          | Some (hs, rest) \<Rightarrow>
              case map_of hs ''Content-Length'' of
                None \<Rightarrow> None
              | Some n \<Rightarrow> Some (take i s, hs, take (undec n) rest, drop (undec n) rest))"

fun wf_resp_header :: "string \<times> string \<Rightarrow> bool" where
  "wf_resp_header (k, v) \<longleftrightarrow> CHR '':'' \<notin> set k \<and> CHR 0x0D \<notin> set k \<and> CHR 0x0D \<notin> set v"

lemma read_headers_text:
  assumes "list_all wf_resp_header hs"
  shows "read_headers (concat (map header_text hs) @ kCRLF @ rest) = Some (hs, rest)"
  using assms
proof (induction hs)
  case Nil
  show ?case using memmem_line [of "[]" rest] by (subst read_headers.simps) (simp add: kCRLF_def)
next
  case (Cons h hs)
  obtain k v where h: "h = (k, v)" by (cases h)
  let ?line = "k @ '': '' @ v" and ?rest = "concat (map header_text hs) @ kCRLF @ rest"
  have cr: "CHR 0x0D \<notin> set ?line" and c: "CHR '':'' \<notin> set k" using Cons.prems h by auto
  have eq: "concat (map header_text (h # hs)) @ kCRLF @ rest = ?line @ kCRLF @ ?rest" by (simp add: h)
  have colon: "length (takeWhile (\<lambda>c. c \<noteq> CHR '':'') ?line) = length k"
    using c by (subst takeWhile_append2) auto
  have IH: "read_headers ?rest = Some (hs, rest)" using Cons by simp
  show ?case
    unfolding eq
    by (subst read_headers.simps) (simp only: memmem_line [OF cr] option.case Let_def take_line drop_line
        colon IH option.map prod.case, simp add: h)
qed


lemma read_response_text:
  assumes "\<not> resp_closeConnection r" "CHR 0x0D \<notin> set (resp_statusMessage r)"
    "list_all wf_resp_header (resp_headers r)"
  shows "read_response (response_text r @ follow) = Some (status_line r, response_headers r, resp_body r, follow)"
proof -
  let ?rest = "concat (map header_text (response_headers r)) @ kCRLF @ resp_body r @ follow"
  have eq: "response_text r @ follow = status_line r @ kCRLF @ ?rest" by (simp add: response_text_def)
  have cr: "CHR 0x0D \<notin> set (status_line r)" using assms(2) dec_no_cr by (simp add: status_line_def)
  have "list_all wf_resp_header (response_headers r)"
    using assms(1,3) dec_no_cr by (simp add: response_headers_def)
  then have rh: "read_headers ?rest = Some (response_headers r, resp_body r @ follow)"
    by (rule read_headers_text)
  have len: "map_of (response_headers r) ''Content-Length'' = Some (dec (length (resp_body r)))"
    using assms(1) by (simp add: response_headers_def)
  show ?thesis
    unfolding eq read_response_def
    by (simp only: memmem_line [OF cr] option.case take_line drop_line rh prod.case len undec_dec) simp
qed

section \<open>Properties of responses\<close>

text \<open>C27. Round trip: the bytes that \<^verbatim>\<open>appendToBuffer\<close> writes for a keep-alive response are read back by a client
  that frames by \<^verbatim>\<open>Content-Length\<close> into the status line, the headers in key order and exactly the body,
  also when the bytes of the next response follow, and appending fails no assert.\<close>

theorem response_roundtrip:
  assumes "buffer_inv b" "content b = ''''" "length (resp_body r) < 10 ^ 13"
    "used_bytes b + length (response_text r) \<le> vec_max"
    "\<not> resp_closeConnection r" "CHR 0x0D \<notin> set (resp_statusMessage r)"
    "list_all wf_resp_header (resp_headers r)"
  shows "\<exists>b'. appendToBuffer r b = Inr b' \<and>
    read_response (content b' @ follow) = Some (status_line r, response_headers r, resp_body r, follow)"
  using appendToBuffer_ok [OF assms(1,3,4)] read_response_text [OF assms(5,6,7), of follow] assms(2) by auto

theorem response_roundtrip_witness:
  "\<exists>b'. appendToBuffer (setBody_resp ''hello'' (setContentType ''text/plain''
        (setStatusMessage ''OK'' (setStatusCode k200Ok (HttpResponse False)))))
      \<lparr>vec = replicate 16 (CHR 0x00), readerIndex = 8, writerIndex = 8\<rparr> = Inr b' \<and>
    read_response (content b' @ ''HTTP'') = Some (''HTTP/1.1 200 OK'',
      [(''Content-Length'', ''5''), (''Connection'', ''Keep-Alive''), (''Content-Type'', ''text/plain'')], ''hello'', ''HTTP'')"
proof -
  let ?r = "setBody_resp ''hello'' (setContentType ''text/plain''
    (setStatusMessage ''OK'' (setStatusCode k200Ok (HttpResponse False))))"
  let ?b = "\<lparr>vec = replicate 16 (CHR 0x00), readerIndex = 8, writerIndex = 8\<rparr> :: buffer"
  note defs = setBody_resp_def setContentType_def setStatusMessage_def setStatusCode_def HttpResponse_def
    addHeader_resp_def
  have d: "dec 200 = ''200''" "dec (length ''hello'') = ''5''" by code_simp+
  have inv: "buffer_inv ?b" "content ?b = ''''"
    by (simp_all add: buffer_inv_def kCheapPrepend_def vec_max_def content_def)
  have room: "used_bytes ?b + length (response_text ?r) \<le> vec_max"
    by (simp add: used_bytes_def kCheapPrepend_def vec_max_def response_text_def status_line_def
        response_headers_def defs d [simplified] kCRLF_def)
  have out: "status_line ?r = ''HTTP/1.1 200 OK''" "response_headers ?r =
      [(''Content-Length'', ''5''), (''Connection'', ''Keep-Alive''), (''Content-Type'', ''text/plain'')]"
      "resp_body ?r = ''hello''"
    by (simp_all add: status_line_def response_headers_def defs d [simplified])
  have "length (resp_body ?r) < 10 ^ 13" "\<not> resp_closeConnection ?r" "CHR 0x0D \<notin> set (resp_statusMessage ?r)"
    "list_all wf_resp_header (resp_headers ?r)" by (simp_all add: defs)
  from response_roundtrip [OF inv this(1) room this(2-4), of "''HTTP''"] show ?thesis unfolding out .
qed

text \<open>Whatever headers a handler adds to a fresh response, the response holds one line per name, in key order,
  with the value that was added last.\<close>

theorem response_headers_map:
  "let r = fold (\<lambda>(k, v). addHeader_resp k v) hs (HttpResponse close)
   in sorted (map fst (resp_headers r)) \<and> distinct (map fst (resp_headers r)) \<and>
      map_of (resp_headers r) = map_of (rev hs)"
proof -
  have "sorted (map fst (resp_headers (fold (\<lambda>(k, v). addHeader_resp k v) hs r))) \<and>
    distinct (map fst (resp_headers (fold (\<lambda>(k, v). addHeader_resp k v) hs r))) \<and>
    map_of (resp_headers (fold (\<lambda>(k, v). addHeader_resp k v) hs r)) = map_of (resp_headers r) ++ map_of (rev hs)"
    if "sorted (map fst (resp_headers r))" "distinct (map fst (resp_headers r))" for r
    using that
  proof (induction hs arbitrary: r)
    case (Cons h hs)
    obtain k v where h: "h = (k, v)" by (cases h)
    let ?r = "addHeader_resp k v r"
    have resp: "resp_headers ?r = map_set k v (resp_headers r)" by (simp add: addHeader_resp_def)
    have "sorted (map fst (resp_headers ?r))" "distinct (map fst (resp_headers ?r))"
      using map_set_sorted [OF Cons.prems] by (simp_all add: addHeader_resp_def)
    note IH = Cons.IH [OF this]
    have "map_of (resp_headers ?r) ++ map_of (rev hs) = map_of (resp_headers r) ++ map_of (rev (h # hs))"
      using map_add_rev_Cons [of "map_of (resp_headers r)" k v hs]
      by (simp only: resp map_of_map_set h rev.simps)
    with IH show ?case by (simp only: fold.simps comp_apply h prod.case)
  qed simp
  from this [of "HttpResponse close"] show ?thesis by (simp add: HttpResponse_def Let_def)
qed

end
