(* ===== verification/Lute_HttpServer.thy ===== *)
theory Lute_HttpServer
  imports Lute_TCPConnection Lute_HttpContext Lute_HttpResponse
begin

text \<open>
  The HTTP server, \<^verbatim>\<open>app/http/src/HttpServer.cc\<close>: the callbacks it gives to its connections.  A connection
  carries its parsing context as a \<^verbatim>\<open>Lute::any\<close>, here an optional context; the user's \<^verbatim>\<open>HttpCallback\<close> is a
  parameter, a fallible function that fills the response and changes the state \<open>h_user\<close> of the user's own code.  The lemmas compose the parser, the responses and the connection: which bytes a client gets
  for the bytes it sends.
\<close>

record ('k, 'u) http_conn = "'k tcp" +
  h_context :: "httpContext option"
  h_user :: 'u

type_synonym 'u httpCallback = "httpRequest \<Rightarrow> httpResponse \<Rightarrow> 'u \<Rightarrow> (httpResponse \<times> 'u) result"

definition defaultHttpCallback :: "'u httpCallback" where
  "defaultHttpCallback req resp u =
     Inr (setCloseConnection True (setStatusMessage ''Not Found'' (setStatusCode k404NotFound resp)), u)"

definition onConnection :: "('k, 'u, 'z) http_conn_scheme \<Rightarrow> ('k, 'u, 'z) http_conn_scheme result" where
  "onConnection w = Inr (if connected w then w\<lparr>h_context := Some HttpContext\<rparr> else w)"

definition wants_close :: "httpRequest \<Rightarrow> bool" where
  "wants_close req \<longleftrightarrow>
     (let connection = getHeader ''Connection'' req
      in connection = ''close'' \<or> req_version req = kHttp10 \<and> connection \<noteq> ''Keep-Alive'')"

definition onRequest ::
  "'k kernel \<Rightarrow> ('k, 'u, 'z) http_conn_scheme conn_callbacks \<Rightarrow> 'u httpCallback \<Rightarrow> httpRequest \<Rightarrow>
   ('k, 'u, 'z) http_conn_scheme \<Rightarrow> ('k, 'u, 'z) http_conn_scheme result" where
  "onRequest K cbs httpCallback req w =
     bindR (httpCallback req (HttpResponse (wants_close req)) (h_user w)) (\<lambda>(response, u).
     bindR (Buffer kInitialSize) (\<lambda>buf.
     bindR (appendToBuffer response buf) (\<lambda>buf1.
     bindR (send_buffer K cbs buf1 (w\<lparr>h_user := u\<rparr>)) (\<lambda>(buf2, w1).
       if resp_closeConnection response then shutdown w1 else Inr w1))))"

definition bad_request_text :: string where
  "bad_request_text = ''HTTP/1.1 400 Bad Request'' @ kCRLF @ kCRLF"

definition onMessage ::
  "'k kernel \<Rightarrow> ('k, 'u, 'z) http_conn_scheme conn_callbacks \<Rightarrow> 'u httpCallback \<Rightarrow> timestamp \<Rightarrow>
   ('k, 'u, 'z) http_conn_scheme \<Rightarrow> ('k, 'u, 'z) http_conn_scheme result" where
  "onMessage K cbs httpCallback receiveTime w =
     (case h_context w of
        None \<Rightarrow> Inl NullDeref
      | Some context \<Rightarrow>
          (case parseRequest (c_inputBuffer w) receiveTime context of
             None \<Rightarrow> Inl Diverges
           | Some parsed \<Rightarrow>
               bindR parsed (\<lambda>(ok, context1, buf).
               let w1 = w\<lparr>c_inputBuffer := buf, h_context := Some context1\<rparr>
               in bindR (if \<not> ok then bindR (send K cbs bad_request_text w1) shutdown else Inr w1) (\<lambda>w2.
                  if gotAll context1
                  then bindR (onRequest K cbs httpCallback (ctx_request context1) w2) (\<lambda>w3.
                         Inr (w3\<lparr>h_context := Some (reset_ctx context1)\<rparr>))
                  else Inr w2))))"

text \<open>The callbacks that the server's connections get; \<open>close\<close> is the server's own.\<close>

definition http_callbacks ::
  "'k kernel \<Rightarrow> 'u httpCallback \<Rightarrow> (('k, 'u, 'z) http_conn_scheme \<Rightarrow> ('k, 'u, 'z) http_conn_scheme result) \<Rightarrow>
   ('k, 'u, 'z) http_conn_scheme conn_callbacks" where
  "http_callbacks K httpCallback close =
     \<lparr>connectionCallback = Some onConnection,
      messageCallback = Some (onMessage K \<lparr>connectionCallback = None, messageCallback = None,
        writeCompleteCallback = None, highWaterMarkCallback = None, conn_closeCallback = None\<rparr> httpCallback),
      writeCompleteCallback = None, highWaterMarkCallback = None, conn_closeCallback = Some close\<rparr>"

section \<open>Replies\<close>

text \<open>A message that may have been lost only because the peer is gone: the kernel refused the write with \<^verbatim>\<open>EPIPE\<close> or
  \<^verbatim>\<open>ECONNRESET\<close>.\<close>

definition replied :: "'k kernel \<Rightarrow> byte list \<Rightarrow> ('k, 'z) conn \<Rightarrow> ('k, 'z) conn \<Rightarrow> bool" where
  "replied K message w w' \<longleftrightarrow> c_accepted w' = c_accepted w @ message \<or>
     c_accepted w' = c_accepted w \<and> peer_gone K message w"

lemma send_connected:
  assumes "kernel_contract K interest" "conn_inv interest w" "c_state w = kConnected" "out_room message w"
  shows "\<exists>w'. sendInLoop K cbs message w = Inr w' \<and> send K cbs message w = Inr w' \<and> conn_inv interest w' \<and>
    replied K message w w' \<and> same_conn w w'"
proof -
  have "up w" using assms(3) by (simp add: up_def)
  from sendInLoop_ok [OF assms(1,2) this assms(4), of cbs] show ?thesis
    using assms(3) conn_invD(2) [OF assms(2)] by (auto simp: send_def replied_def peer_gone_def)
qed

lemma send_buffer_connected:
  assumes "kernel_contract K interest" "conn_inv interest w" "c_state w = kConnected" "buffer_inv buf" "out_room (content buf) w"
  shows "\<exists>w'. send_buffer K cbs buf w = Inr (retrieveAll buf, w') \<and> conn_inv interest w' \<and>
    replied K (content buf) w w' \<and> same_conn w w'"
  using send_connected [OF assms(1,2,3,5), of cbs] conn_invD(2) [OF assms(2)] assms(3)
  by (auto simp: send_buffer_def mem_read_all_content [OF assms(4)] peek_def)

lemma input_inv:
  assumes "conn_inv interest w" "buffer_inv b"
  shows "conn_inv interest (w\<lparr>c_inputBuffer := b, h_context := c, h_user := u\<rparr>)"
  by (rule conn_inv_input [OF assms(1)]) (use assms(2) in simp_all)

lemma user_inv: "conn_inv interest w \<Longrightarrow> conn_inv interest (w\<lparr>h_user := u\<rparr>)"
  using input_inv [of interest w "c_inputBuffer w" u "h_context w"] conn_invD(3) [of interest w] by simp

text \<open>The handler \<open>f\<close> answers the request \<open>req\<close> with \<open>response\<close>.\<close>

definition answers :: "'u httpCallback \<Rightarrow> httpRequest \<Rightarrow> 'u \<Rightarrow> httpResponse \<Rightarrow> 'u \<Rightarrow> bool" where
  "answers f req u response u' \<longleftrightarrow> f req (HttpResponse (wants_close req)) u = Inr (response, u')"

text \<open>What a handler must respect so that the answer fits into memory.\<close>

definition response_fits :: "httpResponse \<Rightarrow> ('k, 'z) conn \<Rightarrow> bool" where
  "response_fits r w \<longleftrightarrow> length (resp_body r) < 10 ^ 13 \<and> 8 + length (response_text r) \<le> vec_max \<and> out_room (response_text r) w"

lemma onRequest_ok:
  assumes K: "kernel_contract K interest" and inv: "conn_inv interest w" and st: "c_state w = kConnected"
    and response: "answers f req (h_user w) response u" and fits: "response_fits response w"
  shows "\<exists>w'. onRequest K cbs f req w = Inr w' \<and> conn_inv interest w' \<and> replied K (response_text response) w w' \<and>
    c_state w' = (if resp_closeConnection response then kDisconnecting else kConnected) \<and>
    c_inputBuffer w' = c_inputBuffer w \<and> tcp.more w' = tcp.more (w\<lparr>h_user := u\<rparr>)"
proof -
  let ?w = "w\<lparr>h_user := u\<rparr>"
  have wi: "conn_inv interest ?w" "c_state ?w = kConnected" using user_inv [OF inv] st by simp_all
  have r: "length (resp_body response) < 10 ^ 13" "8 + length (response_text response) \<le> vec_max"
      "out_room (response_text response) ?w" using fits by (simp_all add: response_fits_def out_room_def)
  obtain b where b: "Buffer kInitialSize = Inr b" "buffer_inv b" "content b = []" "writerIndex b = 8"
    using Buffer_ok [of kInitialSize] by (auto simp: kInitialSize_def vec_max_def)
  then have "used_bytes b + length (response_text response) \<le> vec_max"
    using r(2) by (simp add: used_bytes_def kCheapPrepend_def)
  from appendToBuffer_ok [OF b(2) r(1) this] b(3) obtain b' where
    b': "appendToBuffer response b = Inr b'" "buffer_inv b'" "content b' = response_text response" by auto
  obtain w1 where w1: "send_buffer K cbs b' ?w = Inr (retrieveAll b', w1)" "conn_inv interest w1"
      "replied K (response_text response) ?w w1" "same_conn ?w w1"
    using send_buffer_connected [OF K wi b'(2), of cbs] r(3) b'(3) by auto
  have e: "onRequest K cbs f req w = (if resp_closeConnection response then shutdown w1 else Inr w1)"
    using b(1) b'(1) w1(1) by (simp add: onRequest_def response [unfolded answers_def])
  have s: "c_state w1 = kConnected" "c_inputBuffer w1 = c_inputBuffer w" "tcp.more w1 = tcp.more ?w"
    using w1(4) st by (auto simp: same_conn_def)
  show ?thesis
  proof (cases "resp_closeConnection response")
    case True
    then show ?thesis using e s w1(3) shutdown_ok [OF w1(2)] by (auto simp: replied_def peer_gone_def)
  next
    case False
    then show ?thesis using e s w1(2,3) by (auto simp: replied_def peer_gone_def)
  qed
qed

text \<open>One call of \<^verbatim>\<open>onMessage\<close>, by what the specification of the parser says of the readable bytes.\<close>

lemma parse_buffer:
  assumes "buffer_inv b" "\<not> gotAll c" "parse_bytes t True c (content b) = Inr (ok, c', rest)"
  shows "\<exists>b'. parseRequest b t c = Some (Inr (ok, c', b')) \<and> buffer_inv b' \<and> content b' = rest"
proof -
  from parse_loop_refines [OF assms(1), of c t True] assms(2) obtain r where
    r: "parseRequest b t c = Some r" "abs_parse r = parse_bytes t True c (content b)"
      "\<forall>ok' c' b'. r = Inr (ok', c', b') \<longrightarrow> buffer_inv b'"
    by (auto simp: parseRequest_def gotAll_def)
  then show ?thesis using assms(3) by (cases r) (auto simp: abs_parse_def)
qed

lemma onMessage_waits:
  assumes inv: "conn_inv interest w" and c: "h_context w = Some c" "\<not> gotAll c"
    and p: "parse_bytes t True c (content (c_inputBuffer w)) = Inr (True, c', rest)" "\<not> gotAll c'"
  shows "\<exists>w'. onMessage K cbs f t w = Inr w' \<and> conn_inv interest w' \<and> h_context w' = Some c' \<and>
    content (c_inputBuffer w') = rest \<and> c_accepted w' = c_accepted w \<and> c_state w' = c_state w \<and> h_user w' = h_user w"
proof -
  obtain b where b: "parseRequest (c_inputBuffer w) t c = Some (Inr (True, c', b))" "buffer_inv b" "content b = rest"
    using parse_buffer [OF conn_invD(3) [OF inv] c(2) p(1)] by blast
  show ?thesis using b c p(2) input_inv [OF inv b(2), of "h_user w" "Some c'"] by (simp add: onMessage_def)
qed

lemma onMessage_replies:
  assumes K: "kernel_contract K interest" and inv: "conn_inv interest w" and st: "c_state w = kConnected"
    and c: "h_context w = Some c" "\<not> gotAll c"
    and p: "parse_bytes t True c (content (c_inputBuffer w)) = Inr (True, c', rest)" "gotAll c'"
    and r: "answers f (ctx_request c') (h_user w) response u" "response_fits response w"
  shows "\<exists>w'. onMessage K cbs f t w = Inr w' \<and> conn_inv interest w' \<and> h_context w' = Some HttpContext \<and>
    content (c_inputBuffer w') = rest \<and> replied K (response_text response) w w' \<and>
    c_state w' = (if resp_closeConnection response then kDisconnecting else kConnected) \<and> h_user w' = u"
proof -
  obtain b where b: "parseRequest (c_inputBuffer w) t c = Some (Inr (True, c', b))" "buffer_inv b" "content b = rest"
    using parse_buffer [OF conn_invD(3) [OF inv] c(2) p(1)] by blast
  let ?w = "w\<lparr>c_inputBuffer := b, h_context := Some c'\<rparr>"
  have i: "conn_inv interest ?w" using input_inv [OF inv b(2), of "h_user w" "Some c'"] by simp
  have s: "c_state ?w = kConnected" "answers f (ctx_request c') (h_user ?w) response u" "response_fits response ?w" using st r by (simp_all add: response_fits_def out_room_def)
  obtain w1 where w1: "onRequest K cbs f (ctx_request c') ?w = Inr w1" "conn_inv interest w1"
      "replied K (response_text response) ?w w1"
      "c_state w1 = (if resp_closeConnection response then kDisconnecting else kConnected)"
      "c_inputBuffer w1 = c_inputBuffer ?w" "tcp.more w1 = tcp.more (?w\<lparr>h_user := u\<rparr>)"
    using onRequest_ok [OF K i s, of cbs] by blast
  let ?v = "w1\<lparr>h_context := Some HttpContext\<rparr>"
  have e: "reset_ctx c' = HttpContext" by (simp add: reset_ctx_def HttpContext_def req_swap_def HttpRequest_def)
  have "onMessage K cbs f t w = Inr ?v" using b(1) c(1) p(2) w1(1) e by (simp add: onMessage_def)
  moreover have "conn_inv interest ?v"
    using input_inv [OF w1(2) conn_invD(3) [OF w1(2)], of "h_user w1" "Some HttpContext"] by simp
  moreover have "h_user w1 = u" using w1(6) by (cases w1, cases w) simp
  ultimately show ?thesis using w1(3,4,5) b(3) by (intro exI [of _ ?v]) (simp add: replied_def peer_gone_def)
qed


lemma onMessage_rejects:
  assumes K: "kernel_contract K interest" and inv: "conn_inv interest w" and st: "c_state w = kConnected"
    and c: "h_context w = Some c" "\<not> gotAll c" and room: "out_room bad_request_text w"
    and p: "parse_bytes t True c (content (c_inputBuffer w)) = Inr (False, c', rest)" "\<not> gotAll c'"
  shows "\<exists>w'. onMessage K cbs f t w = Inr w' \<and> conn_inv interest w' \<and> h_context w' = Some c' \<and>
    content (c_inputBuffer w') = rest \<and> replied K bad_request_text w w' \<and> c_state w' = kDisconnecting"
proof -
  obtain b where b: "parseRequest (c_inputBuffer w) t c = Some (Inr (False, c', b))" "buffer_inv b" "content b = rest"
    using parse_buffer [OF conn_invD(3) [OF inv] c(2) p(1)] by blast
  let ?w = "w\<lparr>c_inputBuffer := b, h_context := Some c'\<rparr>"
  have s: "c_state ?w = kConnected" "out_room bad_request_text ?w" using st room by (simp_all add: out_room_def)
  obtain w1 where w1: "send K cbs bad_request_text ?w = Inr w1" "conn_inv interest w1" "replied K bad_request_text ?w w1"
      "same_conn ?w w1"
    using send_connected [OF K _ s, of cbs] input_inv [OF inv b(2), of "h_user w" "Some c'"] by auto
  have s1: "c_state w1 = kConnected" "c_inputBuffer w1 = b" "tcp.more w1 = tcp.more ?w"
    using w1(4) st by (auto simp: same_conn_def)
  obtain w2 where w2: "shutdown w1 = Inr w2" "conn_inv interest w2" "c_accepted w2 = c_accepted w1"
      "c_state w2 = kDisconnecting" "c_inputBuffer w2 = b" "tcp.more w2 = tcp.more ?w"
    using shutdown_ok [OF w1(2)] s1 by auto
  have "h_context w2 = Some c'" using w2(6) by (cases w2, cases w) simp
  then show ?thesis using b(1,3) c(1) p(2) w1(1,3) w2 by (intro exI [of _ w2]) (simp add: onMessage_def replied_def peer_gone_def)
qed

section \<open>The time of receipt\<close>

text \<open>The time is stored with the request line only.\<close>

lemma parse_bytes_time:
  "ctx_state c \<noteq> kExpectRequestLine \<Longrightarrow> parse_bytes t ok c s = parse_bytes t' ok c s"
proof (induction "length s" arbitrary: ok c s rule: less_induct)
  case less
  have eq: "list_step t ok c s = list_step t' ok c s"
    using less.prems by (auto simp: list_step_def split: parse_state.splits)
  show ?case
  proof (cases "list_step t ok c s")
    case (Inr p)
    obtain m ok' c' s' where p: "p = (m, ok', c', s')" by (cases p)
    show ?thesis
    proof (cases m)
      case True
      with Inr p have st: "list_step t ok c s = Inr (True, ok', c', s')" by simp
      have "ctx_state c' \<noteq> kExpectRequestLine"
        using st less.prems by (auto simp: list_step_def Let_def split: parse_state.splits option.splits if_splits)
      then show ?thesis
        using less.hyps [OF list_step_decreases [OF st]] parse_bytes_unfold(1) [OF st] parse_bytes_unfold(1) [OF st [unfolded eq]]
        by simp
    next
      case False
      with Inr p have st: "list_step t ok c s = Inr (False, ok', c', s')" by simp
      show ?thesis using parse_bytes_unfold(2) [OF st] parse_bytes_unfold(2) [OF st [unfolded eq]] by simp
    qed
  qed (use eq parse_bytes_unfold(3) in metis)
qed

lemma parse_bytes_past_line:
  "parse_bytes t ok c s = Inr (ok', c', rest) \<Longrightarrow> ctx_state c \<noteq> kExpectRequestLine \<Longrightarrow> ctx_state c' \<noteq> kExpectRequestLine"
proof (induction "length s" arbitrary: ok c s rule: less_induct)
  case less
  obtain m ok1 c1 s1 where st: "list_step t ok c s = Inr (m, ok1, c1, s1)"
    using less.prems by (subst (asm) parse_bytes.simps) (auto split: sum.splits prod.splits)
  then have c1: "ctx_state c1 \<noteq> kExpectRequestLine"
    using less.prems(2) by (auto simp: list_step_def Let_def split: parse_state.splits option.splits if_splits)
  show ?case
  proof (cases m)
    case True
    with st have st': "list_step t ok c s = Inr (True, ok1, c1, s1)" by simp
    show ?thesis using less.hyps [OF list_step_decreases [OF st'] _ c1] less.prems(1) parse_bytes_unfold(1) [OF st'] by simp
  next
    case False
    with st have st': "list_step t ok c s = Inr (False, ok1, c1, s1)" by simp
    show ?thesis using c1 less.prems(1) parse_bytes_unfold(2) [OF st'] by simp
  qed
qed

lemma parse_bytes_waiting:
  assumes "parse_bytes t True c s = Inr (True, c', rest)" "ctx_state c = kExpectRequestLine"
    "ctx_state c' = kExpectRequestLine"
  shows "c' = c \<and> rest = s"
proof (cases "memmem s kCRLF")
  case None
  then have "list_step t True c s = Inr (False, True, c, s)" using assms(2) by (simp add: list_step_def)
  then show ?thesis using assms(1) parse_bytes_unfold(2) by fastforce
next
  case (Some i)
  obtain ok1 r where pr: "processRequestLine (take i s) (ctx_request c) = Inr (ok1, r)"
    using assms(1,2) Some by (cases "processRequestLine (take i s) (ctx_request c)")
      (auto simp: list_step_def parse_bytes_unfold(3))
  show ?thesis
  proof (cases ok1)
    case True
    let ?c = "c\<lparr>ctx_request := setReceiveTime t r, ctx_state := kExpectHeaders\<rparr>"
    have "list_step t True c s = Inr (True, True, ?c, drop (i + 2) s)" using Some pr True assms(2) by (simp add: list_step_def)
    then have "parse_bytes t True ?c (drop (i + 2) s) = Inr (True, c', rest)" using parse_bytes_unfold(1) assms(1) by metis
    then show ?thesis using parse_bytes_past_line assms(3) by fastforce
  next
    case False
    then have "list_step t True c s = Inr (False, False, c\<lparr>ctx_request := r\<rparr>, s)" using Some pr assms(2) by (simp add: list_step_def)
    then show ?thesis using parse_bytes_unfold(2) assms(1) by fastforce
  qed
qed

text \<open>One call of \<^verbatim>\<open>onMessage\<close> on the text of a whole request.\<close>

lemma onMessage_request:
  assumes "kernel_contract K interest" "conn_inv interest w" "c_state w = kConnected" "h_context w = Some HttpContext"
    "m \<noteq> kInvalid" "v \<noteq> kUnknown" "wf_target path query" "list_all wf_header hdrs"
    "content (c_inputBuffer w) = request_text m path query v hdrs body"
    "answers f (request_of t m path query v hdrs body) (h_user w) response u" "response_fits response w"
  shows "\<exists>w'. onMessage K cbs f t w = Inr w' \<and> conn_inv interest w' \<and> h_context w' = Some HttpContext \<and>
    content (c_inputBuffer w') = [] \<and> replied K (response_text response) w w' \<and>
    c_state w' = (if resp_closeConnection response then kDisconnecting else kConnected) \<and> h_user w' = u"
proof -
  let ?c = "\<lparr>ctx_state = kGotAll, ctx_request = request_of t m path query v hdrs body\<rparr>"
  have p: "parse_bytes t True HttpContext (content (c_inputBuffer w)) = Inr (True, ?c, [])"
    using parse_request_text [OF assms(5-8)] assms(9) by simp
  have g: "gotAll ?c" "\<not> gotAll HttpContext" by (simp_all add: gotAll_def HttpContext_def)
  have "answers f (ctx_request ?c) (h_user w) response u" using assms(10) by simp
  from onMessage_replies [OF assms(1-4) g(2) p g(1) this assms(11), of cbs] show ?thesis by simp
qed

lemma onMessage_request_fails:
  assumes "conn_inv interest w" "h_context w = Some HttpContext"
    "m \<noteq> kInvalid" "v \<noteq> kUnknown" "wf_target path query" "list_all wf_header hdrs"
    "content (c_inputBuffer w) = request_text m path query v hdrs body"
    "f (request_of t m path query v hdrs body) (HttpResponse (wants_close (request_of t m path query v hdrs body))) (h_user w) = Inl e"
  shows "onMessage K cbs f t w = Inl e"
proof -
  let ?c = "\<lparr>ctx_state = kGotAll, ctx_request = request_of t m path query v hdrs body\<rparr>"
  have "parse_bytes t True HttpContext (content (c_inputBuffer w)) = Inr (True, ?c, [])"
    using parse_request_text [OF assms(3-6)] assms(7) by simp
  from parse_buffer [OF conn_invD(3) [OF assms(1)] _ this] show ?thesis
    using assms(2,8) by (auto simp: onMessage_def onRequest_def gotAll_def HttpContext_def)
qed

section \<open>Properties of the server\<close>

text \<open>A connection of the server for the examples: it is established and \<open>inp\<close> has arrived.\<close>

definition sample_http :: "byte list \<Rightarrow> 'u \<Rightarrow> (int \<Rightarrow> epoll_event option, 'u) http_conn" where
  "sample_http inp u = (sample_tcp (http_conn.fields (Some HttpContext) u) kConnected kReadEvent [])\<lparr>c_inputBuffer :=
     \<lparr>vec = replicate 8 (CHR 0x00) @ inp, readerIndex = 8, writerIndex = 8 + length inp\<rparr>\<rparr>"

lemma sample_http_sel:
  "h_context (sample_http inp u) = Some HttpContext" "c_state (sample_http inp u) = kConnected"
  "content (c_inputBuffer (sample_http inp u)) = inp" "c_accepted (sample_http inp u) = []"
  "out_room msg (sample_http inp u) = (8 + length msg \<le> vec_max)" "h_user (sample_http inp u) = u"
  by (auto simp: sample_http_def sample_tcp_def blank_tcp_def http_conn.defs content_def out_room_def used_bytes_def
      kCheapPrepend_def)

lemma sample_http_inv:
  assumes "length inp \<le> 1000"
  shows "conn_inv (\<lambda>k. k) (sample_http inp u)"
proof -
  let ?w = "sample_tcp (http_conn.fields (Some HttpContext) u) kConnected kReadEvent []" and
    ?b = "\<lparr>vec = replicate 8 (CHR 0x00) @ inp, readerIndex = 8, writerIndex = 8 + length inp\<rparr>"
  have "buffer_inv ?b" using assms by (simp add: buffer_inv_def kCheapPrepend_def vec_max_def)
  moreover have "sample_http inp u = ?w\<lparr>c_inputBuffer := ?b, h_context := Some HttpContext, h_user := u\<rparr>"
    by (simp add: sample_http_def sample_tcp_def blank_tcp_def http_conn.defs)
  ultimately show ?thesis
    using input_inv [OF sample_reading_inv [where s = kConnected and m = "http_conn.fields (Some HttpContext) u"], of ?b u "Some HttpContext"]
    by simp
qed

text \<open>C10. A request that arrives whole is answered: on an established connection with a fresh context, a well-formed
  request in the input buffer makes \<^verbatim>\<open>onMessage\<close> return with exactly the bytes of the handler's response appended to
  the connection's stream (unless the peer is gone), the input consumed, the context fresh again, and the
  connection shutting down exactly if the response asks for it.\<close>

theorem http_serves:
  assumes "kernel_contract K interest" "conn_inv interest w" "c_state w = kConnected" "h_context w = Some HttpContext"
    "m \<noteq> kInvalid" "v \<noteq> kUnknown" "wf_target path query" "list_all wf_header hdrs"
    "content (c_inputBuffer w) = request_text m path query v hdrs body"
    "answers f (request_of t m path query v hdrs body) (h_user w) response u" "response_fits response w"
  shows "\<exists>w'. onMessage K cbs f t w = Inr w' \<and> conn_inv interest w' \<and> h_context w' = Some HttpContext \<and>
    content (c_inputBuffer w') = [] \<and> replied K (response_text response) w w' \<and>
    c_state w' = (if resp_closeConnection response then kDisconnecting else kConnected) \<and> h_user w' = u"
  by (rule onMessage_request [OF assms])

theorem http_serves_witness:
  "\<exists>w'. onMessage echo_kernel idle_callbacks defaultHttpCallback 7
      (sample_http (''GET / HTTP/1.1'' @ kCRLF @ ''Host: x'' @ kCRLF @ kCRLF) ()) = Inr w' \<and>
    c_state w' = kDisconnecting \<and> content (c_inputBuffer w') = []"
proof -
  let ?inp = "''GET / HTTP/1.1'' @ kCRLF @ ''Host: x'' @ kCRLF @ kCRLF"
  let ?req = "request_of 7 kGet ''/'' [] kHttp11 [(''Host'', ''x'')] []" and ?w = "sample_http ?inp ()"
  obtain r where r: "answers defaultHttpCallback ?req (h_user ?w) r ()" and
    d: "r = setCloseConnection True (setStatusMessage ''Not Found'' (setStatusCode k404NotFound (HttpResponse (wants_close ?req))))"
    by (simp add: answers_def defaultHttpCallback_def)
  have i: "content (c_inputBuffer ?w) = request_text kGet ''/'' [] kHttp11 [(''Host'', ''x'')] []"
    by (simp add: sample_http_sel request_text_def)
  have c: "resp_closeConnection r" by (simp add: d setCloseConnection_def)
  have "response_fits r ?w"
    using status_code_length [of k404NotFound]
    by (simp add: response_fits_def sample_http_sel d setCloseConnection_def setStatusMessage_def
        setStatusCode_def HttpResponse_def response_text_def status_line_def response_headers_def kCRLF_def vec_max_def)
  from http_serves [OF echo_kernel_contract sample_http_inv sample_http_sel(2,1) _ _ _ _ i r this, of idle_callbacks] c
  show ?thesis by (auto simp: kCRLF_def wf_target_def isspace_def)
qed



text \<open>A request line that the parser does not accept is answered with \<^verbatim>\<open>400 Bad Request\<close> and the connection is shut
  down; but if the line began with a known method, the method and the line stay, and the next bytes that arrive on
  the connection make \<^verbatim>\<open>onMessage\<close> fail the assert of \<^verbatim>\<open>setMethod\<close>.\<close>

theorem http_bad_request:
  assumes "kernel_contract K interest" "conn_inv interest w" "c_state w = kConnected" "h_context w = Some HttpContext"
    "content (c_inputBuffer w) = line @ kCRLF @ rest" "CHR 0x0D \<notin> set line"
    "processRequestLine line HttpRequest = Inr (False, r)" "out_room bad_request_text w"
  shows "\<exists>w'. onMessage K cbs f t w = Inr w' \<and> conn_inv interest w' \<and> replied K bad_request_text w w' \<and>
    c_state w' = kDisconnecting \<and>
    (req_method r \<noteq> kInvalid \<longrightarrow>
      (\<forall>w2 more. conn_inv interest w2 \<longrightarrow> h_context w2 = h_context w' \<longrightarrow>
         content (c_inputBuffer w2) = content (c_inputBuffer w') @ more \<longrightarrow>
         onMessage K cbs f t2 w2 = Inl AssertFailed))"
proof -
  let ?c = "HttpContext\<lparr>ctx_request := r\<rparr>" and ?s = "line @ kCRLF @ rest"
  have ng: "\<not> gotAll HttpContext" "\<not> gotAll ?c" by (simp_all add: gotAll_def HttpContext_def)
  have mm: "memmem (line @ kCRLF @ z) kCRLF = Some (length line)" for z by (rule memmem_line [OF assms(6)])
  have "list_step t True HttpContext ?s = Inr (False, False, ?c, ?s)"
    using assms(7) by (simp add: list_step_def mm HttpContext_def)
  then have p: "parse_bytes t True HttpContext (content (c_inputBuffer w)) = Inr (False, ?c, ?s)"
    using parse_bytes_unfold(2) assms(5) by metis
  obtain w' where w': "onMessage K cbs f t w = Inr w'" "conn_inv interest w'" "h_context w' = Some ?c"
      "content (c_inputBuffer w') = ?s" "replied K bad_request_text w w'" "c_state w' = kDisconnecting"
    using onMessage_rejects [OF assms(1-4) ng(1) assms(8) p ng(2), of cbs f] by blast
  have again: "onMessage K cbs f t2 w2 = Inl AssertFailed"
    if "req_method r \<noteq> kInvalid" "conn_inv interest w2" "h_context w2 = h_context w'"
      "content (c_inputBuffer w2) = content (c_inputBuffer w') @ more" for w2 more
  proof -
    have "std_find (CHR '' '') line \<noteq> length line"
      using assms(7) that(1) by (auto simp: processRequestLine_def Let_def HttpRequest_def)
    then have "processRequestLine line r = Inl AssertFailed"
      using that(1) by (simp add: processRequestLine_def Let_def setMethod_def)
    then have "list_step t2 True ?c (line @ kCRLF @ rest @ more) = Inl AssertFailed"
      by (simp add: list_step_def mm HttpContext_def)
    then have "parse_bytes t2 True ?c (content (c_inputBuffer w2)) = Inl AssertFailed"
      using parse_bytes_unfold(3) that(4) w'(4) by simp
    then have "parseRequest (c_inputBuffer w2) t2 ?c = Some (Inl AssertFailed)"
      using parse_loop_refines [OF conn_invD(3) [OF that(2)], of ?c t2 True] ng(2)
      by (auto simp: parseRequest_def gotAll_def abs_parse_Inl)
    then show ?thesis using that(3) w'(3) by (simp add: onMessage_def)
  qed
  show ?thesis using w' again by blast
qed

theorem http_bad_request_witness:
  "\<exists>w'. onMessage echo_kernel idle_callbacks defaultHttpCallback 7 (sample_http (''GET /'' @ kCRLF @ []) ()) = Inr w' \<and>
    c_state w' = kDisconnecting \<and> onMessage echo_kernel idle_callbacks defaultHttpCallback 8 w' = Inl AssertFailed"
proof -
  have p: "processRequestLine ''GET /'' HttpRequest = Inr (False, HttpRequest\<lparr>req_method := kGet\<rparr>)"
    by (simp add: processRequestLine_def std_find_def setMethod_def method_of_string_def HttpRequest_def)
  have room: "out_room bad_request_text (sample_http (''GET /'' @ kCRLF @ []) ())"
    by (simp add: sample_http_sel bad_request_text_def kCRLF_def vec_max_def)
  obtain w' where w': "onMessage echo_kernel idle_callbacks defaultHttpCallback 7 (sample_http (''GET /'' @ kCRLF @ []) ()) = Inr w'"
      "conn_inv (\<lambda>k. k) w'" "c_state w' = kDisconnecting"
      "onMessage echo_kernel idle_callbacks defaultHttpCallback 8 w' = Inl AssertFailed"
    using http_bad_request [OF echo_kernel_contract sample_http_inv sample_http_sel(2,1) sample_http_sel(3) _ p room,
        of idle_callbacks defaultHttpCallback 7 8] by (force simp: kCRLF_def)
  then show ?thesis by blast
qed

end
