(* ===== verification/Lute_App.thy ===== *)
theory Lute_App
  imports Lute_HttpContext Lute_HttpResponse Lute_InetAddress
begin

text \<open>
  The web application, \<^verbatim>\<open>app/http/src/app.cc\<close>: routing, the pages it serves, registration and login.  The file system and
  the two data bases are parameters.  The two regular expressions are sequences of literals and repeated character
  classes; they are matched as \<^verbatim>\<open>std::regex\<close> does, leftmost and greedy with backtracking.
\<close>

section \<open>Regular expressions\<close>

datatype rx = Lit string | Plus "char \<Rightarrow> bool"

fun plus_try :: "(string \<Rightarrow> (string list \<times> string) option) \<Rightarrow> string \<Rightarrow> nat \<Rightarrow> (string list \<times> string) option" where
  "plus_try f s 0 = None"
| "plus_try f s (Suc n) =
     (case f (drop (Suc n) s) of
        Some (ts, rest) \<Rightarrow> Some (take (Suc n) s # ts, rest)
      | None \<Rightarrow> plus_try f s n)"

text \<open>The texts that the parts of the expression match at the start of the string, and what follows.\<close>

primrec rx_match :: "rx list \<Rightarrow> string \<Rightarrow> (string list \<times> string) option" where
  "rx_match [] s = Some ([], s)"
| "rx_match (x # r) s =
     (case x of
        Lit l \<Rightarrow> if take (length l) s = l
                 then map_option (\<lambda>(ts, rest). (l # ts, rest)) (rx_match r (drop (length l) s)) else None
      | Plus c \<Rightarrow> plus_try (rx_match r) s (length (takeWhile c s)))"

fun rx_search :: "rx list \<Rightarrow> string \<Rightarrow> (string list \<times> string) option" where
  "rx_search p [] = rx_match p []"
| "rx_search p (c # s) = (case rx_match p (c # s) of Some m \<Rightarrow> Some m | None \<Rightarrow> rx_search p s)"

text \<open>A loop over \<^verbatim>\<open>std::sregex_iterator\<close> that keeps the last match; every match of the two expressions takes characters.\<close>

function rx_last :: "rx list \<Rightarrow> string \<Rightarrow> string list option \<Rightarrow> string list option" where
  "rx_last p s acc =
     (case rx_search p s of
        None \<Rightarrow> acc
      | Some (ts, rest) \<Rightarrow> if length rest < length s then rx_last p rest (Some ts) else Some ts)"
  by pat_completeness auto
termination by (relation "measure (\<lambda>(p, s, acc). length s)") auto

declare rx_last.simps [simp del]

definition in_range :: "char \<Rightarrow> char \<Rightarrow> char \<Rightarrow> bool" where
  "in_range a b c \<longleftrightarrow> (of_char a :: nat) \<le> of_char c \<and> (of_char c :: nat) \<le> of_char b"

definition is_alpha :: "char \<Rightarrow> bool" where
  "is_alpha c \<longleftrightarrow> in_range CHR ''a'' CHR ''z'' c \<or> in_range CHR ''A'' CHR ''Z'' c"

definition is_alnum :: "char \<Rightarrow> bool" where
  "is_alnum c \<longleftrightarrow> in_range CHR ''0'' CHR ''9'' c \<or> is_alpha c"

definition register_pattern :: "rx list" where
  "register_pattern =
     [Lit ''Username='', Plus (\<lambda>c. is_alnum c \<or> c = CHR ''_''), Lit ''&email='', Plus is_alnum, Lit ''%40'', Plus is_alpha,
      Lit ''.com'', Lit ''&password='', Plus is_alnum]"

definition login_pattern :: "rx list" where
  "login_pattern = [Lit ''?Username='', Plus is_alnum, Lit ''&password='', Plus is_alnum]"

text \<open>The groups of the last match, or the empty strings: username, mail and password; username and password.\<close>

definition register_fields :: "string \<Rightarrow> string \<times> string \<times> string" where
  "register_fields body =
     (case rx_last register_pattern body None of
        Some ts \<Rightarrow> (ts ! 1, ts ! 3 @ ts ! 4 @ ts ! 5 @ ts ! 6, ts ! 8)
      | None \<Rightarrow> ([], [], []))"

definition login_fields :: "string \<Rightarrow> string \<times> string" where
  "login_fields query =
     (case rx_last login_pattern query None of Some ts \<Rightarrow> (ts ! 1, ts ! 3) | None \<Rightarrow> ([], []))"

section \<open>Files and data bases\<close>

record file_info =
  f_iroth :: bool            \<comment> \<open>\<^verbatim>\<open>st_mode & S_IROTH\<close>\<close>
  f_isdir :: bool
  f_content :: "string option"     \<comment> \<open>nothing if it cannot be opened\<close>

type_synonym files = "string \<rightharpoonup> file_info"

text \<open>The Redis hash and the MySQL connection: \<^verbatim>\<open>hasHField\<close> returns 0 for an absent field, \<^verbatim>\<open>execute\<close> 0 on success.\<close>

record ('r, 'd) db =
  hasHField :: "'r \<Rightarrow> string \<Rightarrow> string \<Rightarrow> int"
  getHField :: "'r \<Rightarrow> string \<Rightarrow> string \<Rightarrow> string"
  setHField :: "'r \<Rightarrow> string \<Rightarrow> string \<Rightarrow> string \<Rightarrow> 'r \<times> int"
  execute :: "'d \<Rightarrow> string \<Rightarrow> 'd \<times> int"

definition redis_contract :: "('r, 'd) db \<Rightarrow> ('r \<Rightarrow> string \<Rightarrow> string \<rightharpoonup> string) \<Rightarrow> bool" where
  "redis_contract D hash \<longleftrightarrow>
     (\<forall>r k f. hasHField D r k f = 0 \<longleftrightarrow> hash r k f = None) \<and>
     (\<forall>r k f v. hash r k f = Some v \<longrightarrow> getHField D r k f = v) \<and>
     (\<forall>r k f v. hash (fst (setHField D r k f v)) = (hash r)(k := (hash r k)(f \<mapsto> v)))"

definition HASH_KEY :: string where "HASH_KEY = ''user''"

section \<open>The application\<close>

definition FILENAME_LEN :: nat where "FILENAME_LEN = 200"

record ('r, 'd) app =
  app_realFile :: string        \<comment> \<open>the C string in \<^verbatim>\<open>realFile_\<close>\<close>
  app_serverPath :: string
  app_redis :: 'r
  app_mysql :: 'd

text \<open>\<^verbatim>\<open>strcpy\<close> and \<^verbatim>\<open>strcat\<close> into \<^verbatim>\<open>realFile_\<close>, which has no room for more than 199 characters and a zero.\<close>

definition strcpy :: "string \<Rightarrow> ('r, 'd) app \<Rightarrow> ('r, 'd) app result" where
  "strcpy s a = (if length (c_str s) < FILENAME_LEN then Inr (a\<lparr>app_realFile := c_str s\<rparr>) else Inl OutOfBounds)"

definition strcat :: "string \<Rightarrow> ('r, 'd) app \<Rightarrow> ('r, 'd) app result" where
  "strcat s a =
     (let t = app_realFile a @ c_str s
      in if length t < FILENAME_LEN then Inr (a\<lparr>app_realFile := t\<rparr>) else Inl OutOfBounds)"

text \<open>The users of the data base, as rows of username, mail and password, are put into Redis.\<close>

fun load_users :: "('r, 'd) db \<Rightarrow> (string \<times> string \<times> string) list \<Rightarrow> 'r \<Rightarrow> 'r" where
  "load_users D [] r = r"
| "load_users D ((username, mail, passwd) # rows) r = load_users D rows (fst (setHField D r HASH_KEY username passwd))"

definition Application ::
  "('r, 'd) db \<Rightarrow> string \<Rightarrow> (string \<times> string \<times> string) list \<Rightarrow> 'r \<Rightarrow> 'd \<Rightarrow> ('r, 'd) app" where
  "Application D root rows r d =
     \<lparr>app_realFile = [], app_serverPath = root, app_redis = load_users D rows r, app_mysql = d\<rparr>"

definition readFile2String :: "files \<Rightarrow> string \<Rightarrow> string" where
  "readFile2String fs filename =
     (case fs filename of
        None \<Rightarrow> []
      | Some i \<Rightarrow> (case f_content i of None \<Rightarrow> [] | Some s \<Rightarrow> s))"

definition getHtml :: "files \<Rightarrow> ('r, 'd) app \<Rightarrow> string" where
  "getHtml fs a =
     (case fs (app_realFile a) of
        None \<Rightarrow> []
      | Some i \<Rightarrow> if \<not> f_iroth i then [] else if f_isdir i then [] else readFile2String fs (app_realFile a))"

definition set_file :: "string \<Rightarrow> ('r, 'd) app \<Rightarrow> ('r, 'd) app result" where
  "set_file index a = bindR (strcpy (app_serverPath a) a) (strcat index)"

definition ok_headers :: "string \<Rightarrow> httpResponse \<Rightarrow> httpResponse" where
  "ok_headers contentType resp =
     addHeader_resp ''Server'' ''Lux polaris'' (setContentType contentType (setStatusMessage ''OK'' (setStatusCode k200Ok resp)))"

definition serve_page ::
  "files \<Rightarrow> string \<Rightarrow> httpResponse \<Rightarrow> ('r, 'd) app \<Rightarrow> (httpResponse \<times> ('r, 'd) app) result" where
  "serve_page fs index resp a =
     bindR (set_file index a) (\<lambda>a1. Inr (setBody_resp (getHtml fs a1) resp, a1))"

definition insert_statement :: "string \<Rightarrow> string \<Rightarrow> string \<Rightarrow> string" where
  "insert_statement username mail password =
     ''INSERT INTO user(username, mail, passwd) VALUES('' @ [CHR 0x27] @ username @ [CHR 0x27] @ '', '' @ [CHR 0x27] @ mail @
     [CHR 0x27] @ '', '' @ [CHR 0x27] @ password @ [CHR 0x27] @ '')''"

text \<open>The branch of \<^verbatim>\<open>/register\<close> up to the choice of the page.\<close>

definition register_user ::
  "('r, 'd) db \<Rightarrow> httpRequest \<Rightarrow> ('r, 'd) app \<Rightarrow> ('r, 'd) app result" where
  "register_user D req a =
     (let body = req_body req
      in if req_method req = kPost \<and> body \<noteq> []
         then let (username, mail, password) = register_fields body;
                  stmt = insert_statement username mail password
              in if hasHField D (app_redis a) HASH_KEY username = 0
                 then let (d1, rc) = execute D (app_mysql a) stmt;
                          a1 = a\<lparr>app_mysql := d1\<rparr>
                      in if rc = 0
                         then set_file ''/welcome.html''
                                (a1\<lparr>app_redis := fst (setHField D (app_redis a1) HASH_KEY username password)\<rparr>)
                         else Inr a1
                 else set_file ''/registerFailed.html'' a
         else set_file ''/register.html'' a)"

definition serve_jpg ::
  "files \<Rightarrow> string \<Rightarrow> httpResponse \<Rightarrow> ('r, 'd) app \<Rightarrow> (httpResponse \<times> ('r, 'd) app) result" where
  "serve_jpg fs path resp a =
     bindR (set_file path a) (\<lambda>a1.
       case fs (app_realFile a1) of
         None \<Rightarrow> Inr (resp, a1)
       | Some i \<Rightarrow>
           if \<not> f_iroth i then Inr (resp, a1)
           else if f_isdir i then Inr (resp, a1)
           else Inr (setBody_resp (case f_content i of None \<Rightarrow> [] | Some s \<Rightarrow> s) resp, a1))"

definition login_page :: "('r, 'd) db \<Rightarrow> string \<Rightarrow> 'r \<Rightarrow> string" where
  "login_page D query r =
     (let (username, passwd) = login_fields query
      in if hasHField D r HASH_KEY username \<noteq> 0
         then if getHField D r HASH_KEY username = passwd then ''/welcome.html'' else ''/loginFailed.html''
         else ''/loginFailed.html'')"

fun contains :: "string \<Rightarrow> string \<Rightarrow> bool" where
  "contains p [] \<longleftrightarrow> p = []"
| "contains p (c # s) \<longleftrightarrow> take (length p) (c # s) = p \<or> contains p s"

definition app_onRequest ::
  "files \<Rightarrow> ('r, 'd) db \<Rightarrow> httpRequest \<Rightarrow> httpResponse \<Rightarrow> ('r, 'd) app \<Rightarrow> (httpResponse \<times> ('r, 'd) app) result" where
  "app_onRequest fs D req resp a =
     (if req_path req = ''/'' \<or> req_path req = ''/index.html''
      then serve_page fs ''/index.html'' (ok_headers ''text/html'' resp) a
      else if req_path req = ''/register''
      then bindR (register_user D req a) (\<lambda>a1. Inr (setBody_resp (getHtml fs a1) (ok_headers ''text/html'' resp), a1))
      else if req_path req = ''/welcome''
      then serve_page fs ''/welcome.html'' (ok_headers ''text/html'' resp) a
      else if contains ''.jpg'' (req_path req)
      then serve_jpg fs (req_path req) (ok_headers ''image/jpg'' resp) a
      else if req_method req = kGet \<and> contains ''/login'' (req_path req)
      then serve_page fs (login_page D (req_query req) (app_redis a)) (ok_headers ''text/html'' resp) a
      else bindR (serve_page fs ''/404.html''
             (addHeader_resp ''Server'' ''Lux polaris'' (setContentType ''text/html''
               (setStatusMessage ''Not Found'' (setStatusCode k404NotFound resp)))) a) (\<lambda>(resp1, a1).
             Inr (setCloseConnection True resp1, a1)))"

section \<open>The program\<close>

text \<open>
  The command line of \<^verbatim>\<open>main\<close>.  With any argument at all it reads nine; a missing one is a null pointer given to a string
  or to \<^verbatim>\<open>atoi\<close>.  \<open>atoi\<close> is a parameter of the model only in what it makes of text that is not a number.
\<close>

record app_config =
  cfg_serverName :: string
  cfg_staticSrcPrefix :: string
  cfg_serverPort :: "16 word"
  cfg_numThreads :: int
  cfg_dbIp :: string
  cfg_dbPort :: "16 word"
  cfg_user :: string
  cfg_passwd :: string
  cfg_db :: string

definition main_config :: "(string \<Rightarrow> int) \<Rightarrow> string list \<Rightarrow> app_config option result" where
  "main_config atoi argv =
     (if 1 < length argv
      then if 9 < length argv
           then Inr (Some \<lparr>cfg_serverName = argv ! 1, cfg_staticSrcPrefix = argv ! 2, cfg_serverPort = word_of_int (atoi (argv ! 3)),
             cfg_numThreads = atoi (argv ! 4), cfg_dbIp = argv ! 5, cfg_dbPort = word_of_int (atoi (argv ! 6)), cfg_user = argv ! 7,
             cfg_passwd = argv ! 8, cfg_db = argv ! 9\<rparr>)
           else Inl NullDeref
      else Inr None)"

section \<open>What the expressions match\<close>

definition rx_texts :: "rx list \<Rightarrow> string list \<Rightarrow> bool" where
  "rx_texts p ts \<longleftrightarrow> list_all2 (\<lambda>x t. case x of Lit l \<Rightarrow> t = l | Plus c \<Rightarrow> t \<noteq> [] \<and> list_all c t) p ts"

lemma plus_try_some:
  "plus_try f s n = Some (us, rest) \<Longrightarrow> n \<le> length s \<Longrightarrow>
   \<exists>m ts. 0 < m \<and> m \<le> n \<and> us = take m s # ts \<and> f (drop m s) = Some (ts, rest)"
proof (induction n)
  case (Suc n)
  show ?case
  proof (cases "f (drop (Suc n) s)")
    case None
    then show ?thesis using Suc by (auto intro: le_SucI)
  next
    case (Some y)
    then show ?thesis using Suc.prems by (cases y) auto
  qed
qed simp

lemma rx_match_sound:
  "rx_match p s = Some (ts, rest) \<Longrightarrow> rx_texts p ts \<and> concat ts @ rest = s"
proof (induction p arbitrary: s ts)
  case (Cons x r)
  show ?case
  proof (cases x)
    case (Lit l)
    with Cons.prems obtain us where u: "take (length l) s = l" "rx_match r (drop (length l) s) = Some (us, rest)" "ts = l # us"
      by (auto split: if_splits)
    then show ?thesis using Cons.IH [OF u(2)] Lit append_take_drop_id [of "length l" s] by (simp add: rx_texts_def)
  next
    case (Plus c)
    then have "plus_try (rx_match r) s (length (takeWhile c s)) = Some (ts, rest)" using Cons.prems by simp
    from plus_try_some [OF this] obtain m us where
      m: "0 < m" "m \<le> length (takeWhile c s)" "ts = take m s # us" "rx_match r (drop m s) = Some (us, rest)"
      by (auto simp: length_takeWhile_le)
    have "take m s = take m (takeWhile c s)" using m(2) by (metis takeWhile_eq_take min.absorb1 take_take)
    then have "list_all c (take m s)" by (auto simp: list_all_iff dest: in_set_takeD set_takeWhileD)
    moreover have "take m s \<noteq> []" using m(1,2) length_takeWhile_le [of c s] by auto
    ultimately show ?thesis using Cons.IH [OF m(4)] Plus m(3) by (simp add: rx_texts_def)
  qed
qed (simp add: rx_texts_def)

lemma rx_search_sound: "rx_search p s = Some (ts, rest) \<Longrightarrow> rx_texts p ts \<and> (\<exists>pre. s = pre @ concat ts @ rest)"
proof (induction p s rule: rx_search.induct)
  case (1 p)
  then show ?case using rx_match_sound [of p "[]"] by auto
next
  case (2 p c s)
  show ?case
  proof (cases "rx_match p (c # s)")
    case None
    then obtain pre where "rx_texts p ts" "s = pre @ concat ts @ rest" using 2 by auto
    then show ?thesis by (intro conjI exI [of _ "c # pre"]) simp_all
  next
    case (Some m)
    then have "rx_match p (c # s) = Some (ts, rest)" using 2(2) by simp
    from rx_match_sound [OF this] show ?thesis by (intro conjI exI [of _ "[]"]) auto
  qed
qed

lemma rx_last_sound: "rx_last p s acc = Some ts \<Longrightarrow> (\<And>us. acc = Some us \<Longrightarrow> rx_texts p us) \<Longrightarrow> rx_texts p ts"
proof (induction p s acc rule: rx_last.induct)
  case (1 p s acc)
  show ?case
  proof (cases "rx_search p s")
    case None
    then show ?thesis using 1(2,3) by (subst (asm) rx_last.simps) simp
  next
    case (Some m)
    obtain us rest where m: "m = (us, rest)" by (cases m)
    have us: "rx_texts p us" using rx_search_sound Some m by blast
    show ?thesis
    proof (cases "length rest < length s")
      case True
      then have "rx_last p rest (Some us) = Some ts" using 1(2) Some m by (subst (asm) rx_last.simps) simp
      then show ?thesis using 1(1) [OF Some m [symmetric] True] us by simp
    next
      case False
      then show ?thesis using 1(2) Some m us by (subst (asm) rx_last.simps) simp
    qed
  qed
qed

lemma rx_match_Lit: "rx_match r s = Some (ts, rest) \<Longrightarrow> rx_match (Lit l # r) (l @ s) = Some (l # ts, rest)"
  by simp

lemma takeWhile_run: "list_all c t \<Longrightarrow> s = [] \<or> \<not> c (hd s) \<Longrightarrow> takeWhile c (t @ s) = t"
  by (induction t) (auto simp: neq_Nil_conv, metis takeWhile.simps list.sel(1) neq_Nil_conv)

lemma rx_match_Plus:
  assumes "t \<noteq> []" "list_all c t" "s = [] \<or> \<not> c (hd s)" "rx_match r s = Some (ts, rest)"
  shows "rx_match (Plus c # r) (t @ s) = Some (t # ts, rest)"
proof -
  obtain n where n: "length t = Suc n" using assms(1) by (cases t) auto
  have "rx_match r (drop (Suc n) (t @ s)) = Some (ts, rest)" "take (Suc n) (t @ s) = t" using assms(4) n by simp_all
  then show ?thesis using takeWhile_run [OF assms(2,3)] n by simp
qed

lemma rx_search_match: "rx_match p s = Some m \<Longrightarrow> rx_search p s = Some m"
  by (cases s) auto

lemma rx_last_whole:
  assumes "rx_match p s = Some (ts, [])" "s \<noteq> []" "rx_match p [] = None"
  shows "rx_last p s acc = Some ts"
proof -
  have "rx_last p [] (Some ts) = Some ts" using assms(3) by (subst rx_last.simps) simp
  then show ?thesis using rx_search_match [OF assms(1)] assms(2) by (subst rx_last.simps) simp
qed

definition word_of :: "(char \<Rightarrow> bool) \<Rightarrow> string \<Rightarrow> bool" where
  "word_of c s \<longleftrightarrow> s \<noteq> [] \<and> list_all c s"

abbreviation user_char :: "char \<Rightarrow> bool" where
  "user_char c \<equiv> is_alnum c \<or> c = CHR ''_''"

lemma char_classes:
  "\<not> is_alnum CHR ''&''" "\<not> is_alnum CHR ''%''" "\<not> is_alpha CHR ''.''" "\<not> is_alnum CHR ''_''"
  by (simp_all add: is_alnum_def is_alpha_def in_range_def)

definition register_body :: "string \<Rightarrow> string \<Rightarrow> string \<Rightarrow> string \<Rightarrow> string" where
  "register_body u m d p = ''Username='' @ u @ ''&email='' @ m @ ''%40'' @ d @ ''.com'' @ ''&password='' @ p"

definition login_query :: "string \<Rightarrow> string \<Rightarrow> string" where
  "login_query u p = ''?Username='' @ u @ ''&password='' @ p"

text \<open>The fields of a well-formed form are found.\<close>

lemma register_fields_form:
  assumes "word_of user_char u" "word_of is_alnum m" "word_of is_alpha d" "word_of is_alnum p"
  shows "register_fields (register_body u m d p) = (u, m @ ''%40'' @ d @ ''.com'', p)"
proof -
  have "rx_match register_pattern (register_body u m d p) =
      Some ([''Username='', u, ''&email='', m, ''%40'', d, ''.com'', ''&password='', p], [])"
    unfolding register_pattern_def register_body_def
    by (intro rx_match_Lit rx_match_Plus)
      (use assms char_classes in \<open>simp_all add: word_of_def rx_match_Plus [of p is_alnum "[]" "[]", simplified]\<close>)
  from rx_last_whole [OF this] show ?thesis by (simp add: register_fields_def register_pattern_def register_body_def)
qed

lemma login_fields_form:
  assumes "word_of is_alnum u" "word_of is_alnum p"
  shows "login_fields (login_query u p) = (u, p)"
proof -
  have "rx_match login_pattern (login_query u p) = Some ([''?Username='', u, ''&password='', p], [])"
    unfolding login_pattern_def login_query_def
    by (intro rx_match_Lit rx_match_Plus)
      (use assms char_classes in \<open>simp_all add: word_of_def rx_match_Plus [of p is_alnum "[]" "[]", simplified]\<close>)
  from rx_last_whole [OF this] show ?thesis by (simp add: login_fields_def login_pattern_def login_query_def)
qed

section \<open>Steps of the application\<close>

text \<open>The text that a file is served as.\<close>

definition page :: "files \<Rightarrow> string \<Rightarrow> string" where
  "page fs f =
     (case fs f of
        Some i \<Rightarrow> if f_iroth i \<and> \<not> f_isdir i then (case f_content i of Some s \<Rightarrow> s | None \<Rightarrow> []) else []
      | None \<Rightarrow> [])"

lemma getHtml_page: "getHtml fs a = page fs (app_realFile a)"
  by (simp add: getHtml_def page_def readFile2String_def split: option.splits)

text \<open>The server's own pages fit the buffer if the path of the server has at most 179 characters.\<close>

definition path_ok :: "('r, 'd) app \<Rightarrow> bool" where
  "path_ok a \<longleftrightarrow> length (app_serverPath a) \<le> 179 \<and> CHR 0x00 \<notin> set (app_serverPath a)"

lemma set_file_iff:
  assumes "path_ok a"
  shows "set_file index a =
    (if length (app_serverPath a) + length (c_str index) < 200 then Inr (a\<lparr>app_realFile := app_serverPath a @ c_str index\<rparr>)
     else Inl OutOfBounds)"
  using assms c_str_id [of "app_serverPath a"]
  by (auto simp: set_file_def strcpy_def strcat_def path_ok_def FILENAME_LEN_def Let_def)

definition page_name :: "string \<Rightarrow> bool" where
  "page_name i \<longleftrightarrow> length i \<le> 20 \<and> CHR 0x00 \<notin> set i"

lemma set_file_page: "path_ok a \<Longrightarrow> page_name i \<Longrightarrow> set_file i a = Inr (a\<lparr>app_realFile := app_serverPath a @ i\<rparr>)"
  by (simp add: set_file_iff page_name_def c_str_id path_ok_def)

lemma page_names [simp]:
  "page_name ''/index.html''" "page_name ''/register.html''" "page_name ''/registerFailed.html''" "page_name ''/welcome.html''"
  "page_name ''/loginFailed.html''" "page_name ''/404.html''"
  by (simp_all add: page_name_def)

lemma page_name_login [simp]: "page_name (login_page D q r)"
  by (simp add: login_page_def Let_def split: prod.splits)

lemma serve_page_ok:
  "path_ok a \<Longrightarrow> page_name i \<Longrightarrow>
   serve_page fs i resp a = Inr (setBody_resp (page fs (app_serverPath a @ i)) resp, a\<lparr>app_realFile := app_serverPath a @ i\<rparr>)"
  by (simp add: serve_page_def set_file_page getHtml_page [of fs "a\<lparr>app_realFile := _\<rparr>"])

lemma redis_contractD:
  assumes "redis_contract D hash"
  shows "hasHField D r k f = 0 \<longleftrightarrow> hash r k f = None" "hash r k f = Some v \<Longrightarrow> getHField D r k f = v"
    "hash (fst (setHField D r k f v)) = (hash r)(k := (hash r k)(f \<mapsto> v))"
  using assms unfolding redis_contract_def by blast+

text \<open>The page of a login: the welcome page exactly for a stored user with the stored password.\<close>

lemma login_page_iff:
  assumes "redis_contract D hash" "login_fields q = (u, p)"
  shows "login_page D q r = (if hash r HASH_KEY u = Some p then ''/welcome.html'' else ''/loginFailed.html'')"
  using redis_contractD(1,2) [OF assms(1), of r HASH_KEY u] assms(2)
  by (cases "hash r HASH_KEY u") (auto simp: login_page_def)

definition post_register :: "string \<Rightarrow> httpRequest" where
  "post_register body = HttpRequest\<lparr>req_method := kPost, req_path := ''/register'', req_body := body\<rparr>"

definition get_login :: "string \<Rightarrow> httpRequest" where
  "get_login query = HttpRequest\<lparr>req_method := kGet, req_path := ''/login'', req_query := query\<rparr>"

lemma get_login_page:
  assumes "path_ok a"
  shows "app_onRequest fs D (get_login q) resp a =
    Inr (setBody_resp (page fs (app_serverPath a @ login_page D q (app_redis a))) (ok_headers ''text/html'' resp),
         a\<lparr>app_realFile := app_serverPath a @ login_page D q (app_redis a)\<rparr>)"
  using serve_page_ok [OF assms page_name_login] by (simp add: app_onRequest_def get_login_def HttpRequest_def)

text \<open>A registration that is stored.\<close>

lemma register_stores:
  assumes "redis_contract D hash" "path_ok a" "body \<noteq> []" "register_fields body = (u, m, p)"
    "hash (app_redis a) HASH_KEY u = None" "snd (execute D (app_mysql a) (insert_statement u m p)) = 0"
  shows "\<exists>a1. app_onRequest fs D (post_register body) resp a =
      Inr (setBody_resp (page fs (app_serverPath a @ ''/welcome.html'')) (ok_headers ''text/html'' resp), a1) \<and>
    app_serverPath a1 = app_serverPath a \<and>
    hash (app_redis a1) = (hash (app_redis a))(HASH_KEY := (hash (app_redis a) HASH_KEY)(u \<mapsto> p))"
proof -
  let ?d = "fst (execute D (app_mysql a) (insert_statement u m p))"
  let ?a = "a\<lparr>app_mysql := ?d, app_redis := fst (setHField D (app_redis a) HASH_KEY u p)\<rparr>"
  let ?b = "?a\<lparr>app_realFile := app_serverPath a @ ''/welcome.html''\<rparr>"
  have p: "path_ok ?a" using assms(2) by (simp add: path_ok_def)
  have "register_user D (post_register body) a = Inr ?b"
    using assms(3,4,6) redis_contractD(1) [OF assms(1)] assms(5) set_file_page [OF p page_names(4)]
    by (simp add: register_user_def post_register_def case_prod_beta Let_def)
  then show ?thesis using redis_contractD(3) [OF assms(1)] getHtml_page [of fs ?b]
    by (intro exI [of _ ?b]) (simp add: app_onRequest_def post_register_def)
qed

section \<open>Properties of the application\<close>

text \<open>A concrete store: the fields of all hashes as a list, and the statements that were executed (none, if \<open>rc\<close> is not 0).\<close>

definition list_db :: "int \<Rightarrow> (((string \<times> string) \<times> string) list, string list) db" where
  "list_db rc =
     \<lparr>hasHField = (\<lambda>r k f. if map_of r (k, f) = None then 0 else 1),
      getHField = (\<lambda>r k f. case map_of r (k, f) of None \<Rightarrow> [] | Some v \<Rightarrow> v),
      setHField = (\<lambda>r k f v. (((k, f), v) # r, 0)),
      execute = (\<lambda>d s. (if rc = 0 then d @ [s] else d, rc))\<rparr>"

definition list_hash :: "((string \<times> string) \<times> string) list \<Rightarrow> string \<Rightarrow> string \<rightharpoonup> string" where
  "list_hash r k f = map_of r (k, f)"

lemma list_db_contract: "redis_contract (list_db rc) list_hash"
  by (auto simp: redis_contract_def list_db_def list_hash_def fun_eq_iff)

lemma execute_list_db: "snd (execute (list_db rc) d s) = rc"
  by (simp add: list_db_def)

definition sample_app :: "(((string \<times> string) \<times> string) list, string list) app" where
  "sample_app = Application (list_db 0) ''/srv'' [] [] []"

definition sample_files :: files where
  "sample_files f = Some \<lparr>f_iroth = True, f_isdir = False, f_content = Some f\<rparr>"

lemma sample_app_ok: "path_ok sample_app" "app_serverPath sample_app = ''/srv''" "app_redis sample_app = []"
  by (simp_all add: sample_app_def Application_def path_ok_def)

lemma sample_words: "word_of is_alnum ''bob''" "word_of is_alnum ''b1''" "word_of is_alpha ''mail''" "word_of is_alnum ''pw1''"
  "word_of is_alnum ''pw2''" "word_of user_char ''b_b''"
  by (simp_all add: word_of_def is_alnum_def is_alpha_def in_range_def)

text \<open>Who registers with a form of the expected shape can log in: the registration is answered with the welcome page,
  and from then on a login with that name and that password gets the welcome page and one with any other password the
  page of a failed login.\<close>

theorem register_then_login:
  assumes "redis_contract D hash" "path_ok a"
    "word_of is_alnum u" "word_of is_alnum m" "word_of is_alpha d" "word_of is_alnum p" "word_of is_alnum q"
    "hash (app_redis a) HASH_KEY u = None" "snd (execute D (app_mysql a) (insert_statement u (m @ ''%40'' @ d @ ''.com'') p)) = 0"
  shows "\<exists>r1 a1 r2 a2. app_onRequest fs D (post_register (register_body u m d p)) resp a = Inr (r1, a1) \<and>
    resp_body r1 = page fs (app_serverPath a @ ''/welcome.html'') \<and>
    app_onRequest fs D (get_login (login_query u q)) resp' a1 = Inr (r2, a2) \<and>
    resp_body r2 = page fs (app_serverPath a @ (if q = p then ''/welcome.html'' else ''/loginFailed.html''))"
proof -
  have "word_of user_char u" using assms(3) by (auto simp: word_of_def list_all_iff)
  from register_fields_form [OF this assms(4-6)]
  have f: "register_fields (register_body u m d p) = (u, m @ ''%40'' @ d @ ''.com'', p)" .
  have ne: "register_body u m d p \<noteq> []" by (simp add: register_body_def)
  from register_stores [OF assms(1,2) ne f assms(8,9), of fs resp] obtain a1 where
    a1: "app_onRequest fs D (post_register (register_body u m d p)) resp a =
        Inr (setBody_resp (page fs (app_serverPath a @ ''/welcome.html'')) (ok_headers ''text/html'' resp), a1)"
      "app_serverPath a1 = app_serverPath a" "hash (app_redis a1) HASH_KEY u = Some p" by auto
  have "path_ok a1" using assms(2) a1(2) by (simp add: path_ok_def)
  from get_login_page [OF this, of fs D "login_query u q" resp'] show ?thesis
    using a1 login_page_iff [OF assms(1) login_fields_form [OF assms(3,7)], of "app_redis a1"]
    by (auto simp: setBody_resp_def)
qed

theorem register_then_login_witness:
  "\<exists>r1 a1 r2 a2. app_onRequest sample_files (list_db 0) (post_register (register_body ''bob'' ''b1'' ''mail'' ''pw1'')) (HttpResponse True) sample_app
      = Inr (r1, a1) \<and>
    app_onRequest sample_files (list_db 0) (get_login (login_query ''bob'' ''pw2'')) (HttpResponse True) a1 = Inr (r2, a2) \<and>
    resp_body r2 = ''/srv/loginFailed.html''"
  using register_then_login [OF list_db_contract sample_app_ok(1) sample_words(1-5), of 0 sample_files "HttpResponse True" "HttpResponse True"]
  by (fastforce simp: sample_app_ok list_hash_def execute_list_db page_def sample_files_def)

lemma register_fields_chars:
  assumes "register_fields body = (u, m, p)"
  shows "set (u @ m @ p) \<subseteq> {c. is_alnum c \<or> c \<in> {CHR ''_'', CHR ''%'', CHR ''.''}}"
proof (cases "rx_last register_pattern body None")
  case None
  then show ?thesis using assms by (simp add: register_fields_def)
next
  case (Some ts)
  then have "rx_texts register_pattern ts" using rx_last_sound [OF Some] by simp
  then obtain t1 t3 t5 t8 where
    t: "ts = [''Username='', t1, ''&email='', t3, ''%40'', t5, ''.com'', ''&password='', t8]"
      "list_all user_char t1" "list_all is_alnum t3" "list_all is_alpha t5" "list_all is_alnum t8"
    by (auto simp: rx_texts_def register_pattern_def list_all2_Cons1)
  have lit: "set (''%40'') \<subseteq> {c. is_alnum c \<or> c \<in> {CHR ''_'', CHR ''%'', CHR ''.''}}"
    "set (''.com'') \<subseteq> {c. is_alnum c \<or> c \<in> {CHR ''_'', CHR ''%'', CHR ''.''}}"
    by (simp_all add: is_alnum_def is_alpha_def in_range_def)
  have "u = t1" "m = t3 @ ''%40'' @ t5 @ ''.com''" "p = t8" using assms Some t(1) by (simp_all add: register_fields_def numeral_eq_Suc)
  then show ?thesis using t(2-5) lit by (fastforce simp: list_all_iff is_alnum_def)
qed

lemma filter_none: "set s \<subseteq> {c. Q c} \<Longrightarrow> (\<And>c. Q c \<Longrightarrow> \<not> P c) \<Longrightarrow> filter P s = []"
  by (auto simp: filter_empty_conv)

text \<open>C25. Whatever a client posts to \<^verbatim>\<open>/register\<close>, the fields that reach the SQL statement consist of letters, digits and the
  characters \<open>_ % .\<close>; the statement has the six quotes of its own text and no other, and no backslash.\<close>

theorem register_statement_safe:
  "case register_fields body of (u, m, p) \<Rightarrow>
     set (u @ m @ p) \<subseteq> {c. is_alnum c \<or> c \<in> {CHR ''_'', CHR ''%'', CHR ''.''}} \<and>
     filter (\<lambda>c. c = CHR 0x27 \<or> c = CHR 0x5C) (insert_statement u m p) = replicate 6 (CHR 0x27)"
proof -
  obtain u m p where f: "register_fields body = (u, m, p)" by (cases "register_fields body")
  let ?Q = "\<lambda>c. is_alnum c \<or> c \<in> {CHR ''_'', CHR ''%'', CHR ''.''}" let ?P = "\<lambda>c. c = CHR 0x27 \<or> c = CHR 0x5C"
  have sub: "set (u @ m @ p) \<subseteq> {c. ?Q c}" by (rule register_fields_chars [OF f])
  have no: "?Q c \<Longrightarrow> \<not> ?P c" for c by (auto simp: is_alnum_def is_alpha_def in_range_def)
  have "filter ?P u = []" "filter ?P m = []" "filter ?P p = []"
    by (rule filter_none [OF _ no]; use sub in simp)+
  then have "filter ?P (insert_statement u m p) = replicate 6 (CHR 0x27)"
    by (simp add: insert_statement_def numeral_eq_Suc)
  then show ?thesis using f sub by simp
qed

lemma register_user_returns:
  assumes "path_ok a"
  shows "\<exists>a1. register_user D req a = Inr a1"
proof -
  have "\<exists>a1. set_file i b = Inr a1" if "page_name i" "app_serverPath b = app_serverPath a" for i and b :: "('a, 'b) app"
    using set_file_page [of b i] assms that by (auto simp: path_ok_def)
  then show ?thesis by (auto simp: register_user_def Let_def split: prod.splits)
qed

definition jpg_route :: "httpRequest \<Rightarrow> bool" where
  "jpg_route req \<longleftrightarrow> req_path req \<notin> {''/'', ''/index.html'', ''/register'', ''/welcome''} \<and> contains ''.jpg'' (req_path req)"

text \<open>The array of 200 characters for file names is written past its end exactly by a request for a picture whose path,
  after the path of the server, has no room in it; every other request is answered.\<close>

lemma realFile_overflow:
  assumes "path_ok a"
  shows "if jpg_route req \<and> 200 \<le> length (app_serverPath a) + length (c_str (req_path req))
    then app_onRequest fs D req resp a = Inl OutOfBounds
    else \<exists>r a1. app_onRequest fs D req resp a = Inr (r, a1)"
proof (cases "jpg_route req")
  case True
  then have "app_onRequest fs D req resp a = serve_jpg fs (req_path req) (ok_headers ''image/jpg'' resp) a"
    by (auto simp: jpg_route_def app_onRequest_def)
  then show ?thesis using True
    by (auto simp: serve_jpg_def set_file_iff [OF assms] split: option.splits)
next
  case False
  obtain a1 where "register_user D req a = Inr a1" using register_user_returns [OF assms] by blast
  then show ?thesis using False by (auto simp: jpg_route_def app_onRequest_def serve_page_ok [OF assms])
qed

definition routed :: "httpRequest \<Rightarrow> bool" where
  "routed req \<longleftrightarrow> req_path req \<in> {''/'', ''/index.html'', ''/register'', ''/welcome''} \<or> contains ''.jpg'' (req_path req) \<or>
     req_method req = kGet \<and> contains ''/login'' (req_path req)"

lemma resp_ops:
  "resp_statusCode (setBody_resp b r) = resp_statusCode r" "resp_closeConnection (setBody_resp b r) = resp_closeConnection r"
  "resp_statusCode (ok_headers t r) = k200Ok" "resp_closeConnection (ok_headers t r) = resp_closeConnection r"
  "resp_statusCode (addHeader_resp k v r) = resp_statusCode r" "resp_closeConnection (addHeader_resp k v r) = resp_closeConnection r"
  "resp_statusCode (setContentType t r) = resp_statusCode r" "resp_closeConnection (setContentType t r) = resp_closeConnection r"
  "resp_statusCode (setCloseConnection c r) = resp_statusCode r" "resp_closeConnection (setCloseConnection c r) = c"
  by (simp_all add: setBody_resp_def ok_headers_def addHeader_resp_def setContentType_def setStatusMessage_def setStatusCode_def
      setCloseConnection_def)

lemma serve_jpg_headers:
  "serve_jpg fs path resp a = Inr (r, a1) \<Longrightarrow>
   resp_statusCode r = resp_statusCode resp \<and> resp_closeConnection r = resp_closeConnection resp"
proof -
  assume s: "serve_jpg fs path resp a = Inr (r, a1)"
  then obtain x where x: "set_file path a = Inr x" by (auto simp: serve_jpg_def result_simps)
  show ?thesis using s x by (cases "fs (app_realFile x)") (auto simp: serve_jpg_def resp_ops split: if_splits)
qed

text \<open>A request is answered with the status 200 exactly if it has a route; any other is answered with 404 and the
  connection is closed.\<close>

theorem app_routes:
  assumes "app_onRequest fs D req resp a = Inr (r, a1)"
  shows "resp_statusCode r = (if routed req then k200Ok else k404NotFound) \<and>
    (resp_closeConnection r \<longleftrightarrow> (\<not> routed req \<or> resp_closeConnection resp))"
  using assms serve_jpg_headers [of fs "req_path req" "ok_headers ''image/jpg'' resp" a r a1]
  by (auto simp: app_onRequest_def routed_def serve_page_def result_simps resp_ops setStatusMessage_def setStatusCode_def
      split: if_splits)

theorem app_routes_witness:
  "\<exists>r a1. app_onRequest sample_files (list_db 0) (HttpRequest\<lparr>req_path := ''/nothing''\<rparr>) (HttpResponse False) sample_app = Inr (r, a1) \<and>
    resp_statusCode r = k404NotFound \<and> resp_closeConnection r"
proof -
  have n: "\<not> routed (HttpRequest\<lparr>req_path := ''/nothing''\<rparr>)" by (simp add: routed_def HttpRequest_def)
  obtain r a1 where "app_onRequest sample_files (list_db 0) (HttpRequest\<lparr>req_path := ''/nothing''\<rparr>) (HttpResponse False) sample_app = Inr (r, a1)"
    by (auto simp: app_onRequest_def serve_page_ok [OF sample_app_ok(1)])
  with app_routes [OF this] n show ?thesis by auto
qed

lemma load_users_hash:
  assumes "redis_contract D hash"
  shows "hash (load_users D rows r) HASH_KEY = hash r HASH_KEY ++ map_of (rev (map (\<lambda>(u, m, p). (u, p)) rows))"
proof (induction rows arbitrary: r)
  case (Cons row rows)
  obtain u m p where row: "row = (u, m, p)" by (cases row)
  let ?l = "rev (map (\<lambda>(u, m, p). (u, p)) rows)"
  have "hash (load_users D (row # rows) r) HASH_KEY = hash (fst (setHField D r HASH_KEY u p)) HASH_KEY ++ map_of ?l"
    unfolding row load_users.simps by (rule Cons.IH)
  also have "\<dots> = (hash r HASH_KEY)(u \<mapsto> p) ++ map_of ?l" unfolding redis_contractD(3) [OF assms] by simp
  also have "\<dots> = hash r HASH_KEY ++ map_of (?l @ [(u, p)])"
    using map_add_rev_Cons [of "hash r HASH_KEY" u p "rev ?l"] by simp
  finally show ?case by (simp add: row)
qed simp

text \<open>Every user of the data base can log in from the start, with the password of its last row.\<close>

lemma Application_users:
  assumes "redis_contract D hash" "a = Application D root rows r d" "hash r HASH_KEY = Map.empty" "login_fields q = (u, p)"
  shows "login_page D q (app_redis a) =
    (if map_of (rev (map (\<lambda>(u, m, p). (u, p)) rows)) u = Some p then ''/welcome.html'' else ''/loginFailed.html'')"
  using login_page_iff [OF assms(1,4)] load_users_hash [OF assms(1), of rows r] assms(2,3) by (simp add: Application_def)

lemma plus_try_none: "(\<And>m. 0 < m \<Longrightarrow> m \<le> n \<Longrightarrow> f (drop m s) = None) \<Longrightarrow> plus_try f s n = None"
  by (induction n) simp_all

lemma login_no_mark: "CHR ''?'' \<notin> set s \<Longrightarrow> rx_search login_pattern s = None"
  by (induction s) (auto simp: login_pattern_def)

text \<open>A name with an underscore can be registered but is not found in a login.\<close>

lemma underscore_not_found:
  assumes "CHR ''_'' \<in> set u" "word_of user_char u" "word_of is_alnum p"
  shows "rx_last login_pattern (login_query u p) None = None"
proof -
  let ?s = "u @ ''&password='' @ p"
  let ?r = "[Lit ''&password='', Plus is_alnum]"
  have "rx_match ?r (drop m ?s) = None" if "0 < m" "m \<le> length (takeWhile is_alnum ?s)" for m
  proof -
    obtain u1 u2 where u: "u = u1 @ CHR ''_'' # u2" "CHR ''_'' \<notin> set u1" using split_list_first [OF assms(1)] by auto
    have "length (takeWhile is_alnum ?s) \<le> length u1"
      unfolding u(1) using char_classes(4) by (auto simp: takeWhile_append intro: length_takeWhile_le)
    with that have m: "m < length u" using u(1) by simp
    then obtain c cs where cs: "drop m u = c # cs" by (cases "drop m u") auto
    then have d: "drop m ?s = c # cs @ ''&password='' @ p" "c \<in> set u"
      using m in_set_dropD [of c m u] by simp_all
    have "c \<noteq> CHR ''&''" using assms(2) d(2) char_classes(1) by (auto simp: word_of_def list_all_iff)
    then show ?thesis using d(1) by simp
  qed
  then have "plus_try (rx_match ?r) ?s (length (takeWhile is_alnum ?s)) = None" by (rule plus_try_none)
  then have m: "rx_match login_pattern (login_query u p) = None" by (simp add: login_pattern_def login_query_def)
  have "CHR ''?'' \<notin> set ?s"
    using assms(2,3) by (auto simp: word_of_def list_all_iff is_alnum_def is_alpha_def in_range_def)
  then have "rx_search login_pattern (''Username='' @ ?s) = None" by (intro login_no_mark) simp
  then have "rx_search login_pattern (login_query u p) = None" using m by (simp add: login_query_def)
  then show ?thesis by (subst rx_last.simps) simp
qed

text \<open>A user whose name has an underscore is registered, with the welcome page as answer, and can never log in: the
  expression of the login does not know the underscore, the name it looks up is empty, and the right password is refused.\<close>

theorem underscore_user_locked_out:
  assumes "redis_contract D hash" "path_ok a" "CHR ''_'' \<in> set u"
    "word_of user_char u" "word_of is_alnum m" "word_of is_alpha d" "word_of is_alnum p"
    "hash (app_redis a) HASH_KEY u = None" "hash (app_redis a) HASH_KEY [] = None"
    "snd (execute D (app_mysql a) (insert_statement u (m @ ''%40'' @ d @ ''.com'') p)) = 0"
  shows "\<exists>r1 a1 r2 a2. app_onRequest fs D (post_register (register_body u m d p)) resp a = Inr (r1, a1) \<and>
    resp_body r1 = page fs (app_serverPath a @ ''/welcome.html'') \<and>
    app_onRequest fs D (get_login (login_query u p)) resp' a1 = Inr (r2, a2) \<and>
    resp_body r2 = page fs (app_serverPath a @ ''/loginFailed.html'')"
proof -
  have ne: "register_body u m d p \<noteq> []" by (simp add: register_body_def)
  from register_stores [OF assms(1,2) ne register_fields_form [OF assms(4-7)] assms(8,10), of fs resp] obtain a1 where
    a1: "app_onRequest fs D (post_register (register_body u m d p)) resp a =
        Inr (setBody_resp (page fs (app_serverPath a @ ''/welcome.html'')) (ok_headers ''text/html'' resp), a1)"
      "app_serverPath a1 = app_serverPath a"
      "hash (app_redis a1) HASH_KEY = (hash (app_redis a) HASH_KEY)(u \<mapsto> p)" by auto
  have "login_fields (login_query u p) = ([], [])" using underscore_not_found [OF assms(3,4,7)] by (simp add: login_fields_def)
  moreover have "hash (app_redis a1) HASH_KEY [] = None" using a1(3) assms(9,3) by auto
  ultimately have "login_page D (login_query u p) (app_redis a1) = ''/loginFailed.html''"
    using login_page_iff [OF assms(1)] by auto
  moreover have "path_ok a1" using assms(2) a1(2) by (simp add: path_ok_def)
  ultimately show ?thesis using a1(1,2) get_login_page [of a1 fs D "login_query u p" resp'] by (auto simp: setBody_resp_def)
qed

theorem underscore_user_locked_out_witness:
  "\<exists>r1 a1 r2 a2. app_onRequest sample_files (list_db 0) (post_register (register_body ''b_b'' ''b1'' ''mail'' ''pw1'')) (HttpResponse True) sample_app
      = Inr (r1, a1) \<and> resp_body r1 = ''/srv/welcome.html'' \<and>
    app_onRequest sample_files (list_db 0) (get_login (login_query ''b_b'' ''pw1'')) (HttpResponse True) a1 = Inr (r2, a2) \<and>
    resp_body r2 = ''/srv/loginFailed.html''"
  using underscore_user_locked_out [OF list_db_contract sample_app_ok(1) _ sample_words(6,2,3,4), of 0 sample_files "HttpResponse True" "HttpResponse True"]
  by (simp add: sample_app_ok list_hash_def execute_list_db page_def sample_files_def)

text \<open>C40. One registration with a body of any other shape stores the empty user with the empty password; from then on every
  login whose query has not the expected shape is welcomed.\<close>

theorem malformed_login_welcomed:
  assumes "redis_contract D hash" "path_ok a" "body \<noteq> []" "rx_last register_pattern body None = None"
    "rx_last login_pattern q None = None" "hash (app_redis a) HASH_KEY [] = None"
    "snd (execute D (app_mysql a) (insert_statement [] [] [])) = 0"
  shows "\<exists>r1 a1 r2 a2. app_onRequest fs D (post_register body) resp a = Inr (r1, a1) \<and>
    app_onRequest fs D (get_login q) resp' a1 = Inr (r2, a2) \<and>
    resp_body r2 = page fs (app_serverPath a @ ''/welcome.html'')"
proof -
  have "register_fields body = ([], [], [])" using assms(4) by (simp add: register_fields_def)
  from register_stores [OF assms(1-3) this assms(6,7), of fs resp] obtain r1 a1 where
    a1: "app_onRequest fs D (post_register body) resp a = Inr (r1, a1)" "app_serverPath a1 = app_serverPath a"
      "hash (app_redis a1) HASH_KEY [] = Some []" by auto
  have "login_fields q = ([], [])" using assms(5) by (simp add: login_fields_def)
  then have "login_page D q (app_redis a1) = ''/welcome.html''" using login_page_iff [OF assms(1)] a1(3) by simp
  moreover have "path_ok a1" using assms(2) a1(2) by (simp add: path_ok_def)
  ultimately show ?thesis using a1(1,2) get_login_page [of a1 fs D q resp'] by (auto simp: setBody_resp_def)
qed

theorem malformed_login_welcomed_witness:
  "\<exists>r1 a1 r2 a2. app_onRequest sample_files (list_db 0) (post_register ''x'') (HttpResponse True) sample_app = Inr (r1, a1) \<and>
    app_onRequest sample_files (list_db 0) (get_login []) (HttpResponse True) a1 = Inr (r2, a2) \<and>
    resp_body r2 = ''/srv/welcome.html''"
proof -
  have "rx_last register_pattern ''x'' None = None" by (subst rx_last.simps) (simp add: register_pattern_def)
  moreover have "rx_last login_pattern [] None = None" by (subst rx_last.simps) (simp add: login_pattern_def)
  ultimately show ?thesis
    using malformed_login_welcomed [OF list_db_contract sample_app_ok(1), of "''x''" "[]" 0 sample_files "HttpResponse True" "HttpResponse True"]
    by (simp add: sample_app_ok list_hash_def execute_list_db page_def sample_files_def)
qed

text \<open>A registration that the data base refuses is answered with the status 200 and the file of the request before,
  whoever sent that.\<close>

theorem failed_insert_serves_old_file:
  assumes "redis_contract D hash" "body \<noteq> []" "register_fields body = (u, m, p)" "hash (app_redis a) HASH_KEY u = None"
    "snd (execute D (app_mysql a) (insert_statement u m p)) \<noteq> 0"
  shows "\<exists>r a1. app_onRequest fs D (post_register body) resp a = Inr (r, a1) \<and> resp_statusCode r = k200Ok \<and>
    resp_body r = page fs (app_realFile a) \<and> app_redis a1 = app_redis a"
proof -
  let ?a1 = "a\<lparr>app_mysql := fst (execute D (app_mysql a) (insert_statement u m p))\<rparr>"
  have "register_user D (post_register body) a = Inr ?a1"
    using assms redis_contractD(1) [OF assms(1)] by (simp add: register_user_def post_register_def case_prod_beta Let_def)
  then have "app_onRequest fs D (post_register body) resp a = Inr (setBody_resp (getHtml fs ?a1) (ok_headers ''text/html'' resp), ?a1)"
    by (simp add: app_onRequest_def post_register_def)
  then show ?thesis using getHtml_page [of fs ?a1] by (simp add: resp_ops) (simp add: setBody_resp_def)
qed

theorem failed_insert_serves_old_file_witness:
  "\<exists>r a1. app_onRequest sample_files (list_db 1) (post_register (register_body ''bob'' ''b1'' ''mail'' ''pw1'')) (HttpResponse True)
      (sample_app\<lparr>app_realFile := ''/srv/welcome.html''\<rparr>) = Inr (r, a1) \<and> resp_body r = ''/srv/welcome.html''"
proof -
  have "word_of user_char ''bob''" using sample_words(1) by (auto simp: word_of_def)
  from failed_insert_serves_old_file [OF list_db_contract _ register_fields_form [OF this sample_words(2,3,4)],
      of "sample_app\<lparr>app_realFile := ''/srv/welcome.html''\<rparr>" 1 sample_files "HttpResponse True"]
  show ?thesis by (simp add: register_body_def sample_app_ok list_hash_def execute_list_db) (auto simp: page_def sample_files_def)
qed

section \<open>Several input threads\<close>

text \<open>
  The application object is shared by the threads of the server.  A handler that serves a page first writes the name of
  the file into \<^verbatim>\<open>realFile_\<close> and then reads the file of that name.
\<close>

datatype handler = Choosing string | Reading string | Served string string

inductive handler_step :: "files \<Rightarrow> ('r, 'd) app \<times> handler list \<Rightarrow> ('r, 'd) app \<times> handler list \<Rightarrow> bool" for fs where
  choose: "i < length hs \<Longrightarrow> hs ! i = Choosing index \<Longrightarrow> set_file index a = Inr a1 \<Longrightarrow>
    handler_step fs (a, hs) (a1, hs[i := Reading index])"
| read: "i < length hs \<Longrightarrow> hs ! i = Reading index \<Longrightarrow> handler_step fs (a, hs) (a, hs[i := Served index (getHtml fs a)])"

text \<open>With one thread a handler serves the page it has chosen.  With two, one of them may serve the page that the other
  one has chosen.\<close>

theorem shared_file_race:
  assumes "path_ok a" "page_name i" "page_name j"
  shows "(\<forall>b s. (handler_step fs)\<^sup>*\<^sup>* (a, [Choosing i]) (b, [Served i s]) \<longrightarrow> s = page fs (app_serverPath a @ i)) \<and>
    (\<exists>b. (handler_step fs)\<^sup>*\<^sup>* (a, [Choosing i, Choosing j]) (b, [Served i (page fs (app_serverPath a @ j)), Reading j]))"
proof
  let ?I = "\<lambda>(b, hs). hs = [Choosing i] \<and> b = a \<or> hs = [Reading i] \<and> app_realFile b = app_serverPath a @ i \<or>
    hs = [Served i (page fs (app_serverPath a @ i))]"
  have step: "?I y" if "?I x" "handler_step fs x y" for x y
    using that(2,1) set_file_page [OF assms(1,2)] by cases (auto simp: getHtml_page)
  have "?I y" if "(handler_step fs)\<^sup>*\<^sup>* (a, [Choosing i]) y" for y
    using that by (induction rule: rtranclp_induct) (use step in auto)
  then show "\<forall>b s. (handler_step fs)\<^sup>*\<^sup>* (a, [Choosing i]) (b, [Served i s]) \<longrightarrow> s = page fs (app_serverPath a @ i)" by fastforce
next
  let ?a1 = "a\<lparr>app_realFile := app_serverPath a @ i\<rparr>" let ?a2 = "?a1\<lparr>app_realFile := app_serverPath a @ j\<rparr>"
  have 1: "handler_step fs (a, [Choosing i, Choosing j]) (?a1, [Reading i, Choosing j])"
    using choose [of 0 "[Choosing i, Choosing j]" i a ?a1 fs] set_file_page [OF assms(1,2)] by simp
  have "path_ok ?a1" using assms(1) by (simp add: path_ok_def)
  from set_file_page [OF this assms(3)] have 2: "handler_step fs (?a1, [Reading i, Choosing j]) (?a2, [Reading i, Reading j])"
    using choose [of 1 "[Reading i, Choosing j]" j ?a1 ?a2 fs] by simp
  have 3: "handler_step fs (?a2, [Reading i, Reading j]) (?a2, [Served i (page fs (app_serverPath a @ j)), Reading j])"
    using read [of 0 "[Reading i, Reading j]" i fs ?a2] by (simp add: getHtml_page)
  show "\<exists>b. (handler_step fs)\<^sup>*\<^sup>* (a, [Choosing i, Choosing j]) (b, [Served i (page fs (app_serverPath a @ j)), Reading j])"
    using 1 2 3 by (meson r_into_rtranclp rtranclp.rtrancl_into_rtrancl)
qed

theorem shared_file_race_witness:
  "\<exists>b. (handler_step sample_files)\<^sup>*\<^sup>* (sample_app, [Choosing ''/index.html'', Choosing ''/404.html''])
     (b, [Served ''/index.html'' ''/srv/404.html'', Reading ''/404.html''])"
  using shared_file_race [OF sample_app_ok(1) page_names(1,6), of sample_files] by (simp add: sample_app_ok page_def sample_files_def)

text \<open>With at least one argument but fewer than nine, the program reads past the end of its command line.\<close>

lemma main_config_missing: "2 \<le> length argv \<Longrightarrow> length argv \<le> 9 \<Longrightarrow> main_config atoi argv = Inl NullDeref"
  by (simp add: main_config_def)

end
