(* ===== verification/Lute_WebServer.thy ===== *)
theory Lute_WebServer
  imports Lute_HttpServer Lute_App
begin

text \<open>
  The whole web server: the application of \<^verbatim>\<open>app/http/src/app.cc\<close> as the callback of \<^verbatim>\<open>HttpServer\<close>, on a
  \<^verbatim>\<open>TCPConnection\<close> whose input buffer holds the bytes of a client.  The state of the application is the state of the
  user's code that the connections share.  The properties relate the bytes that arrive to the bytes that leave.
\<close>

definition web_onMessage ::
  "'k kernel \<Rightarrow> files \<Rightarrow> ('r, 'd) db \<Rightarrow> timestamp \<Rightarrow> ('k, ('r, 'd) app, 'z) http_conn_scheme \<Rightarrow>
   ('k, ('r, 'd) app, 'z) http_conn_scheme result" where
  "web_onMessage K fs D =
     onMessage K \<lparr>connectionCallback = None, messageCallback = None, writeCompleteCallback = None,
       highWaterMarkCallback = None, conn_closeCallback = None\<rparr> (app_onRequest fs D)"

section \<open>Pages on the wire\<close>

text \<open>The response with a page of the application.\<close>

definition web_page :: "files \<Rightarrow> string \<Rightarrow> bool \<Rightarrow> httpResponse" where
  "web_page fs name close = setBody_resp (page fs name) (ok_headers ''text/html'' (HttpResponse close))"

lemmas resp_defs = setBody_resp_def ok_headers_def addHeader_resp_def setContentType_def setStatusMessage_def setStatusCode_def
  HttpResponse_def setCloseConnection_def

lemma web_page_sel:
  "resp_body (web_page fs name close) = page fs name" "resp_closeConnection (web_page fs name close) = close"
  "resp_headers (web_page fs name close) = [(''Content-Type'', ''text/html''), (''Server'', ''Lux polaris'')]"
  "resp_statusMessage (web_page fs name close) = ''OK''" "resp_statusCode (web_page fs name close) = k200Ok"
  by (simp_all add: web_page_def resp_defs)

lemma response_text_length:
  assumes "length (resp_body r) < 10 ^ 13"
  shows "length (response_text r) \<le> 75 + length (resp_statusMessage r) +
    length (concat (map header_text (resp_headers r))) + length (resp_body r)"
  using status_code_length [of "resp_statusCode r"] dec_length [OF assms]
  by (simp add: response_text_def status_line_def response_headers_def kCRLF_def)

text \<open>Room in memory for the page \<open>name\<close> on the connection \<open>w\<close>.\<close>

definition page_room :: "files \<Rightarrow> string \<Rightarrow> ('k, 'z) conn \<Rightarrow> bool" where
  "page_room fs name w \<longleftrightarrow>
     length (page fs name) < 10 ^ 13 \<and> used_bytes (c_outputBuffer w) + length (page fs name) + 200 \<le> vec_max"

lemma web_page_fits:
  assumes "page_room fs name w"
  shows "response_fits (web_page fs name close) w"
  using response_text_length [of "web_page fs name close"] assms
  by (simp add: response_fits_def out_room_def page_room_def web_page_sel kCRLF_def vec_max_def)

text \<open>A client that keeps the connection reads the page.\<close>

lemma client_reads_page:
  "\<exists>hs. read_response (response_text (web_page fs name False) @ follow) = Some (''HTTP/1.1 200 OK'', hs, page fs name, follow)"
proof -
  have "dec 200 = ''200''" by code_simp
  then have "status_line (web_page fs name False) = ''HTTP/1.1 200 OK''" by (simp add: status_line_def web_page_sel)
  then show ?thesis using read_response_text [of "web_page fs name False" follow] by (simp add: web_page_sel)
qed

section \<open>Requests of a client\<close>

text \<open>Headers of a client that leaves the connection open.\<close>

definition keeping :: "(string \<times> string) list \<Rightarrow> bool" where
  "keeping hdrs \<longleftrightarrow> list_all wf_header hdrs \<and> list_all (\<lambda>h. fst h \<noteq> ''Connection'') hdrs"

lemma keeping_open: "keeping hdrs \<Longrightarrow> \<not> wants_close (request_of t m path query kHttp11 hdrs body)"
  by (force simp: wants_close_def request_of_def getHeader_def keeping_def list_all_iff split: option.splits
      dest: map_of_SomeD)

lemma app_onRequest_same:
  assumes "req_path r = req_path r'" "req_method r = req_method r'" "req_query r = req_query r'" "req_body r = req_body r'"
  shows "app_onRequest fs D r resp a = app_onRequest fs D r' resp a"
  using assms by (simp add: app_onRequest_def register_user_def)

lemma request_of_register:
  "app_onRequest fs D (request_of t kPost ''/register'' [] v hdrs body) resp a = app_onRequest fs D (post_register body) resp a"
  by (rule app_onRequest_same) (simp_all add: request_of_def post_register_def HttpRequest_def)

lemma request_of_login:
  "app_onRequest fs D (request_of t kGet ''/login'' q v hdrs []) resp a = app_onRequest fs D (get_login q) resp a"
  by (rule app_onRequest_same) (simp_all add: request_of_def get_login_def HttpRequest_def)

lemma login_target:
  assumes "word_of is_alnum u" "word_of is_alnum p"
  shows "wf_target ''/login'' (login_query u p)"
proof -
  have "\<not> is_alnum CHR '' ''" "\<not> is_alnum CHR 0x0D" by (simp_all add: is_alnum_def is_alpha_def in_range_def)
  then have "CHR '' '' \<notin> set u \<and> CHR 0x0D \<notin> set u \<and> CHR '' '' \<notin> set p \<and> CHR 0x0D \<notin> set p"
    using assms by (auto simp: word_of_def list_all_iff)
  then show ?thesis by (simp add: wf_target_def login_query_def)
qed

text \<open>One exchange: a request that the application answers with a page.\<close>

lemma web_exchange:
  assumes "kernel_contract K interest" "conn_inv interest w" "c_state w = kConnected" "h_context w = Some HttpContext"
    "m \<noteq> kInvalid" "wf_target path query" "keeping hdrs"
    "content (c_inputBuffer w) = request_text m path query kHttp11 hdrs body" "page_room fs name w"
    and "app_onRequest fs D (request_of t m path query kHttp11 hdrs body) (HttpResponse False) (h_user w) = Inr (web_page fs name False, a)"
  shows "\<exists>w' bs hs. web_onMessage K fs D t w = Inr w' \<and> conn_inv interest w' \<and> c_state w' = kConnected \<and>
    h_context w' = Some HttpContext \<and> h_user w' = a \<and> replied K bs w w' \<and>
    read_response bs = Some (''HTTP/1.1 200 OK'', hs, page fs name, [])"
proof -
  let ?req = "request_of t m path query kHttp11 hdrs body"
  have "list_all wf_header hdrs" using assms(7) by (simp add: keeping_def)
  moreover have "answers (app_onRequest fs D) ?req (h_user w) (web_page fs name False) a"
    using assms(10) keeping_open [OF assms(7)] by (simp add: answers_def)
  ultimately show ?thesis
    using onMessage_request [OF assms(1-5) _ assms(6) _ assms(8) _ web_page_fits [OF assms(9)], where f = "app_onRequest fs D" and t = t and u = a]
      client_reads_page [of fs name "[]"]
    by (fastforce simp: web_onMessage_def web_page_sel)
qed

section \<open>Properties of the web server\<close>

text \<open>C12. Registration and login on the wire: on an established connection the bytes of a form posted to \<^verbatim>\<open>/register\<close> are
  answered with bytes that a client reads as the welcome page; then the bytes of a login on any connection that shares
  the application are answered with the welcome page if the password is the registered one, and with the page of a
  failed login if it is another.  Both connections stay open and ready for the next request.\<close>

theorem web_register_then_login:
  assumes "kernel_contract K interest" "conn_inv interest w" "c_state w = kConnected" "h_context w = Some HttpContext"
    "conn_inv interest w2" "c_state w2 = kConnected" "h_context w2 = Some HttpContext"
    "redis_contract D hash" "path_ok (h_user w)" "word_of is_alnum u" "word_of is_alnum m" "word_of is_alpha d"
    "word_of is_alnum p" "word_of is_alnum q" "hash (app_redis (h_user w)) HASH_KEY u = None"
    "snd (execute D (app_mysql (h_user w)) (insert_statement u (m @ ''%40'' @ d @ ''.com'') p)) = 0"
    "keeping hdrs" "keeping hdrs2"
    "content (c_inputBuffer w) = request_text kPost ''/register'' [] kHttp11 hdrs (register_body u m d p)"
    "content (c_inputBuffer w2) = request_text kGet ''/login'' (login_query u q) kHttp11 hdrs2 []"
    "welcome = app_serverPath (h_user w) @ ''/welcome.html''" "failed = app_serverPath (h_user w) @ ''/loginFailed.html''"
    "page_room fs welcome w" "page_room fs welcome w2" "page_room fs failed w2"
  shows "\<exists>w1 bs hs w3 bs2 hs2. web_onMessage K fs D t w = Inr w1 \<and> c_state w1 = kConnected \<and> h_context w1 = Some HttpContext \<and>
    replied K bs w w1 \<and> read_response bs = Some (''HTTP/1.1 200 OK'', hs, page fs welcome, []) \<and>
    web_onMessage K fs D t2 (w2\<lparr>h_user := h_user w1\<rparr>) = Inr w3 \<and> c_state w3 = kConnected \<and> h_context w3 = Some HttpContext \<and>
    replied K bs2 w2 w3 \<and>
    read_response bs2 = Some (''HTTP/1.1 200 OK'', hs2, page fs (if q = p then welcome else failed), [])"
proof -
  let ?a = "h_user w"
  have "word_of user_char u" using assms(10) by (auto simp: word_of_def list_all_iff)
  from register_fields_form [OF this assms(11-13)]
  have f: "register_fields (register_body u m d p) = (u, m @ ''%40'' @ d @ ''.com'', p)" .
  have ne: "register_body u m d p \<noteq> []" by (simp add: register_body_def)
  from register_stores [OF assms(8,9) ne f assms(15,16), of fs "HttpResponse False"] obtain a1 where
    a1: "app_onRequest fs D (post_register (register_body u m d p)) (HttpResponse False) ?a = Inr (web_page fs welcome False, a1)"
      "app_serverPath a1 = app_serverPath ?a" "hash (app_redis a1) HASH_KEY u = Some p"
    unfolding web_page_def assms(21) by auto
  have "wf_target ''/register'' []" by (simp add: wf_target_def)
  from web_exchange [OF assms(1-4) _ this assms(17,19,23), of D t a1] a1(1) obtain w1 bs hs where
    w1: "web_onMessage K fs D t w = Inr w1" "c_state w1 = kConnected" "h_context w1 = Some HttpContext" "h_user w1 = a1"
      "replied K bs w w1" "read_response bs = Some (''HTTP/1.1 200 OK'', hs, page fs welcome, [])"
    by (auto simp: request_of_register)
  let ?w2 = "w2\<lparr>h_user := a1\<rparr>" and ?name = "if q = p then welcome else failed"
  have i2: "conn_inv interest ?w2" "c_state ?w2 = kConnected" "h_context ?w2 = Some HttpContext"
      "content (c_inputBuffer ?w2) = request_text kGet ''/login'' (login_query u q) kHttp11 hdrs2 []" "page_room fs ?name ?w2"
    using user_inv [OF assms(5)] assms(6,7,20,24,25)
    by (simp_all add: page_room_def)
  have "path_ok a1" using assms(9) a1(2) by (simp add: path_ok_def)
  from get_login_page [OF this, of fs D "login_query u q" "HttpResponse False"] obtain a3 where
    "app_onRequest fs D (get_login (login_query u q)) (HttpResponse False) (h_user ?w2) = Inr (web_page fs ?name False, a3)"
    using a1(2,3) login_page_iff [OF assms(8) login_fields_form [OF assms(10,14)], of "app_redis a1"] assms(21,22)
    by (auto simp: web_page_def)
  from web_exchange [OF assms(1) i2(1-3) _ login_target [OF assms(10,14)] assms(18) i2(4,5), of D t2 a3] this obtain w3 bs2 hs2 where
    w3: "web_onMessage K fs D t2 ?w2 = Inr w3" "c_state w3 = kConnected" "h_context w3 = Some HttpContext"
      "replied K bs2 ?w2 w3" "read_response bs2 = Some (''HTTP/1.1 200 OK'', hs2, page fs ?name, [])"
    by (auto simp: request_of_login)
  have "replied K bs2 w2 w3" using w3(4) by (simp add: replied_def peer_gone_def)
  then show ?thesis using w1 w3 by blast
qed

lemma sample_page_room:
  "length f \<le> 100 \<Longrightarrow> page_room sample_files f (sample_http inp a)"
  using sample_http_sel(5) [of "replicate 300 CHR ''x''" inp a]
  by (simp add: page_room_def page_def sample_files_def out_room_def used_bytes_def sample_http_def sample_tcp_def blank_tcp_def
      kCheapPrepend_def vec_max_def)

theorem web_register_then_login_witness:
  "\<exists>w1 w3 bs hs.
    web_onMessage echo_kernel sample_files (list_db 0) 7
      (sample_http (request_text kPost ''/register'' [] kHttp11 [(''Host'', ''x'')] (register_body ''bob'' ''b1'' ''mail'' ''pw1'')) sample_app) = Inr w1 \<and>
    web_onMessage echo_kernel sample_files (list_db 0) 8
      ((sample_http (request_text kGet ''/login'' (login_query ''bob'' ''pw2'') kHttp11 [] []) sample_app)\<lparr>h_user := h_user w1\<rparr>) = Inr w3 \<and>
    replied echo_kernel bs (sample_http (request_text kGet ''/login'' (login_query ''bob'' ''pw2'') kHttp11 [] []) sample_app) w3 \<and>
    read_response bs = Some (''HTTP/1.1 200 OK'', hs, ''/srv/loginFailed.html'', [])"
proof -
  let ?b = "request_text kPost ''/register'' [] kHttp11 [(''Host'', ''x'')] (register_body ''bob'' ''b1'' ''mail'' ''pw1'')"
  let ?b2 = "request_text kGet ''/login'' (login_query ''bob'' ''pw2'') kHttp11 [] []"
  let ?w = "sample_http ?b sample_app" and ?w2 = "sample_http ?b2 sample_app"
  have l: "length ?b \<le> 1000" "length ?b2 \<le> 1000"
    by (simp_all add: request_text_def register_body_def login_query_def kCRLF_def)
  have k: "keeping [(''Host'', ''x'')]" "keeping []" by (simp_all add: keeping_def isspace_def)
  have u: "h_user ?w = sample_app" by (rule sample_http_sel(6))
  have s: "path_ok (h_user ?w)" "list_hash (app_redis (h_user ?w)) HASH_KEY ''bob'' = None"
      "snd (execute (list_db 0) (app_mysql (h_user ?w)) (insert_statement ''bob'' (''b1'' @ ''%40'' @ ''mail'' @ ''.com'') ''pw1'')) = 0"
    using sample_app_ok by (simp_all add: u list_hash_def execute_list_db)
  have e: "''/srv/welcome.html'' = app_serverPath (h_user ?w) @ ''/welcome.html''"
      "''/srv/loginFailed.html'' = app_serverPath (h_user ?w) @ ''/loginFailed.html''"
    by (simp_all add: u sample_app_ok)
  have r: "page_room sample_files ''/srv/welcome.html'' ?w" "page_room sample_files ''/srv/welcome.html'' ?w2"
      "page_room sample_files ''/srv/loginFailed.html'' ?w2"
    by (rule sample_page_room; simp)+
  have p: "page sample_files ''/srv/loginFailed.html'' = ''/srv/loginFailed.html''" by (simp add: page_def sample_files_def)
  have "CHR ''1'' \<noteq> CHR ''2''" by simp
  with web_register_then_login [OF echo_kernel_contract sample_http_inv [OF l(1)] sample_http_sel(2,1) sample_http_inv [OF l(2)]
      sample_http_sel(2,1) list_db_contract s(1) sample_words(1-5) s(2,3) k sample_http_sel(3,3) e r, of 7 8]
  show ?thesis by (auto simp: p)
qed

text \<open>Every response of the application is a page with a bounded head.\<close>

lemma serve_jpg_page:
  "serve_jpg fs path resp a = Inr (r, a') \<Longrightarrow> resp_body resp = [] \<Longrightarrow> r = setBody_resp (page fs (app_realFile a')) resp"
proof -
  assume s: "serve_jpg fs path resp a = Inr (r, a')" and b: "resp_body resp = []"
  obtain x where x: "set_file path a = Inr x" using s by (auto simp: serve_jpg_def result_simps)
  have "resp = setBody_resp [] resp" using b by (cases resp) (simp add: setBody_resp_def)
  then show ?thesis using s x
    by (cases "fs (app_realFile x)") (auto simp: serve_jpg_def page_def split: if_splits)
qed

lemma app_response:
  assumes "app_onRequest fs D req (HttpResponse close) a = Inr (r, a')"
  shows "resp_body r = page fs (app_realFile a') \<and> length (resp_statusMessage r) \<le> 9 \<and>
    length (concat (map header_text (resp_headers r))) \<le> 60"
proof -
  let ?R = "HttpResponse close"
  let ?nf = "addHeader_resp ''Server'' ''Lux polaris'' (setContentType ''text/html'' (setStatusMessage ''Not Found'' (setStatusCode k404NotFound ?R)))"
  let ?b = "setBody_resp (page fs (app_realFile a'))"
  have P: "r = setBody_resp (page fs (app_realFile a')) h" if "serve_page fs i h a = Inr (r, a')" for i h r
    using that by (auto simp: serve_page_def result_simps getHtml_page)
  have J: "r = ?b (ok_headers ''image/jpg'' ?R)" if "serve_jpg fs i (ok_headers ''image/jpg'' ?R) a = Inr (r, a')" for i
    by (rule serve_jpg_page [OF that]) (simp add: resp_defs)
  have "r = ?b (ok_headers ''text/html'' ?R) \<or> r = ?b (ok_headers ''image/jpg'' ?R) \<or> r = setCloseConnection True (?b ?nf)"
    using assms unfolding app_onRequest_def
    by (auto simp: result_simps getHtml_page dest!: P dest: J split: if_split_asm)
  then show ?thesis by (elim disjE) (simp_all add: resp_defs kCRLF_def)
qed

text \<open>C35. The array overflow is reachable from the network, and it is the only way to stop the server with a well-formed
  request: the bytes of a request for a picture whose path does not fit into the array of 200 characters make
  the handler write past its end; every other well-formed request is answered with the page that the application
  chose, and the connection is open or shutting down as the response says.\<close>

theorem web_overflow_iff:
  assumes "kernel_contract K interest" "conn_inv interest w" "c_state w = kConnected" "h_context w = Some HttpContext"
    "m \<noteq> kInvalid" "v \<noteq> kUnknown" "wf_target path query" "list_all wf_header hdrs"
    "content (c_inputBuffer w) = request_text m path query v hdrs body" "path_ok (h_user w)" "\<forall>f. page_room fs f w"
  shows "if jpg_route (request_of t m path query v hdrs body) \<and> 200 \<le> length (app_serverPath (h_user w)) + length (c_str path)
    then web_onMessage K fs D t w = Inl OutOfBounds
    else \<exists>w' r. web_onMessage K fs D t w = Inr w' \<and> replied K (response_text r) w w' \<and>
      resp_body r = page fs (app_realFile (h_user w')) \<and> content (c_inputBuffer w') = [] \<and>
      c_state w' = (if resp_closeConnection r then kDisconnecting else kConnected)"
proof -
  let ?req = "request_of t m path query v hdrs body" and ?r0 = "\<lambda>req. HttpResponse (wants_close req)"
  have p: "req_path ?req = path" by (simp add: request_of_def)
  show ?thesis
  proof (cases "jpg_route ?req \<and> 200 \<le> length (app_serverPath (h_user w)) + length (c_str path)")
    case True
    then have "app_onRequest fs D ?req (?r0 ?req) (h_user w) = Inl OutOfBounds"
      using realFile_overflow [OF assms(10), of ?req fs D] by (simp add: p)
    with True onMessage_request_fails [OF assms(2,4-9), of "app_onRequest fs D" t] show ?thesis
      by (simp add: web_onMessage_def)
  next
    case False
    obtain r a where ra: "app_onRequest fs D ?req (?r0 ?req) (h_user w) = Inr (r, a)"
      using realFile_overflow [OF assms(10), of ?req fs D "?r0 ?req"] False by (auto simp: p)
    have A: "resp_body r = page fs (app_realFile a)" "length (resp_statusMessage r) \<le> 9"
        "length (concat (map header_text (resp_headers r))) \<le> 60" using app_response [OF ra] by auto
    have "page_room fs (app_realFile a) w" using assms(11) by blast
    then have "response_fits r w" using response_text_length [of r] A
      by (simp add: response_fits_def out_room_def page_room_def vec_max_def)
    moreover have "answers (app_onRequest fs D) ?req (h_user w) r a" using ra by (simp add: answers_def)
    ultimately obtain w' where "web_onMessage K fs D t w = Inr w'" "content (c_inputBuffer w') = []" "replied K (response_text r) w w'"
        "c_state w' = (if resp_closeConnection r then kDisconnecting else kConnected)" "h_user w' = a"
      using onMessage_request [OF assms(1-9), where f = "app_onRequest fs D" and u = a and t = t] unfolding web_onMessage_def by blast
    with False A(1) show ?thesis by (simp only: if_False) blast
  qed
qed

definition flat_files :: files where
  "flat_files f = Some \<lparr>f_iroth = True, f_isdir = False, f_content = Some ''x''\<rparr>"

theorem web_overflow_iff_witness:
  "web_onMessage echo_kernel flat_files (list_db 0) 7
     (sample_http (request_text kGet (''/'' @ replicate 200 CHR ''a'' @ ''.jpg'') [] kHttp11 [] []) sample_app) = Inl OutOfBounds"
proof -
  let ?path = "''/'' @ replicate 200 CHR ''a'' @ ''.jpg''"
  let ?b = "request_text kGet ?path [] kHttp11 [] []"
  let ?w = "sample_http ?b sample_app" and ?req = "request_of 7 kGet ?path [] kHttp11 [] []"
  have "c_str ?path = ?path" by (rule c_str_id) simp
  then have c: "200 \<le> length (app_serverPath (h_user ?w)) + length (c_str ?path)" by (simp only: length_append length_replicate)
  have "contains ''.jpg'' (replicate n CHR ''a'' @ ''.jpg'')" for n by (induction n) simp_all
  then have j: "jpg_route ?req"
    by (auto simp: jpg_route_def request_of_def dest: arg_cong [where f = length])
  have l: "length ?b \<le> 1000" by (simp add: request_text_def kCRLF_def)
  have t: "wf_target ?path []" by (simp add: wf_target_def)
  have u: "path_ok (h_user ?w)" using sample_app_ok by (simp only: sample_http_sel)
  have r: "\<forall>f. page_room flat_files f ?w"
    by (simp add: page_room_def page_def flat_files_def used_bytes_def sample_http_def sample_tcp_def blank_tcp_def
        kCheapPrepend_def vec_max_def)
  from web_overflow_iff [OF echo_kernel_contract sample_http_inv [OF l] sample_http_sel(2,1) _ _ t _ sample_http_sel(3) u r, of 7 "list_db 0"] j c
  show ?thesis by (simp only: if_True simp_thms list.pred_inject http_method.distinct http_version.distinct)
qed

end
