(* ===== verification/Lute_CDN.thy ===== *)
theory Lute_CDN
  imports Lute_TCPServer Lute_Wire
begin

text \<open>
  The receiver of \<^verbatim>\<open>app/CDN/src/main.cc\<close>: its server and the callbacks it gives to its connections.  It greets a new connection with three
  bytes and takes what arrives as 16-bit numbers in network byte order; each number is printed and its first byte in
  memory is appended to a file.  The file is an \<^verbatim>\<open>AppendFile\<close> of another library, a parameter with the laws of
  appending and flushing.
\<close>

record 'f append_file =
  af_append :: "'f \<Rightarrow> byte list \<Rightarrow> 'f"
  af_flush :: "'f \<Rightarrow> 'f"

definition append_contract :: "'f append_file \<Rightarrow> ('f \<Rightarrow> byte list) \<Rightarrow> bool" where
  "append_contract F bytes \<longleftrightarrow>
     (\<forall>f bs. bytes (af_append F f bs) = bytes f @ bs) \<and> (\<forall>f. bytes (af_flush F f) = bytes f)"

record ('k, 'f) cdn_conn = "'k tcp" +
  cdn_recvDataFile :: 'f
  cdn_stdout :: string

section \<open>Operations\<close>

definition shakeHand :: "byte list" where
  "shakeHand = [CHR 0xDF, CHR 0xEF, CHR 0xFF, CHR 0x00]"

definition cdn_onConnection ::
  "'k kernel \<Rightarrow> ('k, 'f, 'z) cdn_conn_scheme conn_callbacks \<Rightarrow> ('k, 'f, 'z) cdn_conn_scheme \<Rightarrow>
   ('k, 'f, 'z) cdn_conn_scheme result" where
  "cdn_onConnection K cbs w =
     (if connected w then send_raw K cbs shakeHand (int (length shakeHand) - 1) w else Inr w)"

text \<open>\<^verbatim>\<open>printf("%04x\n", c)\<close>.\<close>

definition hex_digit :: "nat \<Rightarrow> char" where
  "hex_digit n = (if n < 10 then char_of (48 + n) else char_of (87 + n))"

definition hex4 :: "16 word \<Rightarrow> string" where
  "hex4 c = map (\<lambda>i. hex_digit (unat c div 16 ^ i mod 16)) [3, 2, 1, 0]"

primrec cdn_read ::
  "endian \<Rightarrow> 'f append_file \<Rightarrow> nat \<Rightarrow> ('k, 'f, 'z) cdn_conn_scheme \<Rightarrow> ('k, 'f, 'z) cdn_conn_scheme result" where
  "cdn_read e F 0 w = Inr w"
| "cdn_read e F (Suc n) w =
     bindR (readUint16 e (c_inputBuffer w)) (\<lambda>(c, buf).
       cdn_read e F n (w\<lparr>c_inputBuffer := buf,
         cdn_recvDataFile := af_append F (cdn_recvDataFile w) (take 1 (mem_of_word e c)),
         cdn_stdout := cdn_stdout w @ hex4 c @ [CHR 0x0A]\<rparr>))"

definition cdn_onMessage ::
  "endian \<Rightarrow> 'f append_file \<Rightarrow> ('k, 'f, 'z) cdn_conn_scheme \<Rightarrow> ('k, 'f, 'z) cdn_conn_scheme result" where
  "cdn_onMessage e F w =
     (if connected w
      then let len = readableBytes (c_inputBuffer w)
           in bindR (cdn_read e F (len div 2) w) (\<lambda>w1.
                Inr (w1\<lparr>cdn_recvDataFile := af_flush F (cdn_recvDataFile w1)\<rparr>))
      else Inr w)"

text \<open>The object: a server whose callbacks are the two above; \<^verbatim>\<open>main\<close> listens on port 5836 of the local host.\<close>

definition CDN :: "(byte list \<Rightarrow> string) \<Rightarrow> endian \<Rightarrow> nat \<Rightarrow> inetAddress \<Rightarrow> string \<Rightarrow> server result" where
  "CDN ntop6 e loop listenAddr name =
     bindR (inet_toIpPort ntop6 e listenAddr) (\<lambda>ipPort. Inr (TCPServer loop ipPort name))"

definition cdn_callbacks ::
  "'k kernel \<Rightarrow> endian \<Rightarrow> 'f append_file \<Rightarrow> ('k, 'f, 'z) cdn_conn_scheme conn_callbacks \<Rightarrow>
   ('k, 'f, 'z) cdn_conn_scheme conn_callbacks" where
  "cdn_callbacks K e F cbs =
     cbs\<lparr>connectionCallback := Some (cdn_onConnection K cbs), messageCallback := Some (\<lambda>_. cdn_onMessage e F)\<rparr>"

definition cdn_start :: "(nat \<Rightarrow> nat) \<Rightarrow> bool \<Rightarrow> server \<Rightarrow> server result" where
  "cdn_start startLoop inBase s = server_start startLoop inBase False s"

definition cdn_setThreadNum :: "int \<Rightarrow> server \<Rightarrow> server result" where
  "cdn_setThreadNum numThreads s = server_setThreadNum numThreads s"

definition cdn_main ::
  "(byte list \<Rightarrow> string) \<Rightarrow> (string \<Rightarrow> byte list option) \<Rightarrow> endian \<Rightarrow> byte list \<Rightarrow> nat \<Rightarrow> (nat \<Rightarrow> nat) \<Rightarrow> server result" where
  "cdn_main ntop6 pton6 e mem loop startLoop =
     bindR (CDN ntop6 e loop (InetAddress_ip pton6 e mem ''127.0.0.1'' 5836 False) ''CDN'') (cdn_start startLoop True)"

section \<open>What is received\<close>

fun pairs :: "byte list \<Rightarrow> (byte \<times> byte) list" where
  "pairs (a # b # bs) = (a, b) # pairs bs"
| "pairs bs = []"

text \<open>The byte of a pair that is stored, on the two kinds of host, and the line that is printed.\<close>

fun stored :: "endian \<Rightarrow> byte \<times> byte \<Rightarrow> byte" where
  "stored LittleEndian (a, b) = b"
| "stored BigEndian (a, b) = a"

fun printed :: "byte \<times> byte \<Rightarrow> string" where
  "printed (a, b) = map hex_digit [of_char a div 16, of_char a mod 16, of_char b div 16, of_char b mod 16] @ [CHR 0x0A]"

lemma pairs_append: "even (length (xs :: byte list)) \<Longrightarrow> pairs (xs @ ys) = pairs xs @ pairs ys"
  by (induction xs rule: pairs.induct) auto

lemma drop_pairs: "even (length (xs :: byte list)) \<Longrightarrow> drop (2 * (length (xs @ ys) div 2)) (xs @ ys) = drop (2 * (length ys div 2)) ys"
  by (induction xs rule: pairs.induct) auto

lemma pair_value:
  fixes c :: "16 word"
  assumes "c = networkToHost16 e (word_of_mem e [a, b])"
  shows "unat c = 256 * of_char a + of_char b" "take 1 (mem_of_word e c) = [stored e (a, b)]" "hex4 c @ [CHR 0x0A] = printed (a, b)"
proof -
  have c: "c = word_of_mem BigEndian [a, b]" using assms htobe_word_of_mem [of "[a, b]" e, where 'a = 16] by (simp add: network_defs)
  have lt: "(of_char a :: nat) < 256" "(of_char b :: nat) < 256" by simp_all
  show u: "unat c = 256 * of_char a + of_char b"
  proof -
    have "unat (word_of_nat n :: 16 word) = n" if "n < 65536" for n using that by (simp add: unat_of_nat)
    from this [of "256 * of_char a + of_char b"] show ?thesis using lt by (simp add: c word_of_mem_def ac_simps)
  qed
  have "mem_of_word BigEndian c = [a, b]" using mem_of_word_of_mem [of "[a, b]" BigEndian, where 'a = 16] c by simp
  moreover from this have "mem_of_word LittleEndian c = [b, a]" by (simp add: mem_of_word_def rev_swap)
  ultimately show "take 1 (mem_of_word e c) = [stored e (a, b)]" by (cases e) simp_all
  have "(256 * x + y) div 4096 = x div 16" "(256 * x + y) div 256 = x" "(256 * x + y) div 16 mod 16 = y div 16"
    "(256 * x + y) mod 16 = y mod 16" "x div 16 mod 16 = x div 16" if "x < 256" "y < 256" for x y :: nat
  proof -
    show d: "(256 * x + y) div 256 = x" using that by simp
    have "(256 * x + y) div 4096 = (256 * x + y) div 256 div 16" by (simp add: div_mult2_eq [symmetric])
    then show "(256 * x + y) div 4096 = x div 16" using d by simp
    have "(256 * x + y) div 16 = 16 * x + y div 16" by (simp add: div_add1_eq)
    moreover have "y div 16 < 16" "x div 16 < 16" using that by simp_all
    ultimately show "(256 * x + y) div 16 mod 16 = y div 16" "x div 16 mod 16 = x div 16" by simp_all
    show "(256 * x + y) mod 16 = y mod 16" by (simp add: mod_add_eq [symmetric, of "256 * x"] mod_mult_left_eq [symmetric])
  qed
  from this [OF lt] show "hex4 c @ [CHR 0x0A] = printed (a, b)" by (simp add: hex4_def u)
qed

lemma readUint16_pair:
  assumes "buffer_inv b" "content b = x # y # rest"
  shows "\<exists>b'. readUint16 e b = Inr (networkToHost16 e (word_of_mem e [x, y]), b') \<and> buffer_inv b' \<and> content b' = rest"
  using assms retrieve_ok [OF assms(1), of 2] peek_mem_ok [OF assms(1), of 2]
  by (auto simp: readUint16_def read_then_def peekUint16_def retrieveUint16_def)

lemma cdn_read_ok:
  assumes F: "append_contract F bytes"
  shows "conn_inv interest w \<Longrightarrow> 2 * n \<le> length (content (c_inputBuffer w)) \<Longrightarrow>
    \<exists>w'. cdn_read e F n w = Inr w' \<and> conn_inv interest w' \<and> c_state w' = c_state w \<and> c_accepted w' = c_accepted w \<and>
      content (c_inputBuffer w') = drop (2 * n) (content (c_inputBuffer w)) \<and>
      bytes (cdn_recvDataFile w') = bytes (cdn_recvDataFile w) @ map (stored e) (pairs (take (2 * n) (content (c_inputBuffer w)))) \<and>
      cdn_stdout w' = cdn_stdout w @ concat (map printed (pairs (take (2 * n) (content (c_inputBuffer w)))))"
proof (induction n arbitrary: w)
  case (Suc n)
  obtain x y rest where xy: "content (c_inputBuffer w) = x # y # rest"
    using Suc.prems(2) by (cases "content (c_inputBuffer w)"; cases "tl (content (c_inputBuffer w))") auto
  let ?c = "networkToHost16 e (word_of_mem e [x, y])"
  obtain b where b: "readUint16 e (c_inputBuffer w) = Inr (?c, b)" "buffer_inv b" "content b = rest"
    using readUint16_pair [OF conn_invD(3) [OF Suc.prems(1)] xy] by blast
  let ?w = "w\<lparr>c_inputBuffer := b, cdn_recvDataFile := af_append F (cdn_recvDataFile w) (take 1 (mem_of_word e ?c)),
    cdn_stdout := cdn_stdout w @ hex4 ?c @ [CHR 0x0A]\<rparr>"
  have "conn_inv interest ?w" by (rule conn_inv_input [OF Suc.prems(1)]) (use b(2) in simp_all)
  from Suc.IH [OF this] Suc.prems(2) obtain w' where
    w': "cdn_read e F n ?w = Inr w'" "conn_inv interest w'" "c_state w' = c_state w" "c_accepted w' = c_accepted w"
      "content (c_inputBuffer w') = drop (2 * n) rest"
      "bytes (cdn_recvDataFile w') = bytes (cdn_recvDataFile ?w) @ map (stored e) (pairs (take (2 * n) rest))"
      "cdn_stdout w' = cdn_stdout ?w @ concat (map printed (pairs (take (2 * n) rest)))"
    using b(3) xy by auto
  have "bytes (cdn_recvDataFile ?w) = bytes (cdn_recvDataFile w) @ [stored e (x, y)]" "cdn_stdout ?w = cdn_stdout w @ printed (x, y)"
    using F pair_value(2,3) [OF refl, of e x y] by (simp_all add: append_contract_def)
  then show ?case using w' b(1) xy by (intro exI [of _ w']) simp
qed simp

lemma cdn_onMessage_ok:
  assumes F: "append_contract F bytes" and inv: "conn_inv interest w" and st: "c_state w = kConnected"
  shows "\<exists>w'. cdn_onMessage e F w = Inr w' \<and> conn_inv interest w' \<and> c_state w' = kConnected \<and> c_accepted w' = c_accepted w \<and>
    content (c_inputBuffer w') = drop (2 * (length (content (c_inputBuffer w)) div 2)) (content (c_inputBuffer w)) \<and>
    bytes (cdn_recvDataFile w') = bytes (cdn_recvDataFile w) @ map (stored e) (pairs (content (c_inputBuffer w))) \<and>
    cdn_stdout w' = cdn_stdout w @ concat (map printed (pairs (content (c_inputBuffer w))))"
proof -
  let ?bs = "content (c_inputBuffer w)" and ?n = "length (content (c_inputBuffer w)) div 2"
  have p: "pairs (take (2 * (length bs div 2)) bs) = pairs bs" for bs :: "byte list"
    by (induction bs rule: pairs.induct) auto
  obtain w1 where w1: "cdn_read e F ?n w = Inr w1" "conn_inv interest w1" "c_state w1 = c_state w" "c_accepted w1 = c_accepted w"
      "content (c_inputBuffer w1) = drop (2 * ?n) ?bs"
      "bytes (cdn_recvDataFile w1) = bytes (cdn_recvDataFile w) @ map (stored e) (pairs ?bs)"
      "cdn_stdout w1 = cdn_stdout w @ concat (map printed (pairs ?bs))"
    using cdn_read_ok [OF F inv, of ?n e] by (auto simp: p)
  let ?w = "w1\<lparr>cdn_recvDataFile := af_flush F (cdn_recvDataFile w1)\<rparr>"
  have "conn_inv interest ?w" by (rule conn_inv_same [OF w1(2)]) simp_all
  moreover have "cdn_onMessage e F w = Inr ?w"
    using w1(1) st readable_content [OF conn_invD(3) [OF inv]] by (simp add: cdn_onMessage_def connected_def)
  moreover have "bytes (af_flush F (cdn_recvDataFile w1)) = bytes (cdn_recvDataFile w1)" using F by (simp add: append_contract_def)
  ultimately show ?thesis using w1(3-7) st by (intro exI [of _ ?w]) simp
qed

section \<open>Properties of the receiver\<close>

text \<open>C32. What the receiver stores and prints does not depend on how the bytes arrive: after a message with the bytes \<open>xs\<close>
  and a second one that adds \<open>ys\<close> to what was left in the buffer, both handled without a failed assert, the file has one
  byte for each pair of \<open>xs @ ys\<close> (the second of the pair on a little-endian host, the first on a big-endian one), the
  standard output the four hexadecimal digits of each pair, and only an odd last byte is left in the buffer.\<close>

theorem cdn_stream:
  fixes w :: "('k, 'f, 'z) cdn_conn_scheme"
  assumes "append_contract F bytes" "conn_inv interest w" "c_state w = kConnected" "content (c_inputBuffer w) = xs"
  shows "\<exists>w1. cdn_onMessage e F w = Inr w1 \<and> conn_inv interest w1 \<and> c_state w1 = kConnected \<and>
    (\<forall>w2 :: ('k, 'f, 'z) cdn_conn_scheme. conn_inv interest w2 \<longrightarrow> c_state w2 = kConnected \<longrightarrow> content (c_inputBuffer w2) = content (c_inputBuffer w1) @ ys \<longrightarrow>
       cdn_recvDataFile w2 = cdn_recvDataFile w1 \<longrightarrow> cdn_stdout w2 = cdn_stdout w1 \<longrightarrow>
       (\<exists>w3. cdn_onMessage e F w2 = Inr w3 \<and> conn_inv interest w3 \<and>
          bytes (cdn_recvDataFile w3) = bytes (cdn_recvDataFile w) @ map (stored e) (pairs (xs @ ys)) \<and>
          cdn_stdout w3 = cdn_stdout w @ concat (map printed (pairs (xs @ ys))) \<and>
          content (c_inputBuffer w3) = drop (2 * (length (xs @ ys) div 2)) (xs @ ys)))"
proof -
  let ?n = "2 * (length xs div 2)"
  obtain w1 where w1: "cdn_onMessage e F w = Inr w1" "conn_inv interest w1" "c_state w1 = kConnected"
      "content (c_inputBuffer w1) = drop ?n xs" "bytes (cdn_recvDataFile w1) = bytes (cdn_recvDataFile w) @ map (stored e) (pairs xs)"
      "cdn_stdout w1 = cdn_stdout w @ concat (map printed (pairs xs))"
    using cdn_onMessage_ok [OF assms(1-3), of e] assms(4) by auto
  have ev: "even (length (take ?n xs))" by simp
  have "pairs (drop ?n xs) = []" by (induction xs rule: pairs.induct) auto
  with pairs_append [OF ev, of "drop ?n xs"] have px: "pairs (take ?n xs) = pairs xs" by simp
  have pp: "pairs (xs @ ys) = pairs xs @ pairs (drop ?n xs @ ys)" using pairs_append [OF ev, of "drop ?n xs @ ys"] px by (metis append_assoc append_take_drop_id)
  have dd: "drop (2 * (length (xs @ ys) div 2)) (xs @ ys) = drop (2 * (length (drop ?n xs @ ys) div 2)) (drop ?n xs @ ys)"
    using drop_pairs [OF ev, of "drop ?n xs @ ys"] by (simp add: append_assoc [symmetric] del: append_assoc)
  have "\<exists>w3. cdn_onMessage e F w2 = Inr w3 \<and> conn_inv interest w3 \<and>
      bytes (cdn_recvDataFile w3) = bytes (cdn_recvDataFile w) @ map (stored e) (pairs (xs @ ys)) \<and>
      cdn_stdout w3 = cdn_stdout w @ concat (map printed (pairs (xs @ ys))) \<and>
      content (c_inputBuffer w3) = drop (2 * (length (xs @ ys) div 2)) (xs @ ys)"
    if "conn_inv interest w2" "c_state w2 = kConnected" "content (c_inputBuffer w2) = content (c_inputBuffer w1) @ ys"
      "cdn_recvDataFile w2 = cdn_recvDataFile w1" "cdn_stdout w2 = cdn_stdout w1" for w2 :: "('k, 'f, 'z) cdn_conn_scheme"
    using cdn_onMessage_ok [OF assms(1) that(1,2), of e] that(3-5) w1(4-6) unfolding pp dd by auto
  then show ?thesis using w1(1-3) by blast
qed

text \<open>A file for the example: the list of its bytes.\<close>

definition list_file :: "byte list append_file" where
  "list_file = \<lparr>af_append = (\<lambda>f bs. f @ bs), af_flush = (\<lambda>f. f)\<rparr>"

definition sample_cdn :: "byte list \<Rightarrow> (int \<Rightarrow> epoll_event option, byte list) cdn_conn" where
  "sample_cdn inp = (sample_tcp (cdn_conn.fields [] []) kConnected kReadEvent [])\<lparr>c_inputBuffer :=
     \<lparr>vec = replicate 8 (CHR 0x00) @ inp, readerIndex = 8, writerIndex = 8 + length inp\<rparr>\<rparr>"

theorem cdn_stream_witness:
  "\<exists>w1 w3. cdn_onMessage LittleEndian list_file (sample_cdn ''abc'') = Inr w1 \<and>
    cdn_onMessage LittleEndian list_file (w1\<lparr>c_inputBuffer :=
      \<lparr>vec = replicate 8 (CHR 0x00) @ ''cd'', readerIndex = 8, writerIndex = 10\<rparr>\<rparr>) = Inr w3 \<and>
    cdn_recvDataFile w3 = ''bd'' \<and> content (c_inputBuffer w3) = []"
proof -
  have F: "append_contract list_file (\<lambda>f. f)" by (simp add: append_contract_def list_file_def)
  have b: "buffer_inv \<lparr>vec = replicate 8 (CHR 0x00) @ bs, readerIndex = 8, writerIndex = 8 + length bs\<rparr>" if "length bs \<le> 10" for bs
    using that by (simp add: buffer_inv_def kCheapPrepend_def vec_max_def)
  have inv: "conn_inv (\<lambda>k. k) (sample_cdn ''abc'')" unfolding sample_cdn_def
    by (rule conn_inv_input [OF sample_reading_inv]) (use b [of "''abc''"] in simp_all)
  have c: "c_state (sample_cdn ''abc'') = kConnected" "content (c_inputBuffer (sample_cdn ''abc'')) = ''abc''"
      "cdn_recvDataFile (sample_cdn ''abc'') = []" "cdn_stdout (sample_cdn ''abc'') = []"
    by (simp_all add: sample_cdn_def sample_tcp_def blank_tcp_def content_def cdn_conn.defs)
  from cdn_stream [OF F inv c(1,2), of LittleEndian "''d''"] obtain w1 where
    w1: "cdn_onMessage LittleEndian list_file (sample_cdn ''abc'') = Inr w1" "conn_inv (\<lambda>k. k) w1" "c_state w1 = kConnected"
      "\<And>w2 :: (int \<Rightarrow> epoll_event option, byte list) cdn_conn. conn_inv (\<lambda>k. k) w2 \<Longrightarrow> c_state w2 = kConnected \<Longrightarrow> content (c_inputBuffer w2) = content (c_inputBuffer w1) @ ''d'' \<Longrightarrow>
       cdn_recvDataFile w2 = cdn_recvDataFile w1 \<Longrightarrow> cdn_stdout w2 = cdn_stdout w1 \<Longrightarrow>
       \<exists>w3. cdn_onMessage LittleEndian list_file w2 = Inr w3 \<and>
          cdn_recvDataFile w3 = cdn_recvDataFile (sample_cdn ''abc'') @ map (stored LittleEndian) (pairs (''abc'' @ ''d'')) \<and>
          content (c_inputBuffer w3) = drop (2 * (length (''abc'' @ ''d'') div 2)) (''abc'' @ ''d'')"
    by blast
  let ?w2 = "w1\<lparr>c_inputBuffer := \<lparr>vec = replicate 8 (CHR 0x00) @ ''cd'', readerIndex = 8, writerIndex = 10\<rparr>\<rparr>"
  have "content (c_inputBuffer w1) = ''c''" using cdn_onMessage_ok [OF F inv c(1), of LittleEndian] w1(1) c(2) by auto
  moreover have "conn_inv (\<lambda>k. k) ?w2" by (rule conn_inv_input [OF w1(2)]) (use b [of "''cd''"] in simp_all)
  ultimately have "\<exists>w3. cdn_onMessage LittleEndian list_file ?w2 = Inr w3 \<and> cdn_recvDataFile w3 = ''bd'' \<and> content (c_inputBuffer w3) = []"
    using w1(4) [of ?w2] w1(3) c(3) by (simp add: content_def)
  then show ?thesis using w1(1) by blast
qed

text \<open>A new connection is greeted with three bytes.\<close>

theorem cdn_greets:
  assumes "kernel_contract K interest" "conn_inv interest w" "c_state w = kConnected" "out_room [CHR 0xDF, CHR 0xEF, CHR 0xFF] w"
  shows "\<exists>w'. cdn_onConnection K cbs w = Inr w' \<and> conn_inv interest w' \<and> c_state w' = kConnected \<and>
    (c_accepted w' = c_accepted w @ [CHR 0xDF, CHR 0xEF, CHR 0xFF] \<or>
     c_accepted w' = c_accepted w \<and> peer_gone K [CHR 0xDF, CHR 0xEF, CHR 0xFF] w)"
proof -
  have "up w" using assms(3) by (simp add: up_def)
  from sendInLoop_ok [OF assms(1,2) this assms(4), of cbs] show ?thesis
    using assms(3) conn_invD(2) [OF assms(2)]
    by (auto simp: cdn_onConnection_def connected_def send_raw_def send_def shakeHand_def same_conn_def)
qed

text \<open>\<^verbatim>\<open>main\<close> brings up a server that listens on its address, has no thread but its own, and satisfies the invariant of servers.\<close>

lemma local_host: "inet_ntop4 [CHR 0x7F, CHR 0x00, CHR 0x00, CHR 0x01] = ''127.0.0.1''" "dec 5836 = ''5836''"
proof -
  have "dec 127 = ''127''" "dec 0 = ''0''" "dec (Suc 0) = ''1''"
    by (simp_all add: dec.simps digit_def char_of_def bit_iff_odd_drop_bit drop_bit_eq_div)
  then show "inet_ntop4 [CHR 0x7F, CHR 0x00, CHR 0x00, CHR 0x01] = ''127.0.0.1''" by (simp add: inet_ntop4_def)
  show "dec 5836 = ''5836''" by (simp add: dec.simps digit_def char_of_def bit_iff_odd_drop_bit drop_bit_eq_div)
qed

theorem cdn_main_ok:
  assumes "inet6_text ntop6 pton6" "length mem = 28"
  shows "\<exists>s. cdn_main ntop6 pton6 e mem loop startLoop = Inr s \<and> server_inv s \<and> s_listenning s \<and>
    s_ipPort s = ''127.0.0.1:5836'' \<and> p_loops (s_pool s) = []"
proof -
  let ?a = "InetAddress_ip pton6 e mem ''127.0.0.1'' 5836 False"
  have four: "Suc (Suc (Suc (Suc 0))) = 4" by simp
  have F: "family e ?a = AF_INET" "toPort e ?a = 5836" "field 4 4 ?a = [CHR 0x7F, CHR 0x00, CHR 0x00, CHR 0x01]"
    using InetAddress_ip_fields [OF assms, of "[CHR 0x7F, CHR 0x00, CHR 0x00, CHR 0x01]" False "''127.0.0.1''" ?a e 5836]
    by (simp_all add: local_host four)
  have ip: "inet_toIp ntop6 e ?a = Inr ''127.0.0.1''" using F(1,3) local_host by (simp add: toIp_family)
  have tx: "inet_toIpPort ntop6 e ?a = Inr ''127.0.0.1:5836''"
    using F(2) toIpPort_text [OF ip] local_host(2) by simp
  obtain s where s: "server_start startLoop True False (TCPServer loop ''127.0.0.1:5836'' ''CDN'') = Inr s"
      "s_listenning s" "s_ipPort s = ''127.0.0.1:5836''" "p_loops (s_pool s) = []"
    by (simp add: server_start_def TCPServer_def pool_start_def assertBase_def Let_def EventLoopThreadPool_def)
  have "bindR (server_setThreadNum 0 (TCPServer loop ''127.0.0.1:5836'' ''CDN'')) (server_start startLoop True False) = Inr s"
    using s(1) by (simp add: server_setThreadNum_def setThreadNum_def TCPServer_def EventLoopThreadPool_def)
  then have "server_inv s" using TCPServer_inv [of "''127.0.0.1:5836''" 0] by simp
  then show ?thesis using s tx by (simp add: cdn_main_def CDN_def cdn_start_def)
qed

end
