(* ===== verification/Spec2Isabelle.thy ===== *)
theory Spec2Isabelle
  imports Lute_Wire Lute_Loop Lute_ConnOrder Lute_ServerDrain Lute_TCPClient Lute_AcceptServer Lute_SocketBuilds
    Lute_Lifetime Lute_WebServer Lute_CDN
begin

text \<open>
  \<^bold>\<open>Lute\<close> is a C++ network library in the reactor style (\<^verbatim>\<open>polaris\<close>) with an HTTP server and a small web application on
  top of it (\<^verbatim>\<open>app/http\<close>).  This development models its own code, component by component, and proves what makes
  the components correct, each alone and where they meet.  All paths are relative to \<^verbatim>\<open>src/\<close>.

  \<^bold>\<open>The program.\<close>  An \<^verbatim>\<open>EventLoop\<close> runs in one thread.  It asks its \<^verbatim>\<open>EPollPoller\<close> which \<^verbatim>\<open>Channel\<close>s (a descriptor
  with a mask of events) are ready, calls their callbacks and then the functors that any thread has queued; an eventfd
  wakes it up, a timerfd drives its \<^verbatim>\<open>TimerQueue\<close>.  An \<^verbatim>\<open>Acceptor\<close> takes new connections and gives them to the \<^verbatim>\<open>TCPServer\<close>,
  which makes a \<^verbatim>\<open>TCPConnection\<close> of each, gives it to one of the loops of its \<^verbatim>\<open>EventLoopThreadPool\<close> and keeps it in a map until it
  is closed.  A \<^verbatim>\<open>TCPClient\<close> gets its only connection from a \<^verbatim>\<open>Connector\<close>, which retries with growing delays.  A connection
  reads into one \<^verbatim>\<open>Buffer\<close> and queues what it could not write in another.  The \<^verbatim>\<open>HttpServer\<close> gives the input to the parser
  \<^verbatim>\<open>HttpContext\<close> of the connection, and the request it yields to a callback that fills an \<^verbatim>\<open>HttpResponse\<close>; the callback of
  the application serves files and keeps its users in Redis and MySQL.

  \<^bold>\<open>Theories.\<close>

  \<^item> \<open>Lute_Prelude\<close>: results (\<open>error + 'a\<close>, where a failed \<^verbatim>\<open>assert\<close>, a null or dangling pointer and an access out of
    range are values of \<open>error\<close>), \<^verbatim>\<open>size_t\<close> as a \<open>nat\<close> with the wrap-around at \<open>2 ^ 64\<close> written out, byte arrays, decimal
    numbers, and two locales for transition systems: \<open>invariant_system\<close> (an invariant of a step relation) and
    \<open>safe_commands\<close> (sequences of fallible commands, each allowed under a condition).
  \<^item> \<open>Lute_Endian\<close>, \<open>Lute_Buffer\<close>, \<open>Lute_Wire\<close>: \<^verbatim>\<open>polaris/include/polaris/Sockets.h\<close> (byte order), \<^verbatim>\<open>Buffer.h\<close>, \<^verbatim>\<open>Buffer.cc\<close>.  The record
    \<open>buffer\<close> has the vector and the two indices.  A buffer refines a queue of bytes (\<open>byte_queue\<close>), \<^verbatim>\<open>readFd\<close> appends what
    \<^verbatim>\<open>readv\<close> delivered, and integers of eight types are codecs (\<open>wire_codec\<close>) that survive the way between hosts.
  \<^item> \<open>Lute_Channel\<close>, \<open>Lute_Poller\<close>: \<^verbatim>\<open>Channel.cc\<close>, \<^verbatim>\<open>Poller.cc\<close>, \<^verbatim>\<open>EPollPoller.cc\<close>.  Channels live on a heap of addresses in
    the record \<open>reactor\<close>, which also has the map of the poller and the state of the kernel.  \<^verbatim>\<open>epoll_ctl\<close> is a
    parameter; \<open>epoll_contract\<close> is what its manual page promises.  The interest list of the kernel is what the channels ask for.
  \<^item> \<open>Lute_EventLoop\<close>, \<open>Lute_LoopThread\<close>: \<^verbatim>\<open>EventLoop.cc\<close>, \<^verbatim>\<open>EventLoopThread.cc\<close>, \<^verbatim>\<open>EventLoopThreadPool.cc\<close>.  One iteration is a
    function on the reactor; the interleavings of the loop with other threads are the step relations \<open>loop_step\<close> and
    \<open>thread_step\<close>, whose steps are the accesses to shared state.  No wakeup is lost, functors run once and in order.
  \<^item> \<open>Lute_TimerQueue\<close>: \<^verbatim>\<open>Timer.cc\<close>, \<^verbatim>\<open>TimerQueue.cc\<close>.  Timers are allocated and deleted on a heap, the two ordered sets are sorted
    lists.  Calls from inside timer callbacks are part of the model.  No assert fails, no deleted timer is touched.
  \<^item> \<open>Lute_Loop\<close>: the object \<^verbatim>\<open>EventLoop\<close> with everything it owns (poller, timer queue, eventfd, functors) in its own thread, from its
    constructor over runs of \<^verbatim>\<open>loop()\<close> to its destructor.
  \<^item> \<open>Lute_InetAddress\<close>, \<open>Lute_Sockets\<close>, \<open>Lute_Acceptor\<close>, \<open>Lute_Connector\<close>: the files of these names.  An address is the 28 bytes of
    the union.  The acceptor and the connector extend the reactor of their loop.
  \<^item> \<open>Lute_SocketBuilds\<close>: the build of \<^verbatim>\<open>Sockets.cc\<close> that sets the flags of a descriptor with \<^verbatim>\<open>fcntl\<close>, compared with the one that asks for
    them in the call that makes the descriptor.
  \<^item> \<open>Lute_TCPConnection\<close>: \<^verbatim>\<open>TCPConnection.cc\<close>.  The state extends the reactor; the kernel's \<^verbatim>\<open>write\<close> and \<^verbatim>\<open>read\<close> and the callbacks
    are parameters.  \<open>conn_inv\<close> says that the bytes given to the kernel followed by the queued ones are the bytes of the
    messages the connection took.
  \<^item> \<open>Lute_Lifetime\<close>: the pointers to a connection, counted, weak and bare, the class \<^verbatim>\<open>WeakCallback\<close> of \<^verbatim>\<open>Callbacks.h\<close> and the functors of a
    loop that are bound to connections: which of them may run after the connection is gone, and what they do then.
  \<^item> \<open>Lute_TCPServer\<close>, \<open>Lute_TCPClient\<close>: \<^verbatim>\<open>TCPServer.cc\<close>, \<^verbatim>\<open>TCPClient.cc\<close>.  The life of connections: names, loops, states and
    the functors that pass between the loops, in any order.
  \<^item> \<open>Lute_ServerConn\<close>: the server together with the whole objects of its connections, run side by side.  What the server
    keeps of a connection is an abstraction of the object, and every step of the object is a step of the server or none.
    Each object has the view of its own loop; that the channels of one poller do not disturb each other is
    \<open>interest_list_exact\<close> of \<open>Lute_Poller\<close>.
  \<^item> \<open>Lute_ConnOrder\<close>: the states of a connection are ordered by its life, and no history of a connection leads back.
  \<^item> \<open>Lute_ServerDrain\<close>, \<open>Lute_AcceptServer\<close>: progress.  Loops that go on running their functors bring every connection of a server to its end
    state, and every client in the backlog of the acceptor gets a connection of the server.
  \<^item> \<open>Lute_HttpContext\<close>, \<open>Lute_HttpResponse\<close>, \<open>Lute_HttpServer\<close>, \<open>Lute_App\<close>: \<^verbatim>\<open>app/http\<close>.  The parser refines a parser of byte
    lists and does not see how its input was cut; the server answers with the bytes of the response; who registers
    can log in.
  \<^item> \<open>Lute_WebServer\<close>: the application as the callback of \<^verbatim>\<open>HttpServer\<close> on a connection, from the bytes that arrive to the bytes that
    leave.
  \<^item> \<open>Lute_CDN\<close>: the server of \<^verbatim>\<open>app/CDN/src/main.cc\<close> and its callbacks; what it stores does not depend on how the stream was cut.

  \<^bold>\<open>Interfaces.\<close>  \<open>byte_queue\<close> is what the users of a buffer rely on, \<open>wire_codec\<close> what the users of the integer types do;
  \<open>handled_world\<close> is what the loop over the active channels relies on of the callbacks; \<open>safe_commands\<close> (extended by \<open>forward_commands\<close>) and
  \<open>invariant_system\<close> carry every statement about histories.  Each is interpreted on the definitions of the model.  The code that
  is not part of the repository is a parameter with a contract: \<open>epoll_contract\<close>, \<open>kernel_contract\<close>, \<open>fcntl_contract\<close>, \<open>socket_contract\<close> (system calls),
  \<open>inet6_text\<close> (the text of IPv6 addresses), \<open>append_contract\<close> (\<^verbatim>\<open>AppendFile\<close>), the data bases of the application, the
  arithmetic of \<^verbatim>\<open>Timestamp\<close>.

  \<^bold>\<open>Loops and bounds.\<close>  There is no fuel.  The parser's loop is a partial function whose termination is characterised
  (\<open>parseRequest_terminates\<close>); \<^verbatim>\<open>loop()\<close> and the histories of all components are finite sequences of turns or commands of any length; the other
  loops are recursive over data.  Sizes are below \<open>vec_max\<close>, the largest size of a vector; the number of a connection of a server is
  an \<^verbatim>\<open>int\<close>, so that histories have fewer than \<open>2 ^ 31\<close> connections.

  \<^bold>\<open>Not modelled.\<close>  The submodules Base and DataBase, whose files are not in the repository; the tests and the HTML pages; the
  log, the banner of the application and the handler of SIGPIPE; the names of types in \<^verbatim>\<open>Callbacks.h\<close>; the wrappers \<^verbatim>\<open>connect\<close>, \<^verbatim>\<open>read\<close>,
  \<^verbatim>\<open>readv\<close> and \<^verbatim>\<open>write\<close> of \<^verbatim>\<open>Sockets.cc\<close>, which pass their arguments on, and the casts between kinds of addresses;
  constructors and setters that only store a value, such as the callbacks of a server.
\<close>

end
